(* ===== verification/Prelude.thy ===== *)
theory Prelude
  imports Main "HOL-Library.Word"
begin

text \<open>
  Names shared by all the component theories: the machine integer types of
  \<^verbatim>\<open>include/typedef.h\<close>, the result type of code that can stop the machine, and the
  generic lemmas about results, lists and words that the components use.
\<close>

unbundle bit_operations_syntax

section \<open>Machine integers\<close>

type_synonym u8 = "8 word"
type_synonym u16 = "16 word"
type_synonym u32 = "32 word"
type_synonym u64 = "64 word"

section \<open>Results\<close>

text \<open>
  The code has no exceptions: a failed \<^verbatim>\<open>ASSERT\<close> and an \<^verbatim>\<open>ERROR\<close> print and call
  \<^verbatim>\<open>die()\<close>, which never returns (\<open>Die\<close>); an access through \<^verbatim>\<open>NULL\<close> or outside an
  object is not defined by C (\<open>Fault\<close>); a loop that is given fuel and uses it up is
  \<open>Stuck\<close>.
\<close>

datatype halt = Die | Fault | Stuck

type_synonym 'a res = "halt + 'a"

definition bindE :: "'e + 'a \<Rightarrow> ('a \<Rightarrow> 'e + 'b) \<Rightarrow> 'e + 'b" where
  "bindE m f = (case m of Inl e \<Rightarrow> Inl e | Inr x \<Rightarrow> f x)"

definition assertE :: "bool \<Rightarrow> unit res" where
  "assertE b = (if b then Inr () else Inl Die)"

named_theorems res_simps \<open>evaluation and inversion of result-valued code\<close>

lemma bindE_Inr [simp]: "bindE (Inr x) f = f x"
  by (simp add: bindE_def)

lemma bindE_Inl [simp]: "bindE (Inl e) f = Inl e"
  by (simp add: bindE_def)

lemma bindE_eq_Inr: "bindE m f = Inr y \<longleftrightarrow> (\<exists>x. m = Inr x \<and> f x = Inr y)"
  by (cases m) auto

lemma bindE_assoc: "bindE (bindE m f) g = bindE m (\<lambda>x. bindE (f x) g)"
  by (cases m) auto

lemma bindE_cong: "m = m' \<Longrightarrow> (\<And>x. m' = Inr x \<Longrightarrow> f x = g x) \<Longrightarrow> bindE m f = bindE m' g"
  by (cases m') auto

lemma assertE_True [simp]: "assertE True = Inr ()"
  by (simp add: assertE_def)

lemma assertE_False [simp]: "assertE False = Inl Die"
  by (simp add: assertE_def)

lemma assertE_eq_Inr: "assertE b = Inr u \<longleftrightarrow> b"
  by (simp add: assertE_def)

lemmas [res_simps] = bindE_eq_Inr bindE_assoc assertE_eq_Inr

section \<open>Words\<close>

lemma unat_add_no_wrap:
  fixes a b :: "'a::len word"
  assumes "unat a + unat b < 2 ^ LENGTH('a)"
  shows "unat (a + b) = unat a + unat b"
  using assms by (simp add: unat_word_ariths)

lemma unat_sub_no_wrap:
  fixes a b :: "'a::len word"
  assumes "b \<le> a"
  shows "unat (a - b) = unat a - unat b"
  using assms by (rule unat_sub)

lemma unat_of_nat_small:
  "n < 2 ^ LENGTH('a) \<Longrightarrow> unat (of_nat n :: 'a::len word) = n"
  by (simp add: unat_of_nat take_bit_eq_mod)

lemma unat_2p:
  assumes "n < LENGTH('a)"
  shows "unat (2 ^ n :: 'a::len word) = 2 ^ n"
proof -
  have "(2 ^ n :: 'a word) = of_nat (2 ^ n)" by simp
  then show ?thesis using assms by (simp only: unat_of_nat_small power_strict_increasing_iff)
qed

lemma unat_take_bit: "unat (take_bit n (w :: 'a::len word)) = unat w mod 2 ^ n"
  by (simp only: unsigned_take_bit_eq take_bit_eq_mod [of n "unat w"])

lemma unat_drop_bit: "unat (drop_bit n (w :: 'a::len word)) = unat w div 2 ^ n"
proof -
  have "take_bit LENGTH('a) (unat w) = unat w"
    using unsigned_less [of w] by (simp add: take_bit_nat_eq_self)
  then show ?thesis
    by (simp only: unsigned_drop_bit_eq drop_bit_eq_div [of n "unat w"])
qed

lemma unat_push_bit_small:
  fixes w :: "'a::len word"
  assumes "unat w * 2 ^ n < 2 ^ LENGTH('a)"
  shows "unat (push_bit n w) = unat w * 2 ^ n"
proof (cases "w = 0")
  case False
  then have "1 \<le> unat w" by (simp add: Suc_leI unat_gt_0)
  then have "2 ^ n \<le> unat w * 2 ^ n" by simp
  with assms have "(2::nat) ^ n < 2 ^ LENGTH('a)" by linarith
  then have "n < LENGTH('a)" by simp
  with assms show ?thesis by (simp add: push_bit_eq_mult unat_word_ariths unat_2p)
qed simp

lemma unat_u8_lt: "unat (b :: u8) < 256"
  using unsigned_less [of b, where ?'a = nat] by simp

lemma unat_u16_lt: "unat (w :: u16) < 65536"
  using unsigned_less [of w, where ?'a = nat] by simp

lemma unat_u32_lt: "unat (w :: u32) < 4294967296"
  using unsigned_less [of w, where ?'a = nat] by simp

lemma word_of_unat: "unat w = n \<Longrightarrow> w = of_nat n"
  by auto

lemma unat_ucast_up:
  fixes w :: "'a::len word"
  assumes "LENGTH('a) \<le> LENGTH('b::len)"
  shows "unat (ucast w :: 'b word) = unat w"
proof -
  have "unat w < 2 ^ LENGTH('a)" by (rule unsigned_less)
  also have "(2::nat) ^ LENGTH('a) \<le> 2 ^ LENGTH('b)" using assms by (rule power_increasing) simp
  finally show ?thesis by (simp add: unsigned_ucast_eq take_bit_nat_eq_self)
qed

section \<open>Lists\<close>

lemma last_notin_butlast: "distinct xs \<Longrightarrow> last xs \<notin> set (butlast xs) \<or> xs = []"
  by (cases xs rule: rev_cases) auto

lemma hd_snoc_in: "hd (xs @ [x]) \<in> insert x (set xs)"
  by (cases xs) auto

lemma tl_snoc_single: "set (tl (xs @ [x])) \<subseteq> insert x (set xs)"
  by (cases xs) auto

end
