(* ===== verification/ListHead.thy ===== *)
theory ListHead
  imports Prelude
begin

text \<open>
  The intrusive circular doubly linked lists of \<^verbatim>\<open>include/list.h\<close>, on an explicit
  store: a node's links are looked up by its address, \<open>None\<close> is \<^verbatim>\<open>NULL\<close>. The address
  type is a parameter, because the nodes are fields of the structs of every component.
  The abstraction \<open>ring h head xs\<close> says that the list headed by \<open>head\<close> holds the nodes
  \<open>xs\<close> in this order; each operation is proved to do on \<open>xs\<close> what its name promises
  and to leave every disjoint ring as it was.
\<close>

section \<open>The code\<close>

record 'p list_head =
  lprev :: "'p option"
  lnext :: "'p option"

type_synonym 'p lstore = "'p \<Rightarrow> 'p list_head"

fun write_next :: "'p option \<Rightarrow> 'p option \<Rightarrow> 'p lstore \<Rightarrow> 'p lstore res" where
  "write_next None v h = Inl Fault"
| "write_next (Some a) v h = Inr (h(a := (h a)\<lparr>lnext := v\<rparr>))"

fun write_prev :: "'p option \<Rightarrow> 'p option \<Rightarrow> 'p lstore \<Rightarrow> 'p lstore res" where
  "write_prev None v h = Inl Fault"
| "write_prev (Some a) v h = Inr (h(a := (h a)\<lparr>lprev := v\<rparr>))"

definition check_list_empty :: "'p \<Rightarrow> 'p lstore \<Rightarrow> bool" where
  "check_list_empty head h \<longleftrightarrow> lnext (h head) = Some head"

definition check_node_inlist :: "'p \<Rightarrow> 'p lstore \<Rightarrow> bool" where
  "check_node_inlist node h \<longleftrightarrow> lnext (h node) \<noteq> None \<and> lprev (h node) \<noteq> None"

definition check_node_outoflist :: "'p \<Rightarrow> 'p lstore \<Rightarrow> bool" where
  "check_node_outoflist node h \<longleftrightarrow> \<not> check_node_inlist node h"

definition list_init :: "'p \<Rightarrow> 'p lstore \<Rightarrow> 'p lstore" where
  "list_init head h = h(head := \<lparr>lprev = Some head, lnext = Some head\<rparr>)"

definition list_add_between :: "'p \<Rightarrow> 'p option \<Rightarrow> 'p option \<Rightarrow> 'p lstore \<Rightarrow> 'p lstore res" where
  "list_add_between new prv nxt h =
     bindE (write_next prv (Some new) h) (\<lambda>h.
     bindE (write_prev (Some new) prv h) (\<lambda>h.
     bindE (write_next (Some new) nxt h) (\<lambda>h.
     write_prev nxt (Some new) h)))"

definition list_remove_between :: "'p option \<Rightarrow> 'p option \<Rightarrow> 'p lstore \<Rightarrow> 'p lstore res" where
  "list_remove_between prv nxt h =
     bindE (write_next prv nxt h) (\<lambda>h. write_prev nxt prv h)"

definition list_add_head :: "'p \<Rightarrow> 'p \<Rightarrow> 'p lstore \<Rightarrow> 'p lstore res" where
  "list_add_head new head h = list_add_between new (Some head) (lnext (h head)) h"

definition list_add_tail :: "'p \<Rightarrow> 'p \<Rightarrow> 'p lstore \<Rightarrow> 'p lstore res" where
  "list_add_tail new head h = list_add_between new (lprev (h head)) (Some head) h"

definition list_remove :: "'p \<Rightarrow> 'p lstore \<Rightarrow> 'p lstore res" where
  "list_remove rmnode h =
     bindE (assertE (check_node_inlist rmnode h)) (\<lambda>_.
     bindE (list_remove_between (lprev (h rmnode)) (lnext (h rmnode)) h) (\<lambda>h.
     Inr (h(rmnode := \<lparr>lprev = None, lnext = None\<rparr>))))"

definition list_remove_head :: "'p \<Rightarrow> 'p lstore \<Rightarrow> ('p \<times> 'p lstore) res" where
  "list_remove_head head h =
     bindE (assertE (\<not> check_list_empty head h)) (\<lambda>_.
     (case lnext (h head) of
        None \<Rightarrow> Inl Fault
      | Some rmnode \<Rightarrow>
          bindE (list_remove_between (Some head) (lnext (h rmnode)) h) (\<lambda>h.
          Inr (rmnode, h(rmnode := \<lparr>lprev = None, lnext = None\<rparr>)))))"

text \<open>
  \<^verbatim>\<open>LIST_WALK_THROUGH\<close>: the nodes visited from \<open>p\<close> until the head is reached again. The
  walk of a broken list need not end, so it has fuel.
\<close>

fun list_walk :: "nat \<Rightarrow> 'p lstore \<Rightarrow> 'p \<Rightarrow> 'p option \<Rightarrow> 'p list res" where
  "list_walk 0 h head p = Inl Stuck"
| "list_walk (Suc fuel) h head None = Inl Fault"
| "list_walk (Suc fuel) h head (Some p) =
     (if p = head then Inr []
      else bindE (list_walk fuel h head (lnext (h p))) (\<lambda>ps. Inr (p # ps)))"

text \<open>
  \<^verbatim>\<open>list_add_comp\<close>: walk while the comparison with the new node is negative, then link it
  before the node where the walk stopped.
\<close>

fun list_comp_pos :: "nat \<Rightarrow> ('p \<Rightarrow> 'p \<Rightarrow> int) \<Rightarrow> 'p \<Rightarrow> 'p lstore \<Rightarrow> 'p \<Rightarrow> 'p option \<Rightarrow> 'p res" where
  "list_comp_pos 0 cmp new h head p = Inl Stuck"
| "list_comp_pos (Suc fuel) cmp new h head None = Inl Fault"
| "list_comp_pos (Suc fuel) cmp new h head (Some p) =
     (if p = head then Inr p
      else if cmp p new < 0 then list_comp_pos fuel cmp new h head (lnext (h p))
      else Inr p)"

definition list_add_comp ::
  "nat \<Rightarrow> ('p \<Rightarrow> 'p \<Rightarrow> int) \<Rightarrow> 'p \<Rightarrow> 'p \<Rightarrow> 'p lstore \<Rightarrow> 'p lstore res" where
  "list_add_comp fuel cmp new head h =
     bindE (list_comp_pos fuel cmp new h head (lnext (h head))) (\<lambda>p.
     list_add_between new (lprev (h p)) (Some p) h)"

section \<open>The abstraction\<close>

fun linked :: "'p lstore \<Rightarrow> 'p list \<Rightarrow> bool" where
  "linked h [] = True"
| "linked h [a] = True"
| "linked h (a # b # r) = (lnext (h a) = Some b \<and> lprev (h b) = Some a \<and> linked h (b # r))"

definition ring :: "'p lstore \<Rightarrow> 'p \<Rightarrow> 'p list \<Rightarrow> bool" where
  "ring h head xs \<longleftrightarrow> distinct (head # xs) \<and> linked h (head # xs @ [head])"

lemma linked_app:
  "A \<noteq> [] \<Longrightarrow> B \<noteq> [] \<Longrightarrow> linked h (A @ B) \<longleftrightarrow>
     linked h A \<and> lnext (h (last A)) = Some (hd B) \<and> lprev (h (hd B)) = Some (last A) \<and> linked h B"
proof (induction h A rule: linked.induct)
  case (2 h a)
  then show ?case by (cases B) auto
qed auto

lemma linked_cong:
  "\<forall>a\<in>set (butlast A). lnext (h' a) = lnext (h a) \<Longrightarrow> \<forall>a\<in>set (tl A). lprev (h' a) = lprev (h a) \<Longrightarrow>
     linked h' A = linked h A"
  by (induction h A rule: linked.induct) auto

lemma ring_cong:
  assumes "\<And>a. a \<in> set (head # xs) \<Longrightarrow> h' a = h a"
  shows "ring h' head xs = ring h head xs"
proof -
  have "linked h' (head # xs @ [head]) = linked h (head # xs @ [head])"
    by (rule linked_cong) (auto simp: assms in_set_butlastD)
  then show ?thesis by (simp add: ring_def)
qed

lemma ring_split:
  "ring h head (xs @ ys) \<longleftrightarrow> distinct (head # xs @ ys) \<and> linked h (head # xs) \<and>
     linked h (ys @ [head]) \<and> lnext (h (last (head # xs))) = Some (hd (ys @ [head])) \<and>
     lprev (h (hd (ys @ [head]))) = Some (last (head # xs))"
  using linked_app [of "head # xs" "ys @ [head]" h] by (auto simp: ring_def)

lemma ring_init: "ring (list_init head h) head []"
  by (simp add: ring_def list_init_def)

lemma ring_empty_iff: "ring h head xs \<Longrightarrow> check_list_empty head h \<longleftrightarrow> xs = []"
  by (cases xs) (auto simp: ring_def check_list_empty_def)

lemma ring_next: "ring h head xs \<Longrightarrow> lnext (h head) = Some (hd (xs @ [head]))"
  using ring_split [of h head "[]" xs] by simp

lemma ring_prev: "ring h head xs \<Longrightarrow> lprev (h head) = Some (last (head # xs))"
  using ring_split [of h head xs "[]"] by simp

lemma ring_inlist:
  assumes "ring h head xs" and "x \<in> set (head # xs)"
  shows "check_node_inlist x h"
proof (cases "x = head")
  case True
  with ring_next [OF assms(1)] ring_prev [OF assms(1)] show ?thesis
    by (simp add: check_node_inlist_def)
next
  case False
  with assms(2) obtain us vs where xs: "xs = us @ x # vs"
    by (auto dest: split_list)
  have "lnext (h x) = Some (hd (vs @ [head]))"
    using assms(1) ring_split [of h head "us @ [x]" vs] by (simp add: xs)
  moreover have "lprev (h x) = Some (last (head # us))"
    using assms(1) ring_split [of h head us "x # vs"] by (simp add: xs)
  ultimately show ?thesis by (simp add: check_node_inlist_def)
qed

subsection \<open>The operations on one ring\<close>

definition linked_in :: "'p \<Rightarrow> 'p \<Rightarrow> 'p \<Rightarrow> 'p lstore \<Rightarrow> 'p lstore" where
  "linked_in new p n h =
     (let h = h(p := (h p)\<lparr>lnext := Some new\<rparr>);
          h = h(new := (h new)\<lparr>lprev := Some p, lnext := Some n\<rparr>)
      in h(n := (h n)\<lparr>lprev := Some new\<rparr>))"

definition linked_out :: "'p \<Rightarrow> 'p \<Rightarrow> 'p lstore \<Rightarrow> 'p lstore" where
  "linked_out p n h =
     (let h = h(p := (h p)\<lparr>lnext := Some n\<rparr>) in h(n := (h n)\<lparr>lprev := Some p\<rparr>))"

lemma list_add_between_Some:
  "list_add_between new (Some p) (Some n) h = Inr (linked_in new p n h)"
  by (simp add: list_add_between_def linked_in_def Let_def)

lemma list_remove_between_Some:
  "list_remove_between (Some p) (Some n) h = Inr (linked_out p n h)"
  by (simp add: list_remove_between_def linked_out_def Let_def)

lemma linked_in_frame: "a \<notin> {new, p, n} \<Longrightarrow> linked_in new p n h a = h a"
  by (simp add: linked_in_def Let_def)

lemma linked_out_frame: "a \<notin> {p, n} \<Longrightarrow> linked_out p n h a = h a"
  by (simp add: linked_out_def Let_def)

text \<open>
  The position of the change: the ring is cut into the part up to the predecessor \<open>p\<close>
  and the part from the successor \<open>n\<close>; the two may be the same node (the head).
\<close>

lemma cut_facts:
  assumes d: "distinct (head # xs @ ys)"
  shows "last (head # xs) \<notin> set (butlast (head # xs))" "last (head # xs) \<notin> set ys"
    "hd (ys @ [head]) \<notin> set xs" "hd (ys @ [head]) \<notin> set (tl (ys @ [head]))"
    "last (head # xs) \<in> insert head (set xs)" "hd (ys @ [head]) \<in> insert head (set ys)"
proof -
  show "last (head # xs) \<notin> set (butlast (head # xs))"
    using d last_notin_butlast [of "head # xs"] by auto
  show "last (head # xs) \<notin> set ys"
    using d last_in_set [of "head # xs"] by (auto simp del: last.simps)
  show "hd (ys @ [head]) \<notin> set xs" "hd (ys @ [head]) \<in> insert head (set ys)"
      "hd (ys @ [head]) \<notin> set (tl (ys @ [head]))"
    using d by (cases ys; auto)+
  show "last (head # xs) \<in> insert head (set xs)"
    using last_in_set [of "head # xs"] by simp
qed

lemma linked_in_links:
  assumes "p \<noteq> new" "n \<noteq> new"
  shows "lnext (linked_in new p n h p) = Some new" "lprev (linked_in new p n h new) = Some p"
    "lnext (linked_in new p n h new) = Some n" "lprev (linked_in new p n h n) = Some new"
    "a \<noteq> p \<Longrightarrow> a \<noteq> new \<Longrightarrow> lnext (linked_in new p n h a) = lnext (h a)"
    "a \<noteq> n \<Longrightarrow> a \<noteq> new \<Longrightarrow> lprev (linked_in new p n h a) = lprev (h a)"
  using assms by (auto simp: linked_in_def Let_def)

lemma linked_out_links:
  shows "lnext (linked_out p n h p) = Some n" "lprev (linked_out p n h n) = Some p"
    "a \<noteq> p \<Longrightarrow> lnext (linked_out p n h a) = lnext (h a)"
    "a \<noteq> n \<Longrightarrow> lprev (linked_out p n h a) = lprev (h a)"
  by (auto simp: linked_out_def Let_def)

lemma ring_linked_in:
  assumes ring: "ring h head (xs @ ys)" and new: "new \<notin> set (head # xs @ ys)"
  shows "ring (linked_in new (last (head # xs)) (hd (ys @ [head])) h) head (xs @ new # ys)"
proof -
  define p n where "p = last (head # xs)" and "n = hd (ys @ [head])"
  define h' where "h' = linked_in new p n h"
  note s = ring [unfolded ring_split]
  note c = cut_facts [OF conjunct1 [OF s], folded p_def n_def]
  have pn: "p \<noteq> new" "n \<noteq> new" using c(5,6) new by auto
  note l = linked_in_links [OF pn, where h = h, folded h'_def]
  have 1: "linked h' (head # xs)"
    using s c(1,3) new by (subst linked_cong [of _ h' h])
      (auto intro!: l(5,6) dest: in_set_butlastD simp del: butlast.simps)
  have "set (tl (ys @ [head])) \<subseteq> insert head (set ys)" by (rule tl_snoc_single)
  then have 2: "linked h' (ys @ [head])"
    using s c(2,4) new by (subst linked_cong [of _ h' h]) (auto intro!: l(5,6))
  have "linked h' ((head # xs) @ [new] @ ys @ [head])"
    using 1 2 l(1-4) linked_app [of "head # xs" "[new] @ ys @ [head]" h']
      linked_app [of "[new]" "ys @ [head]" h'] by (simp add: p_def n_def)
  then show ?thesis
    using s new by (auto simp: ring_def h'_def p_def n_def)
qed

lemma ring_linked_out:
  assumes ring: "ring h head (xs @ x # ys)"
  shows "ring ((linked_out (last (head # xs)) (hd (ys @ [head])) h)(x := v)) head (xs @ ys)"
proof -
  define p n where "p = last (head # xs)" and "n = hd (ys @ [head])"
  define h' where "h' = (linked_out p n h)(x := v)"
  have d: "distinct (head # xs @ x # ys)" and l1: "linked h (head # xs)" and l2: "linked h (x # ys @ [head])"
    using ring ring_split [of h head xs "x # ys"] by auto
  have l2': "linked h (ys @ [head])"
    using l2 linked_app [of "[x]" "ys @ [head]" h] by simp
  have d': "distinct (head # xs @ ys)" using d by auto
  note c = cut_facts [OF d', folded p_def n_def]
  have pn: "p \<noteq> x" "n \<noteq> x" using c(5,6) d by auto
  note l = linked_out_links [where p = p and n = n and h = h]
  have l': "lnext (h' p) = Some n" "lprev (h' n) = Some p"
    using pn l(1,2) by (auto simp: h'_def)
  have 1: "linked h' (head # xs)"
    using l1 d c(1,3) by (subst linked_cong [of _ h' h])
      (auto simp: h'_def simp del: butlast.simps intro!: l(3,4) dest: in_set_butlastD)
  have "set (tl (ys @ [head])) \<subseteq> insert head (set ys)" by (rule tl_snoc_single)
  then have 2: "linked h' (ys @ [head])"
    using l2' d c(2,4) by (subst linked_cong [of _ h' h]) (auto simp: h'_def intro!: l(3,4))
  have "linked h' ((head # xs) @ ys @ [head])"
    using 1 2 l' linked_app [of "head # xs" "ys @ [head]" h'] by (simp add: p_def n_def)
  then show ?thesis
    using d by (auto simp: ring_def h'_def p_def n_def)
qed

text \<open>What each operation does to one ring, and that it writes nothing outside it.\<close>

lemma ring_add_head:
  assumes "ring h head xs" and "new \<notin> set (head # xs)"
  obtains h' where "list_add_head new head h = Inr h'" "ring h' head (new # xs)"
    "\<And>a. a \<notin> set (head # new # xs) \<Longrightarrow> h' a = h a"
proof
  show "list_add_head new head h = Inr (linked_in new head (hd (xs @ [head])) h)"
    by (simp add: list_add_head_def ring_next [OF assms(1)] list_add_between_Some)
  show "ring (linked_in new head (hd (xs @ [head])) h) head (new # xs)"
    using ring_linked_in [of h head "[]" xs new] assms by simp
  show "linked_in new head (hd (xs @ [head])) h a = h a" if "a \<notin> set (head # new # xs)" for a
    using that hd_snoc_in [of xs head] by (intro linked_in_frame) auto
qed

lemma ring_add_tail:
  assumes "ring h head xs" and "new \<notin> set (head # xs)"
  obtains h' where "list_add_tail new head h = Inr h'" "ring h' head (xs @ [new])"
    "\<And>a. a \<notin> set (head # new # xs) \<Longrightarrow> h' a = h a"
proof
  show "list_add_tail new head h = Inr (linked_in new (last (head # xs)) head h)"
    by (simp add: list_add_tail_def ring_prev [OF assms(1)] list_add_between_Some)
  show "ring (linked_in new (last (head # xs)) head h) head (xs @ [new])"
    using ring_linked_in [of h head xs "[]" new] assms by simp
  show "linked_in new (last (head # xs)) head h a = h a" if "a \<notin> set (head # new # xs)" for a
    using that last_in_set [of "head # xs"] by (intro linked_in_frame) auto
qed

lemma ring_remove:
  assumes "ring h head xs" and x: "x \<in> set xs"
  obtains h' where "list_remove x h = Inr h'" "ring h' head (remove1 x xs)"
    "h' x = \<lparr>lprev = None, lnext = None\<rparr>" "\<And>a. a \<notin> set (head # xs) \<Longrightarrow> h' a = h a"
proof -
  from x obtain us vs where xs: "xs = us @ x # vs" by (auto dest: split_list)
  define p n where "p = last (head # us)" and "n = hd (vs @ [head])"
  define h' where "h' = (linked_out p n h)(x := \<lparr>lprev = None, lnext = None\<rparr>)"
  have d: "distinct (head # us @ x # vs)" using assms(1) by (simp add: ring_def xs)
  have "lnext (h x) = Some n"
    using assms(1) ring_split [of h head "us @ [x]" vs] by (simp add: xs n_def)
  moreover have "lprev (h x) = Some p"
    using assms(1) ring_split [of h head us "x # vs"] by (simp add: xs p_def)
  ultimately have "list_remove x h = Inr h'"
    by (simp add: list_remove_def check_node_inlist_def list_remove_between_Some h'_def)
  moreover have "ring h' head (remove1 x xs)"
  proof -
    have "remove1 x xs = us @ vs" using d by (simp add: xs remove1_append)
    then show ?thesis
      using ring_linked_out [of h head us x vs] assms(1) by (simp add: xs h'_def p_def n_def)
  qed
  moreover have "h' x = \<lparr>lprev = None, lnext = None\<rparr>" by (simp add: h'_def)
  moreover have "h' a = h a" if "a \<notin> set (head # xs)" for a
  proof -
    have "a \<notin> {p, n}"
      using that last_in_set [of "head # us"] hd_snoc_in [of vs head] by (auto simp: xs p_def n_def)
    then show ?thesis using that by (simp add: h'_def xs linked_out_frame)
  qed
  ultimately show ?thesis by (rule that)
qed

lemma ring_remove_head:
  assumes "ring h head (x # xs)"
  obtains h' where "list_remove_head head h = Inr (x, h')" "ring h' head xs"
    "h' x = \<lparr>lprev = None, lnext = None\<rparr>" "\<And>a. a \<notin> set (head # x # xs) \<Longrightarrow> h' a = h a"
proof
  define n where "n = hd (xs @ [head])"
  define h' where "h' = (linked_out head n h)(x := \<lparr>lprev = None, lnext = None\<rparr>)"
  have "lnext (h x) = Some n"
    using assms ring_split [of h head "[x]" xs] by (simp add: n_def)
  moreover have "\<not> check_list_empty head h"
    using ring_empty_iff [OF assms] by simp
  ultimately show "list_remove_head head h = Inr (x, h')"
    using ring_next [OF assms] by (simp add: list_remove_head_def list_remove_between_Some h'_def)
  show "ring h' head xs"
    using ring_linked_out [of h head "[]" x xs] assms by (simp add: h'_def n_def)
  show "h' x = \<lparr>lprev = None, lnext = None\<rparr>" by (simp add: h'_def)
  show "h' a = h a" if "a \<notin> set (head # x # xs)" for a
  proof -
    have "a \<notin> {head, n}" using that hd_snoc_in [of xs head] by (auto simp: n_def)
    then show ?thesis using that by (simp add: h'_def linked_out_frame)
  qed
qed

text \<open>The ring determines its contents, and walking it with enough fuel reads them.\<close>

lemma list_walk_ring:
  "linked h (xs @ [head]) \<Longrightarrow> head \<notin> set xs \<Longrightarrow> length xs < fuel \<Longrightarrow>
     list_walk fuel h head (Some (hd (xs @ [head]))) = Inr xs"
proof (induction xs arbitrary: fuel)
  case Nil
  then show ?case by (cases fuel) auto
next
  case (Cons x xs)
  then obtain f where f: "fuel = Suc f" by (cases fuel) auto
  have "linked h (xs @ [head])" "lnext (h x) = Some (hd (xs @ [head]))"
    using Cons.prems(1) linked_app [of "[x]" "xs @ [head]" h] by simp_all
  with Cons f show ?case by auto
qed

lemma ring_walk:
  assumes "ring h head xs" and "length xs < fuel"
  shows "list_walk fuel h head (lnext (h head)) = Inr xs"
proof -
  have "linked h (xs @ [head])"
    using assms(1) ring_split [of h head "[]" xs] by simp
  with assms show ?thesis
    by (simp add: list_walk_ring ring_next [OF assms(1)] ring_def)
qed

lemma ring_unique: "ring h head xs \<Longrightarrow> ring h head ys \<Longrightarrow> xs = ys"
  using ring_walk [of h head xs "Suc (length xs + length ys)"]
    ring_walk [of h head ys "Suc (length xs + length ys)"] by simp

text \<open>Sorted insertion: the new node goes before the first node that is not smaller.\<close>

lemma list_comp_pos_ring:
  "linked h (xs @ [head]) \<Longrightarrow> head \<notin> set xs \<Longrightarrow> length xs < fuel \<Longrightarrow>
     list_comp_pos fuel cmp new h head (Some (hd (xs @ [head]))) =
       Inr (hd (dropWhile (\<lambda>p. cmp p new < 0) xs @ [head]))"
proof (induction xs arbitrary: fuel)
  case Nil
  then show ?case by (cases fuel) auto
next
  case (Cons x xs)
  then obtain f where f: "fuel = Suc f" by (cases fuel) auto
  have "linked h (xs @ [head])" "lnext (h x) = Some (hd (xs @ [head]))"
    using Cons.prems(1) linked_app [of "[x]" "xs @ [head]" h] by simp_all
  with Cons f show ?case by auto
qed

definition comp_insert :: "('p \<Rightarrow> 'p \<Rightarrow> int) \<Rightarrow> 'p \<Rightarrow> 'p list \<Rightarrow> 'p list" where
  "comp_insert cmp new xs =
     takeWhile (\<lambda>p. cmp p new < 0) xs @ new # dropWhile (\<lambda>p. cmp p new < 0) xs"

lemma set_comp_insert [simp]: "set (comp_insert cmp new xs) = insert new (set xs)"
  unfolding comp_insert_def
  by (metis Un_insert_right list.simps(15) set_append takeWhile_dropWhile_id)

lemma ring_add_comp:
  assumes "ring h head xs" and "new \<notin> set (head # xs)" and "length xs < fuel"
  obtains h' where "list_add_comp fuel cmp new head h = Inr h'" "ring h' head (comp_insert cmp new xs)"
    "\<And>a. a \<notin> set (head # new # xs) \<Longrightarrow> h' a = h a"
proof
  define us vs where "us = takeWhile (\<lambda>p. cmp p new < 0) xs" and "vs = dropWhile (\<lambda>p. cmp p new < 0) xs"
  have xs: "xs = us @ vs" by (simp add: us_def vs_def)
  define p n where "p = last (head # us)" and "n = hd (vs @ [head])"
  note s = assms(1) [unfolded xs ring_split, folded p_def n_def]
  have "linked h (xs @ [head])" "head \<notin> set xs"
    using assms(1) ring_split [of h head "[]" xs] by simp_all
  then have "list_comp_pos fuel cmp new h head (lnext (h head)) = Inr n"
    using assms(3) list_comp_pos_ring [of h xs head fuel cmp new] ring_next [OF assms(1)]
    by (simp add: n_def vs_def)
  moreover have "lprev (h n) = Some p" using s by simp
  ultimately show "list_add_comp fuel cmp new head h = Inr (linked_in new p n h)"
    by (simp add: list_add_comp_def list_add_between_Some)
  show "ring (linked_in new p n h) head (comp_insert cmp new xs)"
  proof -
    have "comp_insert cmp new xs = us @ new # vs" by (simp add: comp_insert_def us_def vs_def)
    then show ?thesis
      using ring_linked_in [of h head us vs new] assms(1,2) unfolding p_def n_def xs by simp
  qed
  show "linked_in new p n h a = h a" if "a \<notin> set (head # new # xs)" for a
    using that last_in_set [of "head # us"] hd_snoc_in [of vs head]
    by (intro linked_in_frame) (auto simp: xs p_def n_def)
qed

section \<open>A family of lists\<close>

text \<open>
  A component keeps several lists in one store and moves its nodes between them. \<open>rings
  U H L h\<close>: the lists with heads in \<open>H\<close> hold \<open>L\<close>, they are disjoint, and the nodes of the
  universe \<open>U\<close> in no list have a \<^verbatim>\<open>NULL\<close> link (what \<^verbatim>\<open>CHECK_NODE_OUTOFLIST\<close> tests).
\<close>

definition members :: "'p set \<Rightarrow> ('p \<Rightarrow> 'p list) \<Rightarrow> 'p set" where
  "members H L = (\<Union>a\<in>H. set (L a))"

definition rings :: "'p set \<Rightarrow> 'p set \<Rightarrow> ('p \<Rightarrow> 'p list) \<Rightarrow> 'p lstore \<Rightarrow> bool" where
  "rings U H L h \<longleftrightarrow> (\<forall>a\<in>H. ring h a (L a) \<and> set (L a) \<inter> H = {}) \<and>
     (\<forall>a\<in>H. \<forall>b\<in>H. a \<noteq> b \<longrightarrow> set (L a) \<inter> set (L b) = {}) \<and>
     (\<forall>x\<in>U. x \<notin> H \<union> members H L \<longrightarrow> check_node_outoflist x h)"

lemma rings_disjoint:
  "rings U H L h \<Longrightarrow> a \<in> H \<Longrightarrow> x \<in> set (L a) \<Longrightarrow> b \<in> H \<Longrightarrow> b \<noteq> a \<Longrightarrow> x \<notin> set (L b)"
  unfolding rings_def by (metis disjoint_iff)

lemma rings_outoflist_iff:
  assumes "rings U H L h" and "x \<in> U" and "x \<notin> H"
  shows "check_node_outoflist x h \<longleftrightarrow> x \<notin> members H L"
proof
  assume o: "check_node_outoflist x h"
  show "x \<notin> members H L"
  proof
    assume "x \<in> members H L"
    then obtain a where "a \<in> H" "x \<in> set (L a)" by (auto simp: members_def)
    then have "check_node_inlist x h"
      using assms(1) by (intro ring_inlist [of h a "L a"]) (auto simp: rings_def)
    with o show False by (simp add: check_node_outoflist_def)
  qed
qed (use assms in \<open>auto simp: rings_def\<close>)

text \<open>One list changed, within its own nodes and one node \<open>x\<close> that is in no other list.\<close>

lemma rings_update:
  assumes r: "rings U H L h" and a: "a \<in> H" and ring: "ring h' a ys"
    and ys: "set ys \<subseteq> insert x (set (L a))" and keep: "set (L a) \<subseteq> insert x (set ys)"
    and x: "x \<notin> H" "\<And>b. b \<in> H \<Longrightarrow> b \<noteq> a \<Longrightarrow> x \<notin> set (L b)"
    and out: "x \<in> U \<Longrightarrow> x \<notin> set ys \<Longrightarrow> check_node_outoflist x h'"
    and frame: "\<And>y. y \<notin> insert a (insert x (set (L a))) \<Longrightarrow> h' y = h y"
  shows "rings U H (L(a := ys)) h'"
  unfolding rings_def
proof (intro conjI ballI impI)
  fix b assume b: "b \<in> H"
  show "ring h' b ((L(a := ys)) b)"
  proof (cases "b = a")
    case False
    have "ring h' b (L b) = ring h b (L b)"
    proof (rule ring_cong)
      fix y assume "y \<in> set (b # L b)"
      then have "y \<notin> insert a (insert x (set (L a)))"
        using False b a r x rings_disjoint [OF r b, of y a] by (auto simp: rings_def)
      then show "h' y = h y" by (rule frame)
    qed
    with False b r show ?thesis by (simp add: rings_def)
  qed (simp add: ring)
  have LH: "set (L c) \<inter> H = {}" if "c \<in> H" for c using r that by (simp add: rings_def)
  have yb: "set ys \<inter> set (L c) = {}" if "c \<in> H" "c \<noteq> a" for c
    using ys x(2) [OF that] rings_disjoint [OF r a] that by blast
  show "set ((L(a := ys)) b) \<inter> H = {}"
    using LH [OF b] LH [OF a] ys x(1) by auto
  fix c assume c: "c \<in> H" "b \<noteq> c"
  then have "set (L b) \<inter> set (L c) = {}" using r b by (simp add: rings_def)
  with c b yb [OF b] yb [OF c(1)] show "set ((L(a := ys)) b) \<inter> set ((L(a := ys)) c) = {}"
    by (cases "b = a"; cases "c = a") (simp_all add: Int_commute)
next
  fix y assume y: "y \<in> U" "y \<notin> H \<union> members H (L(a := ys))"
  then have y': "y \<notin> set ys" "y \<notin> H" "\<And>b. b \<in> H \<Longrightarrow> b \<noteq> a \<Longrightarrow> y \<notin> set (L b)"
    using a by (auto simp: members_def split: if_splits)
  show "check_node_outoflist y h'"
  proof (cases "y = x")
    case True then show ?thesis using out y(1) y'(1) by simp
  next
    case False
    then have ya: "y \<notin> set (L a)" using keep y'(1) by auto
    then have "y \<notin> members H L" using y'(3) by (auto simp: members_def)
    then have "check_node_outoflist y h"
      using r y(1) y'(2) by (auto simp: rings_def)
    moreover have "h' y = h y" by (rule frame) (use False ya y'(2) a in auto)
    ultimately show ?thesis by (simp add: check_node_outoflist_def check_node_inlist_def)
  qed
qed

lemma rings_add_comp:
  assumes r: "rings U H L h" and a: "a \<in> H" "x \<notin> H" "x \<notin> members H L" and fuel: "length (L a) < fuel"
  shows "\<exists>h'. list_add_comp fuel cmp x a h = Inr h' \<and> rings U H (L(a := comp_insert cmp x (L a))) h'"
proof -
  have ring: "ring h a (L a)" using r a(1) by (simp add: rings_def)
  have x: "x \<notin> set (a # L a)" "\<And>b. b \<in> H \<Longrightarrow> b \<noteq> a \<Longrightarrow> x \<notin> set (L b)"
    using a by (auto simp: members_def)
  obtain h' where h': "list_add_comp fuel cmp x a h = Inr h'" "ring h' a (comp_insert cmp x (L a))"
    "\<And>y. y \<notin> set (a # x # L a) \<Longrightarrow> h' y = h y"
    using ring_add_comp [OF ring x(1) fuel] by blast
  have "rings U H (L(a := comp_insert cmp x (L a))) h'"
    by (rule rings_update [OF r a(1) h'(2), of x]) (use x a(2) h'(3) set_comp_insert [of cmp x "L a"] in auto)
  then show ?thesis using h'(1) by blast
qed

text \<open>The contract of the list operations, as their clients use it.\<close>

locale list_ops =
  fixes fam :: "'p set \<Rightarrow> 'p set \<Rightarrow> ('p \<Rightarrow> 'p list) \<Rightarrow> 's \<Rightarrow> bool"
    and is_empty :: "'p \<Rightarrow> 's \<Rightarrow> bool"
    and add_head add_tail :: "'p \<Rightarrow> 'p \<Rightarrow> 's \<Rightarrow> 's res"
    and remove :: "'p \<Rightarrow> 's \<Rightarrow> 's res"
    and remove_head :: "'p \<Rightarrow> 's \<Rightarrow> ('p \<times> 's) res"
  assumes is_empty: "fam U H L s \<Longrightarrow> a \<in> H \<Longrightarrow> is_empty a s \<longleftrightarrow> L a = []"
    and add_head: "fam U H L s \<Longrightarrow> a \<in> H \<Longrightarrow> x \<notin> H \<Longrightarrow> x \<notin> members H L \<Longrightarrow>
      \<exists>s'. add_head x a s = Inr s' \<and> fam U H (L(a := x # L a)) s'"
    and add_tail: "fam U H L s \<Longrightarrow> a \<in> H \<Longrightarrow> x \<notin> H \<Longrightarrow> x \<notin> members H L \<Longrightarrow>
      \<exists>s'. add_tail x a s = Inr s' \<and> fam U H (L(a := L a @ [x])) s'"
    and remove: "fam U H L s \<Longrightarrow> a \<in> H \<Longrightarrow> x \<in> set (L a) \<Longrightarrow>
      \<exists>s'. remove x s = Inr s' \<and> fam U H (L(a := remove1 x (L a))) s'"
    and remove_head: "fam U H L s \<Longrightarrow> a \<in> H \<Longrightarrow> L a = x # xs \<Longrightarrow>
      \<exists>s'. remove_head a s = Inr (x, s') \<and> fam U H (L(a := xs)) s'"
    and heads_apart: "fam U H L s \<Longrightarrow> a \<in> H \<Longrightarrow> set (L a) \<inter> H = {}"
    and lists_apart: "fam U H L s \<Longrightarrow> a \<in> H \<Longrightarrow> b \<in> H \<Longrightarrow> a \<noteq> b \<Longrightarrow> set (L a) \<inter> set (L b) = {}"
    and list_distinct: "fam U H L s \<Longrightarrow> a \<in> H \<Longrightarrow> distinct (L a)"
begin

lemma removed_not_member:
  assumes "fam U H L s" "a \<in> H" "x \<in> set (L a)"
  shows "x \<notin> H" and "x \<notin> members H (L(a := remove1 x (L a)))"
  using heads_apart [OF assms(1,2)] lists_apart [OF assms(1,2)] list_distinct [OF assms(1,2)] assms(2,3)
  by (auto simp: members_def)

text \<open>Moving a node from one list to the head or the tail of another one.\<close>

lemma move_head:
  assumes "fam U H L s" "a \<in> H" "b \<in> H" "x \<in> set (L a)"
  shows "\<exists>s'. bindE (remove x s) (add_head x b) = Inr s' \<and>
    fam U H ((L(a := remove1 x (L a)))(b := x # (L(a := remove1 x (L a))) b)) s'"
proof -
  obtain s1 where "remove x s = Inr s1" "fam U H (L(a := remove1 x (L a))) s1"
    using remove [OF assms(1,2,4)] by blast
  then show ?thesis
    using add_head [of U H "L(a := remove1 x (L a))" s1 b x] assms(3)
      removed_not_member [OF assms(1,2,4)] by simp
qed

lemma move_tail:
  assumes "fam U H L s" "a \<in> H" "b \<in> H" "x \<in> set (L a)"
  shows "\<exists>s'. bindE (remove x s) (add_tail x b) = Inr s' \<and>
    fam U H ((L(a := remove1 x (L a)))(b := (L(a := remove1 x (L a))) b @ [x])) s'"
proof -
  obtain s1 where "remove x s = Inr s1" "fam U H (L(a := remove1 x (L a))) s1"
    using remove [OF assms(1,2,4)] by blast
  then show ?thesis
    using add_tail [of U H "L(a := remove1 x (L a))" s1 b x] assms(3)
      removed_not_member [OF assms(1,2,4)] by simp
qed

text \<open>A list used as a stack: what was added at the head comes back first.\<close>

lemma push_pop:
  assumes "fam U H L s" "a \<in> H" "x \<notin> H" "x \<notin> members H L"
  shows "\<exists>s'. bindE (add_head x a s) (remove_head a) = Inr (x, s') \<and> fam U H L s'"
proof -
  obtain s1 where s1: "add_head x a s = Inr s1" "fam U H (L(a := x # L a)) s1"
    using add_head [OF assms] by blast
  then show ?thesis
    using remove_head [OF s1(2) assms(2), of x "L a"] by simp
qed

end

interpretation lh: list_ops rings check_list_empty list_add_head list_add_tail list_remove list_remove_head
proof unfold_locales
  fix U H :: "'a set" and L :: "'a \<Rightarrow> 'a list" and s :: "'a lstore" and a x :: 'a and xs :: "'a list"
  assume r: "rings U H L s" and a: "a \<in> H"
  note ring = r [unfolded rings_def, THEN conjunct1, rule_format, OF a, THEN conjunct1]
  show "check_list_empty a s \<longleftrightarrow> L a = []" by (rule ring_empty_iff [OF ring])
  show "set (L a) \<inter> H = {}" using r a by (simp add: rings_def)
  show "distinct (L a)" using ring by (simp add: ring_def)
  {
    assume "x \<notin> H" "x \<notin> members H L"
    then have x: "x \<notin> set (a # L a)" "x \<notin> H" "\<And>b. b \<in> H \<Longrightarrow> b \<noteq> a \<Longrightarrow> x \<notin> set (L b)"
      using a by (auto simp: members_def)
    obtain h1 where h1: "list_add_head x a s = Inr h1" "ring h1 a (x # L a)"
      "\<And>y. y \<notin> set (a # x # L a) \<Longrightarrow> h1 y = s y"
      using ring_add_head [OF ring x(1)] by blast
    have "rings U H (L(a := x # L a)) h1"
      by (rule rings_update [OF r a h1(2), of x]) (use x h1(3) in auto)
    with h1(1) show "\<exists>s'. list_add_head x a s = Inr s' \<and> rings U H (L(a := x # L a)) s'" by blast
    obtain h2 where h2: "list_add_tail x a s = Inr h2" "ring h2 a (L a @ [x])"
      "\<And>y. y \<notin> set (a # x # L a) \<Longrightarrow> h2 y = s y"
      using ring_add_tail [OF ring x(1)] by blast
    have "rings U H (L(a := L a @ [x])) h2"
      by (rule rings_update [OF r a h2(2), of x]) (use x h2(3) in auto)
    with h2(1) show "\<exists>s'. list_add_tail x a s = Inr s' \<and> rings U H (L(a := L a @ [x])) s'" by blast
  }
  {
    assume x: "x \<in> set (L a)"
    have x': "x \<notin> H" "\<And>b. b \<in> H \<Longrightarrow> b \<noteq> a \<Longrightarrow> x \<notin> set (L b)"
      using r a x rings_disjoint [OF r a x] by (auto simp: rings_def)
    obtain h1 where h1: "list_remove x s = Inr h1" "ring h1 a (remove1 x (L a))"
      "h1 x = \<lparr>lprev = None, lnext = None\<rparr>" "\<And>y. y \<notin> set (a # L a) \<Longrightarrow> h1 y = s y"
      using ring_remove [OF ring x] by blast
    have "rings U H (L(a := remove1 x (L a))) h1"
    proof (rule rings_update [OF r a h1(2), of x])
      show "set (remove1 x (L a)) \<subseteq> insert x (set (L a))" using set_remove1_subset [of x "L a"] by auto
      show "set (L a) \<subseteq> insert x (set (remove1 x (L a)))" by (metis in_set_remove1 insertCI subsetI)
      show "check_node_outoflist x h1" by (simp add: check_node_outoflist_def check_node_inlist_def h1(3))
      show "h1 y = s y" if "y \<notin> insert a (insert x (set (L a)))" for y using that h1(4) by simp
    qed (use x' in auto)
    with h1(1) show "\<exists>s'. list_remove x s = Inr s' \<and> rings U H (L(a := remove1 x (L a))) s'" by blast
  }
  {
    assume L: "L a = x # xs"
    have x': "x \<notin> H" "\<And>b. b \<in> H \<Longrightarrow> b \<noteq> a \<Longrightarrow> x \<notin> set (L b)"
      using r a L rings_disjoint [OF r a, of x] by (auto simp: rings_def)
    obtain h1 where h1: "list_remove_head a s = Inr (x, h1)" "ring h1 a xs"
      "h1 x = \<lparr>lprev = None, lnext = None\<rparr>" "\<And>y. y \<notin> set (a # x # xs) \<Longrightarrow> h1 y = s y"
      using ring_remove_head [OF ring [unfolded L]] by blast
    have "rings U H (L(a := xs)) h1"
    proof (rule rings_update [OF r a h1(2), of x])
      show "check_node_outoflist x h1" by (simp add: check_node_outoflist_def check_node_inlist_def h1(3))
      show "h1 y = s y" if "y \<notin> insert a (insert x (set (L a)))" for y using that h1(4) L by simp
    qed (use x' L in auto)
    with h1(1) show "\<exists>s'. list_remove_head a s = Inr (x, s') \<and> rings U H (L(a := xs)) s'" by blast
  }
  fix b assume "b \<in> H" "a \<noteq> b"
  then show "set (L a) \<inter> set (L b) = {}" using r a by (simp add: rings_def)
qed

section \<open>Properties\<close>

text \<open>
  C32: moving a node from one list of a family to the tail of another one - \<^verbatim>\<open>list_remove\<close>, then
  \<^verbatim>\<open>list_add_tail\<close> - never fails and does to the abstract lists just that; all the links of the
  other lists stay in order.
\<close>

theorem list_move_tail:
  assumes "rings U H L h" "a \<in> H" "b \<in> H" "a \<noteq> b" "x \<in> set (L a)"
  shows "\<exists>h'. bindE (list_remove x h) (list_add_tail x b) = Inr h' \<and>
    rings U H (L(a := remove1 x (L a), b := L b @ [x])) h'"
  using lh.move_tail [OF assms(1,2,3,5)] assms(4) by simp

text \<open>The witness: two lists with heads 0 and 1 and the node 2 in the first one.\<close>

definition two_lists :: "nat lstore" where
  "two_lists = (\<lambda>n. if n = 1 then \<lparr>lprev = Some 1, lnext = Some 1\<rparr>
     else if n = 0 then \<lparr>lprev = Some 2, lnext = Some 2\<rparr>
     else if n = 2 then \<lparr>lprev = Some 0, lnext = Some 0\<rparr> else \<lparr>lprev = None, lnext = None\<rparr>)"

theorem list_move_tail_witness:
  "\<exists>h'. bindE (list_remove 2 two_lists) (list_add_tail 2 1) = Inr h' \<and>
    rings UNIV {0, 1} ((\<lambda>n. if n = 0 then [2] else [])(0 := remove1 2 [2], 1 := [] @ [2])) h'"
proof -
  have "rings UNIV {0, 1} (\<lambda>n. if n = 0 then [2] else []) two_lists"
    by (auto simp: rings_def ring_def two_lists_def members_def check_node_outoflist_def check_node_inlist_def)
  from list_move_tail [OF this, of 0 1 2] show ?thesis by simp
qed

text \<open>
  \<^verbatim>\<open>list_add_comp\<close> puts a node into an ascending list before the first element that is not
  below it, so the list stays ascending; the walk ends.
\<close>

lemma list_add_comp_sorted:
  assumes "ring h head xs" "new \<notin> set (head # xs)" "length xs < fuel"
    and "\<And>a b. cmp a b < 0 \<longleftrightarrow> 0 < cmp b a" "\<And>a b c. cmp a b \<le> 0 \<Longrightarrow> cmp b c \<le> 0 \<Longrightarrow> cmp a c \<le> 0"
    and "sorted_wrt (\<lambda>a b. cmp a b \<le> 0) xs"
  shows "\<exists>h' ys. list_add_comp fuel cmp new head h = Inr h' \<and> ring h' head ys \<and>
    set ys = insert new (set xs) \<and> length ys = Suc (length xs) \<and> sorted_wrt (\<lambda>a b. cmp a b \<le> 0) ys"
proof -
  obtain h' where h': "list_add_comp fuel cmp new head h = Inr h'" "ring h' head (comp_insert cmp new xs)"
    using ring_add_comp [OF assms(1,2,3)] by blast
  have "sorted_wrt (\<lambda>a b. cmp a b \<le> 0) (comp_insert cmp new xs)"
    using assms(6)
  proof (induction xs)
    case (Cons x xs)
    show ?case
    proof (cases "cmp x new < 0")
      case True
      have "cmp x y \<le> 0" if "y \<in> set (comp_insert cmp new xs)" for y
        using that Cons.prems True by auto
      then show ?thesis using Cons True by (simp add: comp_insert_def)
    next
      case False
      then have "cmp new x \<le> 0" using assms(4) [of new x] assms(4) [of x new] by linarith
      then show ?thesis using Cons.prems False assms(5) by (auto simp: comp_insert_def)
    qed
  qed (simp add: comp_insert_def)
  moreover have "length (comp_insert cmp new xs) = Suc (length xs)"
    using arg_cong [OF takeWhile_dropWhile_id [of "\<lambda>p. cmp p new < 0" xs], of length]
    by (simp add: comp_insert_def del: takeWhile_dropWhile_id)
  ultimately show ?thesis using h' by auto
qed

end
