(* ===== verification/Bits.thy ===== *)
theory Bits
  imports Prelude
begin

text \<open>
  The integer helpers of \<^verbatim>\<open>include/public.h\<close> (rounding to a power of two, \<^verbatim>\<open>log2\<close>, byte
  swaps) and the page rank of a size from \<^verbatim>\<open>mm/page.c\<close>, on 32-bit words.
\<close>

section \<open>The code\<close>

definition get_upper_range :: "u32 \<Rightarrow> u32 \<Rightarrow> u32" where
  "get_upper_range val pow2 = (val + pow2 - 1) AND NOT (pow2 - 1)"

definition get_lower_range :: "u32 \<Rightarrow> u32 \<Rightarrow> u32" where
  "get_lower_range val pow2 = val AND NOT (pow2 - 1)"

definition log2_step :: "u32 \<Rightarrow> nat \<Rightarrow> u32 \<times> int \<Rightarrow> u32 \<times> int" where
  "log2_step msk k xr =
     (case xr of (x, r) \<Rightarrow> if x AND msk = 0 then (push_bit k x, r - int k) else (x, r))"

definition log2 :: "u32 \<Rightarrow> int" where
  "log2 x =
     (if x = 0 then - 1
      else snd (log2_step 0x80000000 1
           (log2_step 0xc0000000 2
           (log2_step 0xf0000000 4
           (log2_step 0xff000000 8
           (log2_step 0xffff0000 16 (x, 31)))))))"

definition is_log2 :: "u32 \<Rightarrow> bool" where
  "is_log2 v \<longleftrightarrow> v AND (v - 1) = 0"

definition SWAP_2B :: "u16 \<Rightarrow> u16" where
  "SWAP_2B num = drop_bit 8 (num AND 0xFF00) OR push_bit 8 (num AND 0x00FF)"

definition SWAP_4B :: "u32 \<Rightarrow> u32" where
  "SWAP_4B num =
     drop_bit 24 (num AND 0xFF000000) OR drop_bit 8 (num AND 0x00FF0000) OR
     push_bit 8 (num AND 0x0000FF00) OR push_bit 24 (num AND 0x000000FF)"

definition PAGESIZE_SHIFT :: nat where "PAGESIZE_SHIFT = 12"

definition PAGE_SIZE :: u32 where "PAGE_SIZE = push_bit 12 1"

definition get_pagerank :: "u32 \<Rightarrow> u32" where
  "get_pagerank sz =
     (let i = log2 sz
      in if i < int PAGESIZE_SHIFT then 0
         else if push_bit (nat i) 1 < sz then of_int (i - int PAGESIZE_SHIFT + 1)
         else of_int (i - int PAGESIZE_SHIFT))"

section \<open>Rounding\<close>

lemma PAGE_SIZE_eq: "PAGE_SIZE = 4096"
  by (simp add: PAGE_SIZE_def)

lemma and_not_mask_eq:
  fixes w :: "'a::len word"
  shows "w AND NOT (mask n) = push_bit n (drop_bit n w)"
  by (rule bit_word_eqI) (auto simp: bit_simps)

lemma unat_and_not_mask:
  fixes w :: u32
  shows "unat (w AND NOT (2 ^ n - 1)) = unat w - unat w mod 2 ^ n"
proof -
  have m: "(2 ^ n - 1 :: u32) = mask n" by (simp add: mask_eq_exp_minus_1)
  have e: "push_bit n (drop_bit n w) = w - take_bit n w"
    using bits_ident [of n w] by (metis add_diff_cancel_right')
  have le: "take_bit n w \<le> w"
    by (simp add: word_le_nat_alt unsigned_take_bit_eq take_bit_nat_less_eq_self)
  show ?thesis
    unfolding m and_not_mask_eq e by (simp only: unat_sub [OF le] unat_take_bit)
qed

lemma get_lower_range_unat:
  "unat (get_lower_range val (2 ^ n)) = unat val - unat val mod 2 ^ n"
  unfolding get_lower_range_def by (rule unat_and_not_mask)

lemma get_upper_range_unat:
  assumes "n < 32" and "unat val + 2 ^ n \<le> 2 ^ 32"
  shows "unat (get_upper_range val (2 ^ n)) = (unat val + (2 ^ n - 1)) div 2 ^ n * 2 ^ n"
proof -
  have p: "unat (2 ^ n :: u32) = 2 ^ n"
    using assms(1) by (simp add: unat_2p)
  have "unat (val + (2 ^ n - 1)) = unat val + (2 ^ n - 1)"
  proof -
    have "unat (2 ^ n - 1 :: u32) = 2 ^ n - 1"
      using unat_sub_no_wrap [of "1 :: u32" "2 ^ n"] p by (simp add: word_le_nat_alt)
    moreover have "0 < (2::nat) ^ n" by simp
    ultimately show ?thesis
      using assms(2) by (subst unat_add_no_wrap) auto
  qed
  then have "unat (get_upper_range val (2 ^ n)) =
      (unat val + (2 ^ n - 1)) - (unat val + (2 ^ n - 1)) mod 2 ^ n"
    unfolding get_upper_range_def add_diff_eq [symmetric] by (simp only: unat_and_not_mask)
  then show ?thesis by (simp only: minus_mod_eq_div_mult)
qed

section \<open>The base-two logarithm\<close>

lemma high_bits_clear_iff:
  fixes x :: u32
  assumes "n < 32"
  shows "x AND NOT (2 ^ n - 1) = 0 \<longleftrightarrow> unat x < 2 ^ n"
proof -
  have "x AND NOT (2 ^ n - 1) = 0 \<longleftrightarrow> unat (x AND NOT (2 ^ n - 1)) = 0"
    by (simp add: unat_eq_zero)
  also have "\<dots> \<longleftrightarrow> unat x mod 2 ^ n = unat x"
    unfolding unat_and_not_mask using mod_less_eq_dividend [of "unat x" "2 ^ n"] by linarith
  also have "\<dots> \<longleftrightarrow> unat x < 2 ^ n" by (simp add: mod_eq_self_iff_div_eq_0 div_eq_0_iff)
  finally show ?thesis .
qed

text \<open>
  One step of the search: the invariant is that \<open>x\<close> is the argument shifted left by
  \<open>31 - r\<close> without losing a bit, and that it has a bit among its top ones.
\<close>

definition log2_inv :: "u32 \<Rightarrow> nat \<Rightarrow> u32 \<times> int \<Rightarrow> bool" where
  "log2_inv x0 k xr \<longleftrightarrow>
     (case xr of (x, r) \<Rightarrow> int k - 1 \<le> r \<and> r \<le> 31 \<and> unat x = unat x0 * 2 ^ nat (31 - r) \<and> 2 ^ (32 - k) \<le> unat x)"

lemma log2_step_inv:
  assumes inv': "log2_inv x0 j xr" and j: "j = 2 * k" and k: "0 < k" "2 * k \<le> 32"
  shows "log2_inv x0 k (log2_step (NOT (2 ^ (32 - k) - 1)) k xr)"
proof -
  obtain x r where xr: "xr = (x, r)" by (cases xr)
  note inv = inv' [unfolded j]
  have test: "x AND NOT (2 ^ (32 - k) - 1) = 0 \<longleftrightarrow> unat x < 2 ^ (32 - k)"
    using k by (intro high_bits_clear_iff) simp
  show ?thesis
  proof (cases "unat x < 2 ^ (32 - k)")
    case False
    with inv k show ?thesis by (simp add: xr test log2_step_def log2_inv_def)
  next
    case True
    have pw: "2 ^ (32 - k) * 2 ^ k = (2::nat) ^ 32"
      using k by (simp add: power_add [symmetric])
    have "unat x * 2 ^ k < 2 ^ (32 - k) * 2 ^ k" using True by simp
    then have ps: "unat (push_bit k x) = unat x * 2 ^ k"
      unfolding pw by (intro unat_push_bit_small) simp
    have "nat (31 - (r - int k)) = nat (31 - r) + k"
    proof -
      have "r \<le> 31" using inv by (simp add: log2_inv_def xr)
      then show ?thesis by arith
    qed
    moreover have "2 ^ (32 - 2 * k) * 2 ^ k = (2::nat) ^ (32 - k)"
    proof -
      have "32 - 2 * k + k = 32 - k" using k by simp
      then show ?thesis by (metis power_add)
    qed
    then have "2 ^ (32 - k) \<le> unat x * 2 ^ k"
      using inv by (metis (no_types, lifting) case_prod_conv log2_inv_def mult_le_mono1 xr)
    ultimately show ?thesis
      using True inv k by (simp add: xr test log2_step_def log2_inv_def ps power_add)
  qed
qed

lemma log2_masks:
  "0x80000000 = (NOT (2 ^ (32 - 1) - 1) :: u32)" "0xc0000000 = (NOT (2 ^ (32 - 2) - 1) :: u32)"
  "0xf0000000 = (NOT (2 ^ (32 - 4) - 1) :: u32)" "0xff000000 = (NOT (2 ^ (32 - 8) - 1) :: u32)"
  "0xffff0000 = (NOT (2 ^ (32 - 16) - 1) :: u32)"
  by simp_all

lemma log2_inv_result: "x \<noteq> 0 \<Longrightarrow> \<exists>y. log2_inv x 1 (y, log2 x)"
proof -
  assume "x \<noteq> 0"
  then have i: "log2_inv x (2 * 16) (x, 31)"
    by (simp add: log2_inv_def unat_gt_0 Suc_leI)
  define xr where "xr = log2_step 0x80000000 1 (log2_step 0xc0000000 2
           (log2_step 0xf0000000 4 (log2_step 0xff000000 8 (log2_step 0xffff0000 16 (x, 31)))))"
  have "log2_inv x 1 xr"
    unfolding xr_def log2_masks
    by (rule log2_step_inv [where j = 2], rule log2_step_inv [where j = 4], rule log2_step_inv [where j = 8],
        rule log2_step_inv [where j = 16], rule log2_step_inv [OF i]) simp_all
  moreover have "log2 x = snd xr" using \<open>x \<noteq> 0\<close> by (simp add: log2_def xr_def)
  ultimately show ?thesis by (metis prod.collapse)
qed

lemma log2_bounds:
  assumes "x \<noteq> 0"
  shows "0 \<le> log2 x" "log2 x \<le> 31" "2 ^ nat (log2 x) \<le> unat x" "unat x < 2 * 2 ^ nat (log2 x)"
proof -
  obtain y where "log2_inv x 1 (y, log2 x)"
    using log2_inv_result [OF assms] by blast
  then have i: "0 \<le> log2 x" "log2 x \<le> 31" "unat y = unat x * 2 ^ nat (31 - log2 x)" "2 ^ 31 \<le> unat y"
    unfolding log2_inv_def by simp_all
  then show "0 \<le> log2 x" "log2 x \<le> 31" by simp_all
  define m where "m = nat (log2 x)"
  have s: "nat (31 - log2 x) + m = 31" using i by (simp add: m_def)
  have p: "2 ^ 31 = 2 ^ nat (31 - log2 x) * (2::nat) ^ m"
    by (simp only: s [symmetric] power_add)
  have "2 ^ nat (31 - log2 x) * 2 ^ m \<le> 2 ^ nat (31 - log2 x) * unat x"
    using i(3,4) unfolding p by (simp add: mult.commute)
  then show "2 ^ nat (log2 x) \<le> unat x" by (simp add: m_def)
  have "unat y < 2 ^ 32" using unsigned_less [of y] by simp
  moreover have "(2::nat) ^ 32 = 2 ^ nat (31 - log2 x) * (2 * 2 ^ m)" using p by (simp add: mult.commute)
  ultimately have "2 ^ nat (31 - log2 x) * unat x < 2 ^ nat (31 - log2 x) * (2 * 2 ^ m)"
    using i(3) by (simp only: mult.commute)
  then show "unat x < 2 * 2 ^ nat (log2 x)" by (simp only: mult_less_cancel1 m_def)
qed

lemma log2_unique:
  assumes "2 ^ k \<le> unat x" and "unat x < 2 * 2 ^ k"
  shows "log2 x = int k"
proof -
  have x: "x \<noteq> 0"
  proof
    assume "x = 0"
    then have "(2::nat) ^ k \<le> 0" using assms(1) by simp
    then show False by simp
  qed
  define m where "m = nat (log2 x)"
  have m: "2 ^ m \<le> unat x" "unat x < 2 * 2 ^ m"
    using log2_bounds [OF x] by (simp_all add: m_def)
  have "(2::nat) ^ m < 2 ^ Suc k" "(2::nat) ^ k < 2 ^ Suc m"
    using m assms by simp_all
  then have "m < Suc k" "k < Suc m" by (simp_all only: power_strict_increasing_iff)
  then show ?thesis using log2_bounds(1) [OF x] by (simp add: m_def)
qed

section \<open>Page ranks\<close>

lemma get_pagerank_cases:
  "unat (get_pagerank sz) =
     (if unat sz \<le> 2 ^ 12 then 0
      else if 2 ^ nat (log2 sz) < unat sz then nat (log2 sz) - 11 else nat (log2 sz) - 12)"
proof (cases "sz = 0")
  case True
  then show ?thesis by (simp add: get_pagerank_def log2_def PAGESIZE_SHIFT_def)
next
  case False
  define m where "m = nat (log2 sz)"
  have l: "log2 sz = int m" "m \<le> 31" and b: "2 ^ m \<le> unat sz" "unat sz < 2 * 2 ^ m"
    using log2_bounds [OF False] by (simp_all add: m_def)
  have p: "unat (push_bit m 1 :: u32) = 2 ^ m"
    using l(2) by (simp add: push_bit_eq_mult unat_2p)
  show ?thesis
  proof (cases "m < 12")
    case True
    then have "(2::nat) ^ m \<le> 2 ^ 11" by (intro power_increasing) auto
    then have "unat sz \<le> 2 ^ 12" using b(2) by simp
    with True show ?thesis by (simp add: get_pagerank_def l PAGESIZE_SHIFT_def)
  next
    case False
    then have "(2::nat) ^ 12 \<le> 2 ^ m" by (intro power_increasing) auto
    have le: "unat sz \<le> 2 ^ 12 \<longleftrightarrow> m = 12 \<and> unat sz = 2 ^ 12"
    proof
      assume u: "unat sz \<le> 2 ^ 12"
      then have "(2::nat) ^ m \<le> 2 ^ 12" using b(1) by (rule order_trans [rotated])
      then have "m \<le> 12" by (rule power_le_imp_le_exp [rotated]) simp
      then have "m = 12" using False by simp
      with u b(1) show "m = 12 \<and> unat sz = 2 ^ 12" by simp
    qed simp
    have "int m - 12 + 1 = int (m - 11)" "int m - 12 = int (m - 12)" using False by simp_all
    then have w: "unat (of_int (int m - 12 + 1) :: u32) = m - 11" "unat (of_int (int m - 12) :: u32) = m - 12"
      using l(2) by (simp_all only: of_int_of_nat_eq) (simp_all add: unat_of_nat_small del: of_nat_diff)
    have "unat (get_pagerank sz) = (if 2 ^ m < unat sz then m - 11 else m - 12)"
      unfolding get_pagerank_def PAGESIZE_SHIFT_def l(1) Let_def
      using False w p by (simp add: word_less_nat_alt del: push_bit_of_1)
    then show ?thesis using False le by (auto simp: l(1))
  qed
qed

text \<open>The rank is enough for the size, and no smaller rank is.\<close>

lemma get_pagerank_enough: "unat sz \<le> 2 ^ (unat (get_pagerank sz) + 12)"
proof (cases "unat sz \<le> 2 ^ 12")
  case True
  then show ?thesis by (simp add: get_pagerank_cases)
next
  case False
  then have nz: "sz \<noteq> 0" by auto
  define m where "m = nat (log2 sz)"
  have b: "2 ^ m \<le> unat sz" "unat sz < 2 * 2 ^ m"
    using log2_bounds [OF nz] by (simp_all add: m_def)
  have "12 \<le> m"
  proof (rule ccontr)
    assume "\<not> 12 \<le> m"
    then have "(2::nat) ^ Suc m \<le> 2 ^ 12" by (intro power_increasing) auto
    then show False using b False by simp
  qed
  then show ?thesis
    using False b by (auto simp: get_pagerank_cases simp flip: m_def)
qed

lemma get_pagerank_least:
  assumes "0 < unat (get_pagerank sz)"
  shows "2 ^ (unat (get_pagerank sz) + 11) < unat sz"
proof -
  have big: "2 ^ 12 < unat sz" using assms by (auto simp: get_pagerank_cases split: if_splits)
  then have nz: "sz \<noteq> 0" by auto
  define m where "m = nat (log2 sz)"
  have b: "2 ^ m \<le> unat sz" "unat sz < 2 * 2 ^ m"
    using log2_bounds [OF nz] by (simp_all add: m_def)
  show ?thesis
  proof (cases "2 ^ m < unat sz")
    case True
    have "11 \<le> m"
    proof (rule ccontr)
      assume "\<not> 11 \<le> m"
      then have "(2::nat) ^ Suc m \<le> 2 ^ 11" by (intro power_increasing) auto
      then show False using b big by simp
    qed
    then show ?thesis using True big by (simp add: get_pagerank_cases flip: m_def)
  next
    case False
    then have e: "unat sz = 2 ^ m" using b by simp
    then have "(2::nat) ^ 12 < 2 ^ m" using big by simp
    then have m: "12 < m" by (simp only: power_strict_increasing_iff)
    then have "(2::nat) ^ (m - 1) < 2 ^ m" by (intro power_strict_increasing) auto
    then show ?thesis using e big m by (simp add: get_pagerank_cases flip: m_def)
  qed
qed

section \<open>Byte order\<close>

text \<open>The masks of the swaps as shifted runs of ones, so that their bits can be read.\<close>

lemma swap_masks:
  "(0xFF00 :: u16) = push_bit 8 (mask 8)" "(0x00FF :: u16) = mask 8"
  "(0xFF000000 :: u32) = push_bit 24 (mask 8)" "(0x00FF0000 :: u32) = push_bit 16 (mask 8)"
  "(0x0000FF00 :: u32) = push_bit 8 (mask 8)" "(0x000000FF :: u32) = mask 8"
  by (simp_all add: mask_eq_exp_minus_1)

lemma SWAP_2B_bit: "n < 16 \<Longrightarrow> bit (SWAP_2B w) n = (if n < 8 then bit w (n + 8) else bit w (n - 8))"
  unfolding SWAP_2B_def swap_masks by (auto simp: bit_simps add.commute)

lemma SWAP_2B_involution: "SWAP_2B (SWAP_2B w) = w"
  by (rule bit_word_eqI) (auto simp: SWAP_2B_bit)

lemma SWAP_4B_bit:
  "n < 32 \<Longrightarrow> bit (SWAP_4B w) n =
     (if n < 8 then bit w (n + 24) else if n < 16 then bit w (n + 8)
      else if n < 24 then bit w (n - 8) else bit w (n - 24))"
  unfolding SWAP_4B_def swap_masks by (auto simp: bit_simps add.commute)

lemma SWAP_4B_involution: "SWAP_4B (SWAP_4B w) = w"
  by (rule bit_word_eqI) (auto simp: SWAP_4B_bit)

section \<open>Properties\<close>

text \<open>\<^verbatim>\<open>get_pagerank\<close> gives the least block rank whose \<open>2 ^ rank\<close> pages hold \<open>size\<close> bytes.\<close>

lemma get_pagerank_exact:
  "unat sz \<le> 2 ^ (unat (get_pagerank sz) + 12) \<and>
   (\<forall>k. unat sz \<le> 2 ^ (k + 12) \<longrightarrow> unat (get_pagerank sz) \<le> k)"
proof (intro conjI allI impI get_pagerank_enough)
  fix k assume k: "unat sz \<le> 2 ^ (k + 12)"
  show "unat (get_pagerank sz) \<le> k"
  proof (rule ccontr)
    assume "\<not> unat (get_pagerank sz) \<le> k"
    then have "k + 12 \<le> unat (get_pagerank sz) + 11" "0 < unat (get_pagerank sz)" by auto
    then have "(2::nat) ^ (k + 12) \<le> 2 ^ (unat (get_pagerank sz) + 11)"
      "2 ^ (unat (get_pagerank sz) + 11) < unat sz"
      by (intro power_increasing, simp_all add: get_pagerank_least)
    then show False using k by linarith
  qed
qed

end
