(* ===== verification/Crc32.thy ===== *)
theory Crc32
  imports Prelude
begin

text \<open>
  The CRC of \<^verbatim>\<open>lib/crc32/crc32.c\<close>: the bit-serial division loop, the checksum that the
  sender appends, and what the receiver may conclude from a zero remainder. A buffer is
  the list of the bytes at the pointer; reading past it is \<open>Fault\<close>.
\<close>

section \<open>The code\<close>

definition POLY :: u32 where "POLY = 0x04C11DB7"

text \<open>
  The loop counts bits in \<open>bitoff\<close>, an \<^verbatim>\<open>unsigned\<close> that wraps when the length is
  \<open>2 ^ 29\<close> or more; the loop then never ends, so it has fuel.
\<close>

fun crc32_loop :: "nat \<Rightarrow> u8 list \<Rightarrow> u32 \<Rightarrow> u32 \<Rightarrow> u8 \<Rightarrow> u8 \<Rightarrow> u32 \<Rightarrow> u32 res" where
  "crc32_loop 0 buf len bitoff bitflag curbyte reg = Inl Stuck"
| "crc32_loop (Suc fuel) buf len bitoff bitflag curbyte reg =
     (if drop_bit 3 bitoff < len then
        bindE (if bitoff AND 0x7 = 0 then
                 (if unat (drop_bit 3 bitoff) < length buf
                  then Inr (buf ! unat (drop_bit 3 bitoff), 0x80) else Inl Fault)
               else Inr (curbyte, drop_bit 1 bitflag)) (\<lambda>(curbyte, bitflag).
        let carry = drop_bit 31 reg;
            reg = push_bit 1 reg;
            reg = reg OR (if curbyte AND bitflag \<noteq> 0 then 1 else 0);
            reg = (if carry \<noteq> 0 then reg XOR POLY else reg)
        in crc32_loop fuel buf len (bitoff + 1) bitflag curbyte reg)
      else Inr reg)"

definition crc32_raw :: "u8 list \<Rightarrow> u32 \<Rightarrow> u32 res" where
  "crc32_raw buf len = crc32_loop (Suc (8 * unat len)) buf len 0 0x80 0 0"

definition be_bytes :: "u32 \<Rightarrow> u8 list" where
  "be_bytes r = [ucast (drop_bit 24 r), ucast (drop_bit 16 r), ucast (drop_bit 8 r), ucast r]"

definition crc32 :: "u8 list \<Rightarrow> u32 \<Rightarrow> u32 res" where
  "crc32 buf len = bindE (crc32_raw buf len) (\<lambda>r. crc32_raw (be_bytes r @ [0, 0, 0, 0]) 8)"

section \<open>Division of bit strings\<close>

text \<open>The specification: the remainder of the message as a polynomial over two elements.\<close>

definition crc_step :: "u32 \<Rightarrow> bool \<Rightarrow> u32" where
  "crc_step reg b = (push_bit 1 reg OR of_bool b) XOR (if bit reg 31 then POLY else 0)"

definition byte_bits :: "u8 \<Rightarrow> bool list" where
  "byte_bits b = map (bit b) [7, 6, 5, 4, 3, 2, 1, 0]"

definition msg_bits :: "u8 list \<Rightarrow> bool list" where
  "msg_bits bs = concat (map byte_bits bs)"

abbreviation crc_fold :: "u32 \<Rightarrow> bool list \<Rightarrow> u32" where
  "crc_fold \<equiv> foldl crc_step"

lemma length_byte_bits [simp]: "length (byte_bits b) = 8"
  by (simp add: byte_bits_def)

lemma length_msg_bits [simp]: "length (msg_bits bs) = 8 * length bs"
  by (induction bs) (auto simp: msg_bits_def)

lemma msg_bits_append [simp]: "msg_bits (as @ bs) = msg_bits as @ msg_bits bs"
  by (simp add: msg_bits_def)

lemma msg_bits_nth:
  "i < 8 * length bs \<Longrightarrow> msg_bits bs ! i = bit (bs ! (i div 8)) (7 - i mod 8)"
proof (induction bs arbitrary: i)
  case (Cons b bs)
  show ?case
  proof (cases "i < 8")
    case True
    then have "i \<in> {0, 1, 2, 3, 4, 5, 6, 7}" by auto
    then show ?thesis by (auto simp: msg_bits_def byte_bits_def nth_append)
  next
    case False
    have "i div 8 = Suc ((i - 8) div 8)" "i mod 8 = (i - 8) mod 8"
      using False by (simp_all add: le_div_geq le_mod_geq)
    then show ?thesis using Cons.IH [of "i - 8"] Cons.prems False by (simp add: msg_bits_def nth_append)
  qed
qed (simp add: msg_bits_def)

subsection \<open>The loop computes the division\<close>

lemma bitflag_bit:
  fixes b :: u8
  assumes "i < 8"
  shows "b AND drop_bit i 0x80 \<noteq> 0 \<longleftrightarrow> bit b (7 - i)"
proof -
  have "i \<in> {0, 1, 2, 3, 4, 5, 6, 7}" using assms by auto
  then have "drop_bit i (0x80 :: u8) = 2 ^ (7 - i)" by auto
  then show ?thesis by (simp add: and_exp_eq_0_iff_not_bit)
qed

lemma crc_step_code:
  "crc_step reg b =
     (let r = push_bit 1 reg OR (if b then 1 else 0) in if drop_bit 31 reg \<noteq> 0 then r XOR POLY else r)"
proof -
  have b: "bit (drop_bit 31 reg) n \<longleftrightarrow> n = 0 \<and> bit reg 31" for n
    using bit_imp_le_length [of reg "31 + n"] by (cases n) (auto simp: bit_simps)
  have "drop_bit 31 reg \<noteq> 0 \<longleftrightarrow> bit reg 31"
  proof
    assume "bit reg 31"
    then have "bit (drop_bit 31 reg) 0" using b [of 0] by simp
    then show "drop_bit 31 reg \<noteq> 0" by (metis bit_0_eq bot_apply bot_bool_def)
  next
    assume "drop_bit 31 reg \<noteq> 0"
    then obtain n where "bit (drop_bit 31 reg) n" by (metis bit_0_eq bit_word_eqI bot_apply bot_bool_def)
    then show "bit reg 31" using b by simp
  qed
  then show ?thesis by (simp add: crc_step_def Let_def)
qed

lemma drop_bit_pred: "0 < j \<Longrightarrow> drop_bit 1 (drop_bit (j - 1) w) = drop_bit j (w :: u8)"
  by (simp only: drop_bit_drop_bit) simp

lemma crc32_loop_fold:
  assumes n: "unat len = n" "n < 2 ^ 29" "n \<le> length buf"
    and "k \<le> 8 * n" and "8 * n - k < fuel"
    and "k mod 8 \<noteq> 0 \<Longrightarrow> curbyte = buf ! (k div 8) \<and> bitflag = drop_bit (k mod 8 - 1) 0x80"
  shows "crc32_loop fuel buf len (of_nat k) bitflag curbyte reg =
    Inr (crc_fold reg (drop k (msg_bits (take n buf))))"
  using assms(4-6)
proof (induction fuel arbitrary: k bitflag curbyte reg)
  case (Suc fuel)
  have k32: "unat (of_nat k :: u32) = k"
    using Suc.prems(1) n(2) by (intro unat_of_nat_small) simp
  have d: "unat (drop_bit 3 (of_nat k :: u32)) = k div 8" by (simp only: unat_drop_bit k32) simp
  have m: "(of_nat k :: u32) AND 7 = 0 \<longleftrightarrow> k mod 8 = 0"
  proof -
    have "(7 :: u32) = mask 3" by (simp add: mask_eq_exp_minus_1)
    then have "(of_nat k :: u32) AND 7 = take_bit 3 (of_nat k)" by (simp only: take_bit_eq_mask)
    then show ?thesis by (simp only: unat_eq_zero [symmetric] unat_take_bit k32) simp
  qed
  have guard: "drop_bit 3 (of_nat k :: u32) < len \<longleftrightarrow> k < 8 * n"
    by (simp only: word_less_nat_alt d n(1)) auto
  show ?case
  proof (cases "k < 8 * n")
    case False
    with Suc.prems(1) have "k = 8 * n" by simp
    moreover have "length (msg_bits (take n buf)) = 8 * n" using n(3) by simp
    ultimately have "drop k (msg_bits (take n buf)) = []" by simp
    with False show ?thesis by (simp only: crc32_loop.simps guard if_False foldl_Nil)
  next
    case True
    define flag where "flag = (if k mod 8 = 0 then 0x80 else drop_bit 1 bitflag)"
    define cur where "cur = (if k mod 8 = 0 then buf ! (k div 8) else curbyte)"
    have flag: "flag = drop_bit (k mod 8) 0x80" and cur: "cur = buf ! (k div 8)"
      using Suc.prems(3) drop_bit_pred [of "k mod 8" "0x80 :: u8"]
      by (auto simp: flag_def cur_def simp del: drop_bit_drop_bit drop_bit_Suc One_nat_def)
    have inbuf: "k div 8 < length buf" using True n(3) by linarith
    have kb: "bit cur (7 - k mod 8) = msg_bits (take n buf) ! k"
      using True n(3) by (subst msg_bits_nth) (auto simp: cur)
    have step: "crc32_loop (Suc fuel) buf len (of_nat k) bitflag curbyte reg =
      crc32_loop fuel buf len (of_nat (Suc k)) flag cur (crc_step reg (cur AND flag \<noteq> 0))"
    proof -
      have "crc32_loop (Suc fuel) buf len (of_nat k) bitflag curbyte reg =
          (let carry = drop_bit 31 reg; r = push_bit 1 reg; r = r OR (if cur AND flag \<noteq> 0 then 1 else 0);
             r = (if carry \<noteq> 0 then r XOR POLY else r)
           in crc32_loop fuel buf len (of_nat k + 1) flag cur r)"
        using True inbuf
        by (cases "k mod 8 = 0") (simp_all only: crc32_loop.simps guard m d flag_def cur_def if_True if_False
            bindE_Inr prod.case simp_thms)
      then show ?thesis by (simp only: crc_step_code Let_def of_nat_Suc add.commute)
    qed
    have next_inv: "cur = buf ! (Suc k div 8) \<and> flag = drop_bit (Suc k mod 8 - 1) 0x80" if "Suc k mod 8 \<noteq> 0"
      using that by (auto simp: cur flag mod_Suc div_Suc split: if_splits)
    have "crc32_loop (Suc fuel) buf len (of_nat k) bitflag curbyte reg =
      Inr (crc_fold (crc_step reg (cur AND flag \<noteq> 0)) (drop (Suc k) (msg_bits (take n buf))))"
      unfolding step using True Suc.prems(2) next_inv by (intro Suc.IH) auto
    also have "cur AND flag \<noteq> 0 \<longleftrightarrow> msg_bits (take n buf) ! k"
      unfolding kb [symmetric] flag by (rule bitflag_bit) simp
    also have "crc_fold (crc_step reg (msg_bits (take n buf) ! k)) (drop (Suc k) (msg_bits (take n buf))) =
        crc_fold reg (drop k (msg_bits (take n buf)))"
      using True n(3) by (simp add: Cons_nth_drop_Suc [symmetric])
    finally show ?thesis .
  qed
qed simp

lemma crc32_raw_fold:
  assumes "unat len < 2 ^ 29" and "unat len \<le> length buf"
  shows "crc32_raw buf len = Inr (crc_fold 0 (msg_bits (take (unat len) buf)))"
  using crc32_loop_fold [where len = len and k = 0 and fuel = "Suc (8 * unat len)" and buf = buf, OF refl] assms
  by (simp add: crc32_raw_def)

subsection \<open>Linearity\<close>

lemma crc_step_xor: "crc_step (r XOR r') (b \<noteq> b') = crc_step r b XOR crc_step r' b'"
  by (rule bit_word_eqI) (auto simp: crc_step_def bit_simps simp del: push_bit_Suc)

lemma crc_fold_xor:
  "length bs = length bs' \<Longrightarrow>
     crc_fold (r XOR r') (map (\<lambda>(b, b'). b \<noteq> b') (zip bs bs')) = crc_fold r bs XOR crc_fold r' bs'"
proof (induction bs bs' arbitrary: r r' rule: list_induct2)
  case (Cons b bs b' bs')
  show ?case using Cons.IH [of "crc_step r b" "crc_step r' b'"]
    by (simp only: zip_Cons_Cons list.map prod.case foldl_Cons crc_step_xor)
qed simp

lemma crc_fold_split: "crc_fold r bs = crc_fold r (replicate (length bs) False) XOR crc_fold 0 bs"
proof -
  have "map (\<lambda>(b, b'). b \<noteq> b') (zip (replicate (length bs) False) bs) = bs"
    by (induction bs) auto
  then show ?thesis using crc_fold_xor [of "replicate (length bs) False" bs r 0] by simp
qed

text \<open>A register without a top bit only takes the next bit in: short strings are their own remainder.\<close>

definition bits_word :: "bool list \<Rightarrow> u32" where
  "bits_word bs = foldl (\<lambda>w b. push_bit 1 w OR of_bool b) 0 bs"

lemma bits_word_snoc: "bits_word (bs @ [b]) = push_bit 1 (bits_word bs) OR of_bool b"
  by (simp add: bits_word_def)

lemma bits_word_bit:
  "bit (bits_word bs) n \<longleftrightarrow> n < 32 \<and> n < length bs \<and> bs ! (length bs - 1 - n)"
proof (induction bs arbitrary: n rule: rev_induct)
  case Nil then show ?case by (simp add: bits_word_def)
next
  case (snoc b bs)
  show ?case
  proof (cases n)
    case 0 then show ?thesis by (auto simp: bits_word_snoc bit_simps simp del: push_bit_Suc)
  next
    case (Suc m)
    then show ?thesis
      using snoc.IH [of m] by (auto simp: bits_word_snoc bit_simps nth_append simp del: push_bit_Suc)
  qed
qed

lemma crc_fold_short: "length bs \<le> 32 \<Longrightarrow> crc_fold 0 bs = bits_word bs"
proof (induction bs rule: rev_induct)
  case (snoc b bs)
  then have "\<not> bit (bits_word bs) 31" by (simp add: bits_word_bit)
  with snoc show ?case by (simp add: bits_word_snoc crc_step_def)
qed (simp add: bits_word_def)

lemma length_be_bytes [simp]: "length (be_bytes r) = 4"
  by (simp add: be_bytes_def)

lemma bits_word_be_bytes: "bits_word (msg_bits (be_bytes r)) = r"
proof (rule bit_word_eqI)
  fix n assume n: "n < LENGTH(32)"
  have len: "length (msg_bits (be_bytes r)) = 32" by (simp add: be_bytes_def)
  have "list_all (\<lambda>n. (31 - n) div 8 = 3 - n div 8 \<and> 7 - (31 - n) mod 8 = n mod 8) [0..<32]"
    by code_simp
  then have q: "(31 - n) div 8 = 3 - n div 8" "7 - (31 - n) mod 8 = n mod 8"
    using n by (simp_all add: list_all_iff)
  have "bit (bits_word (msg_bits (be_bytes r))) n = bit (be_bytes r ! (3 - n div 8)) (n mod 8)"
    using n by (simp add: bits_word_bit len msg_bits_nth be_bytes_def q)
  also have "\<dots> = bit r n"
  proof -
    have "n div 8 \<in> {0, 1, 2, 3}" using n by auto
    then show ?thesis
    proof (elim insertE emptyE)
      assume e: "n div 8 = 0"
      then have "n < 8" by simp
      with e show ?thesis by (simp add: be_bytes_def bit_simps)
    next
      assume e: "n div 8 = 1"
      then have "8 + n mod 8 = n" using mod_mult_div_eq [of n 8] by simp
      with e show ?thesis by (simp add: be_bytes_def bit_simps)
    next
      assume e: "n div 8 = 2"
      then have "16 + n mod 8 = n" using mod_mult_div_eq [of n 8] by simp
      with e show ?thesis by (simp add: be_bytes_def bit_simps)
    next
      assume e: "n div 8 = 3"
      then have "24 + n mod 8 = n" using mod_mult_div_eq [of n 8] by simp
      with e show ?thesis by (simp add: be_bytes_def bit_simps)
    qed
  qed
  finally show "bit (bits_word (msg_bits (be_bytes r))) n = bit r n" .
qed

section \<open>What sender and receiver rely on\<close>

lemma crc_fold_zeros_0: "crc_fold 0 (replicate n False) = 0"
  by (induction n) (auto simp: crc_step_def)

lemma crc32_fold:
  assumes "unat len < 2 ^ 29" and "unat len \<le> length buf"
  shows "crc32 buf len =
    Inr (crc_fold (crc_fold 0 (msg_bits (take (unat len) buf))) (replicate 32 False))"
proof -
  define r where "r = crc_fold 0 (msg_bits (take (unat len) buf))"
  have "length (be_bytes r @ [0, 0, 0, 0 :: u8]) = 8" by (simp add: be_bytes_def)
  then have "crc32_raw (be_bytes r @ [0, 0, 0, 0]) 8 =
      Inr (crc_fold 0 (msg_bits (be_bytes r) @ msg_bits [0, 0, 0, 0]))"
    using crc32_raw_fold [of 8 "be_bytes r @ [0, 0, 0, 0]"] by (simp del: msg_bits_append flip: msg_bits_append)
  also have "crc_fold 0 (msg_bits (be_bytes r) @ msg_bits [0, 0, 0, 0]) =
      crc_fold (crc_fold 0 (msg_bits (be_bytes r))) (msg_bits [0, 0, 0, 0])"
    by simp
  also have "crc_fold 0 (msg_bits (be_bytes r)) = r"
    by (simp add: crc_fold_short bits_word_be_bytes)
  also have "msg_bits [0, 0, 0, 0 :: u8] = replicate 32 False"
    by (simp add: msg_bits_def byte_bits_def numeral_eq_Suc)
  finally show ?thesis
    using crc32_raw_fold [OF assms] by (simp add: crc32_def r_def)
qed

lemma crc_fold_append_crc:
  "crc_fold 0 (bs @ msg_bits (be_bytes (crc_fold (crc_fold 0 bs) (replicate 32 False)))) = 0"
proof -
  define r where "r = crc_fold 0 bs"
  define c where "c = crc_fold r (replicate 32 False)"
  have "crc_fold r (msg_bits (be_bytes c)) = c XOR crc_fold 0 (msg_bits (be_bytes c))"
    using crc_fold_split [of r "msg_bits (be_bytes c)"] by (simp add: c_def)
  also have "crc_fold 0 (msg_bits (be_bytes c)) = c"
    by (simp add: crc_fold_short bits_word_be_bytes)
  finally show ?thesis by (simp add: c_def r_def)
qed

text \<open>A register that is not zero is not cleared by zero bits: the generator's last bit is set.\<close>

lemma crc_step_zero_bit: "crc_step r False = 0 \<Longrightarrow> r = 0"
proof -
  assume z: "crc_step r False = 0"
  then have b: "\<not> bit (crc_step r False) n" for n by simp
  have "bit (crc_step r False) 0 \<longleftrightarrow> bit r 31 \<and> bit POLY 0"
    by (simp add: crc_step_def bit_xor_iff bit_or_iff bit_push_bit_iff del: push_bit_Suc)
  moreover have "bit POLY 0" by (simp add: POLY_def)
  ultimately have r31: "\<not> bit r 31" using b by blast
  then have "crc_step r False = push_bit 1 r" by (simp add: crc_step_def)
  then have up: "bit (crc_step r False) (Suc n) \<longleftrightarrow> Suc n < 32 \<and> bit r n" for n
    by (simp add: bit_push_bit_iff del: push_bit_Suc)
  show "r = 0"
  proof (rule bit_word_eqI)
    fix n assume "n < LENGTH(32)"
    then show "bit r n \<longleftrightarrow> bit 0 n" using up [of n] b [of "Suc n"] r31 by (cases "n = 31") auto
  qed
qed

lemma crc_fold_zeros_nonzero: "r \<noteq> 0 \<Longrightarrow> crc_fold r (replicate n False) \<noteq> 0"
  by (induction n arbitrary: r) (auto dest: crc_step_zero_bit)

lemma bits_word_nonzero: "True \<in> set bs \<Longrightarrow> length bs \<le> 32 \<Longrightarrow> bits_word bs \<noteq> 0"
proof -
  assume "True \<in> set bs" and len: "length bs \<le> 32"
  then obtain i where i: "i < length bs" "bs ! i" by (auto simp: in_set_conv_nth)
  then have "length bs - 1 - (length bs - 1 - i) = i" by simp
  then have "bit (bits_word bs) (length bs - 1 - i)"
    unfolding bits_word_bit using len i by auto
  then show "bits_word bs \<noteq> 0" by (metis bit_0_eq bot_apply bot_bool_def)
qed

text \<open>An error burst of at most 32 bits leaves a remainder.\<close>

lemma crc_fold_burst:
  assumes "True \<in> set b" and "length b \<le> 32"
  shows "crc_fold 0 (replicate m False @ b @ replicate n False) \<noteq> 0"
  using assms by (simp add: crc_fold_zeros_0 crc_fold_short crc_fold_zeros_nonzero bits_word_nonzero)

section \<open>Properties\<close>

text \<open>
  C40: a message followed by its CRC has remainder 0, so the receiver's check
  \<^verbatim>\<open>crc32_raw(...) == 0\<close> accepts what a sender that appends \<^verbatim>\<open>crc32\<close> transmits.
\<close>

theorem crc32_self_check:
  assumes "crc32 buf (of_nat (length buf)) = Inr c" and "length buf + 4 < 2 ^ 29"
  shows "crc32_raw (buf @ be_bytes c) (of_nat (length buf + 4)) = Inr 0"
proof -
  have u: "unat (of_nat (length buf) :: u32) = length buf" "unat (of_nat (length buf + 4) :: u32) = length buf + 4"
    by (rule unat_of_nat_small; use assms(2) in simp)+
  have "c = crc_fold (crc_fold 0 (msg_bits buf)) (replicate 32 False)"
    using assms crc32_fold [of "of_nat (length buf)" buf] u(1) by simp
  then show ?thesis
    using crc32_raw_fold [of "of_nat (length buf + 4)" "buf @ be_bytes c"] u(2) assms(2)
      crc_fold_append_crc [of "msg_bits buf"]
    by simp
qed

theorem crc32_self_check_witness:
  "\<exists>c. crc32 [0x31, 0x32] 2 = Inr c \<and> crc32_raw ([0x31, 0x32] @ be_bytes c) 6 = Inr 0"
proof -
  obtain c where "crc32 [0x31, 0x32] (of_nat (length [0x31, 0x32 :: u8])) = Inr c"
    using crc32_fold [of 2 "[0x31, 0x32]"] by auto
  then show ?thesis using crc32_self_check [of "[0x31, 0x32]" c] by simp
qed

text \<open>
  C30: two messages of the same length that differ in a burst of at most 32 consecutive bits
  never have the same remainder.
\<close>

theorem crc32_detects_burst:
  assumes "length p = length q" "length p < 2 ^ 29"
    and "map (\<lambda>(x, y). x \<noteq> y) (zip (msg_bits p) (msg_bits q)) = replicate m False @ b @ replicate n False"
    and "True \<in> set b" "length b \<le> 32"
  shows "crc32_raw p (of_nat (length p)) \<noteq> crc32_raw q (of_nat (length q))"
proof -
  have u: "unat (of_nat (length p) :: u32) = length p"
    by (rule unat_of_nat_small) (use assms(2) in simp)
  have "crc_fold 0 (msg_bits p) XOR crc_fold 0 (msg_bits q) \<noteq> 0"
    using crc_fold_xor [of "msg_bits p" "msg_bits q" 0 0] crc_fold_burst [OF assms(4,5), of m n] assms(1,3)
    by simp
  then have "crc_fold 0 (msg_bits p) \<noteq> crc_fold 0 (msg_bits q)" by auto
  then show ?thesis
    using crc32_raw_fold [of "of_nat (length p)" p] crc32_raw_fold [of "of_nat (length p)" q] u assms(1,2)
    by simp
qed

theorem crc32_detects_burst_witness:
  "crc32_raw [0x12, 0x34] (of_nat (length [0x12, 0x34 :: u8])) \<noteq>
   crc32_raw [0x12, 0x35] (of_nat (length [0x12, 0x35 :: u8]))"
proof (rule crc32_detects_burst [where m = 15 and b = "[True]" and n = 0])
  show "map (\<lambda>(x, y). x \<noteq> y) (zip (msg_bits [0x12, 0x34]) (msg_bits [0x12, 0x35])) =
      replicate 15 False @ [True] @ replicate 0 False"
    by code_simp
qed simp_all

end
