(* ===== verification/Sort.thy ===== *)
theory Sort
  imports Prelude "HOL-Library.Multiset"
begin

text \<open>
  The searching and sorting routines of \<^verbatim>\<open>core/func.c\<close>: the heap sort \<^verbatim>\<open>sort\<close>, the
  binary searches \<^verbatim>\<open>bsearch\<close> and \<^verbatim>\<open>alg_bsch\<close>. An array is the list of its elements; the
  code's offsets are pre-scaled by the element size, here they are element indices.
\<close>

section \<open>The code\<close>

definition swap :: "nat \<Rightarrow> nat \<Rightarrow> 'a list \<Rightarrow> 'a list" where
  "swap i j a = a[i := a ! j, j := a ! i]"

text \<open>The inner loop: sink the element at \<open>r\<close> in the heap of the first \<open>n\<close> elements.\<close>

function sift :: "('a \<Rightarrow> 'a \<Rightarrow> int) \<Rightarrow> nat \<Rightarrow> nat \<Rightarrow> 'a list \<Rightarrow> 'a list" where
  "sift cmp n r a =
     (if r * 2 + 1 < n then
        let c = r * 2 + 1;
            c = (if c < n - 1 \<and> cmp (a ! c) (a ! (c + 1)) < 0 then c + 1 else c)
        in if cmp (a ! r) (a ! c) \<ge> 0 then a
           else sift cmp n c (swap r c a)
      else a)"
  by pat_completeness auto
termination
  by (relation "measure (\<lambda>(cmp, n, r, a). n - r)") (auto simp: Let_def)

declare sift.simps [simp del]

fun heapify :: "('a \<Rightarrow> 'a \<Rightarrow> int) \<Rightarrow> nat \<Rightarrow> nat \<Rightarrow> 'a list \<Rightarrow> 'a list" where
  "heapify cmp n 0 a = a"
| "heapify cmp n (Suc i) a = heapify cmp n i (sift cmp n i a)"

fun sort_down :: "('a \<Rightarrow> 'a \<Rightarrow> int) \<Rightarrow> nat \<Rightarrow> 'a list \<Rightarrow> 'a list" where
  "sort_down cmp 0 a = a"
| "sort_down cmp (Suc i) a = sort_down cmp i (sift cmp (Suc i) 0 (swap 0 (Suc i) a))"

definition sort :: "('a \<Rightarrow> 'a \<Rightarrow> int) \<Rightarrow> 'a list \<Rightarrow> 'a list" where
  "sort cmp a = (let n = length a in sort_down cmp (n - 1) (heapify cmp n (n div 2) a))"

function bsearch_loop :: "('k \<Rightarrow> 'a \<Rightarrow> int) \<Rightarrow> 'k \<Rightarrow> 'a list \<Rightarrow> nat \<Rightarrow> nat \<Rightarrow> nat option" where
  "bsearch_loop cmp key base start end =
     (if start < end then
        let mid = start + (end - start) div 2;
            result = cmp key (base ! mid)
        in if result < 0 then bsearch_loop cmp key base start mid
           else if result > 0 then bsearch_loop cmp key base (mid + 1) end
           else Some mid
      else None)"
  by pat_completeness auto
termination
  by (relation "measure (\<lambda>(cmp, key, base, start, end). end - start)") auto

declare bsearch_loop.simps [simp del]

definition bsearch :: "('k \<Rightarrow> 'a \<Rightarrow> int) \<Rightarrow> 'k \<Rightarrow> 'a list \<Rightarrow> nat option" where
  "bsearch cmp key base = bsearch_loop cmp key base 0 (length base)"

text \<open>
  \<^verbatim>\<open>alg_bsch\<close> finds the last entry that is not above the key. On an empty array its loop
  condition never fails, so it has fuel.
\<close>

fun alg_bsch_loop :: "nat \<Rightarrow> u32 \<Rightarrow> u32 list \<Rightarrow> nat \<Rightarrow> nat \<Rightarrow> nat res" where
  "alg_bsch_loop 0 dst arr idx_l idx_r = Inl Stuck"
| "alg_bsch_loop (Suc fuel) dst arr idx_l idx_r =
     (if idx_l + 1 \<noteq> idx_r then
        let idx_m = (idx_l + idx_r) div 2
        in if length arr \<le> idx_m then Inl Fault
           else if dst = arr ! idx_m then Inr idx_m
           else if dst < arr ! idx_m then alg_bsch_loop fuel dst arr idx_l idx_m
           else alg_bsch_loop fuel dst arr idx_m idx_r
      else Inr idx_l)"

definition alg_bsch :: "u32 \<Rightarrow> u32 list \<Rightarrow> nat res" where
  "alg_bsch dst arr = alg_bsch_loop (Suc (length arr)) dst arr 0 (length arr)"

section \<open>Heap sort permutes\<close>

lemma length_swap [simp]: "length (swap i j a) = length a"
  by (simp add: swap_def)

lemma mset_swap_inv: "i < length a \<Longrightarrow> j < length a \<Longrightarrow> mset (swap i j a) = mset a"
  unfolding swap_def by (rule mset_swap)

lemma swap_nth:
  "i < length a \<Longrightarrow> j < length a \<Longrightarrow>
     swap i j a ! k = (if k = j then a ! i else if k = i then a ! j else a ! k)"
  by (auto simp: swap_def nth_list_update)

lemma length_sift [simp]: "length (sift cmp n r a) = length a"
  by (induction cmp n r a rule: sift.induct) (subst sift.simps, simp add: Let_def)

lemma sift_stop: "n \<le> r * 2 + 1 \<Longrightarrow> sift cmp n r a = a"
  by (subst sift.simps) simp

lemma sift_child:
  assumes "r * 2 + 1 < n"
  obtains c where "c \<in> {r * 2 + 1, r * 2 + 2}" "r < c" "c < n"
    "sift cmp n r a = (if cmp (a ! r) (a ! c) \<ge> 0 then a else sift cmp n c (swap r c a))"
    "\<And>d. d \<in> {r * 2 + 1, r * 2 + 2} \<Longrightarrow> d < n \<Longrightarrow>
       d = c \<or> (d < c \<and> cmp (a ! d) (a ! c) < 0) \<or> (c < d \<and> \<not> cmp (a ! c) (a ! d) < 0)"
proof -
  define c where "c = (if r * 2 + 1 < n - 1 \<and> cmp (a ! (r * 2 + 1)) (a ! (r * 2 + 1 + 1)) < 0
                       then r * 2 + 1 + 1 else r * 2 + 1)"
  show ?thesis
  proof (rule that [of c])
    show "sift cmp n r a = (if cmp (a ! r) (a ! c) \<ge> 0 then a else sift cmp n c (swap r c a))"
      by (subst sift.simps) (use assms in \<open>simp add: Let_def c_def\<close>)
  qed (use assms in \<open>auto simp: c_def split: if_splits\<close>)
qed

lemma sift_frame:
  "n \<le> length a \<Longrightarrow> mset (sift cmp n r a) = mset a \<and>
     (\<forall>k. n \<le> k \<or> k < r \<longrightarrow> sift cmp n r a ! k = a ! k)"
proof (induction "n - r" arbitrary: r a rule: less_induct)
  case less
  show ?case
  proof (cases "r * 2 + 1 < n")
    case True
    then obtain c where c: "r < c" "c < n"
      and eq: "sift cmp n r a = (if cmp (a ! r) (a ! c) \<ge> 0 then a else sift cmp n c (swap r c a))"
      by (rule sift_child)
    have l: "r < length a" "c < length a" using c less.prems by auto
    have "mset (sift cmp n c (swap r c a)) = mset (swap r c a) \<and>
        (\<forall>k. n \<le> k \<or> k < c \<longrightarrow> sift cmp n c (swap r c a) ! k = swap r c a ! k)"
      using c less.prems by (intro less.hyps) auto
    then show ?thesis using c l by (auto simp: eq mset_swap_inv swap_nth)
  qed (simp add: sift_stop)
qed

lemma mset_sift: "n \<le> length a \<Longrightarrow> mset (sift cmp n r a) = mset a"
  using sift_frame by blast

lemma sift_nth_beyond: "n \<le> length a \<Longrightarrow> n \<le> k \<Longrightarrow> sift cmp n r a ! k = a ! k"
  using sift_frame by blast

lemma sift_take: "n \<le> length a \<Longrightarrow> mset (take n (sift cmp n r a)) = mset (take n a)"
proof -
  assume n: "n \<le> length a"
  have "drop n (sift cmp n r a) = drop n a"
    using n by (intro nth_equalityI) (auto simp: sift_nth_beyond)
  moreover have "mset (take n x) = mset x - mset (drop n x)" for x :: "'a list"
    by (metis add_diff_cancel_right' append_take_drop_id mset_append)
  ultimately show ?thesis using n by (simp add: mset_sift)
qed

lemma length_heapify [simp]: "length (heapify cmp n i a) = length a"
  by (induction i arbitrary: a) auto

lemma mset_heapify: "n \<le> length a \<Longrightarrow> mset (heapify cmp n i a) = mset a"
  by (induction i arbitrary: a) (auto simp: mset_sift)

lemma length_sort_down [simp]: "length (sort_down cmp i a) = length a"
  by (induction i arbitrary: a) auto

lemma mset_sort_down: "i < length a \<Longrightarrow> mset (sort_down cmp i a) = mset a"
proof (induction i arbitrary: a)
  case (Suc i)
  have "mset (swap 0 (Suc i) a) = mset a" using Suc.prems by (intro mset_swap_inv) auto
  then show ?case using Suc by (simp add: mset_sift)
qed simp

lemma mset_sort: "mset (sort cmp a) = mset a"
  by (cases a) (auto simp: sort_def Let_def mset_sort_down mset_heapify)

lemma length_sort [simp]: "length (sort cmp a) = length a"
  by (simp add: sort_def Let_def)

section \<open>Heap sort sorts\<close>

text \<open>The contract of the comparison functions that are passed to \<^verbatim>\<open>sort\<close>.\<close>

locale comparator =
  fixes cmp :: "'a \<Rightarrow> 'a \<Rightarrow> int"
  assumes cmp_sym: "cmp a b < 0 \<longleftrightarrow> 0 < cmp b a"
    and cmp_trans: "cmp a b \<le> 0 \<Longrightarrow> cmp b c \<le> 0 \<Longrightarrow> cmp a c \<le> 0"
begin

lemma cmp_refl: "cmp a a \<le> 0"
  using cmp_sym [of a a] by linarith

lemma cmp_total: "\<not> cmp a b \<le> 0 \<Longrightarrow> cmp b a \<le> 0"
  using cmp_sym [of b a] by linarith

lemma cmp_nonneg: "0 \<le> cmp a b \<longleftrightarrow> cmp b a \<le> 0"
  using cmp_sym [of a b] by linarith

text \<open>Node \<open>i\<close> is not below its children, among the first \<open>n\<close> elements.\<close>

definition heap_at :: "'a list \<Rightarrow> nat \<Rightarrow> nat \<Rightarrow> bool" where
  "heap_at a n i \<longleftrightarrow> (\<forall>c\<in>{i * 2 + 1, i * 2 + 2}. c < n \<longrightarrow> cmp (a ! c) (a ! i) \<le> 0)"

definition heap_from :: "'a list \<Rightarrow> nat \<Rightarrow> nat \<Rightarrow> bool" where
  "heap_from a lo n \<longleftrightarrow> (\<forall>i\<ge>lo. heap_at a n i)"

text \<open>
  While \<open>r\<close> sinks: every other node from \<open>lo\<close> on is in order, and the parent of \<open>r\<close> is
  not below the children of \<open>r\<close>.
\<close>

definition sinking :: "'a list \<Rightarrow> nat \<Rightarrow> nat \<Rightarrow> nat \<Rightarrow> bool" where
  "sinking a lo n r \<longleftrightarrow> (\<forall>i\<ge>lo. i \<noteq> r \<longrightarrow> heap_at a n i) \<and>
     (\<forall>p\<ge>lo. r \<in> {p * 2 + 1, p * 2 + 2} \<longrightarrow>
        (\<forall>c\<in>{r * 2 + 1, r * 2 + 2}. c < n \<longrightarrow> cmp (a ! c) (a ! p) \<le> 0))"

lemma heap_from_sinking: "heap_from a (Suc r) n \<Longrightarrow> sinking a r n r"
  by (auto simp: heap_from_def sinking_def)

lemma sinking_step:
  assumes s: "sinking a lo n r" and lo: "lo \<le> r" and n: "n \<le> length a"
    and c: "c \<in> {r * 2 + 1, r * 2 + 2}" "c < n"
    and big: "\<And>d. d \<in> {r * 2 + 1, r * 2 + 2} \<Longrightarrow> d < n \<Longrightarrow> cmp (a ! d) (a ! c) \<le> 0"
    and lt: "cmp (a ! r) (a ! c) < 0"
  shows "sinking (swap r c a) lo n c"
proof -
  have rl: "r < length a" "c < length a" "r \<noteq> c" "r < c" using c n by auto
  note nth = swap_nth [OF rl(1,2)]
  show ?thesis
    unfolding sinking_def
  proof (intro conjI allI impI ballI)
    fix i assume i: "lo \<le> i" "i \<noteq> c"
    show "heap_at (swap r c a) n i"
      unfolding heap_at_def
    proof (intro ballI impI)
      fix d assume d: "d \<in> {i * 2 + 1, i * 2 + 2}" "d < n"
      show "cmp (swap r c a ! d) (swap r c a ! i) \<le> 0"
      proof (cases "i = r")
        case True
        then show ?thesis using d big [of d] lt rl by (auto simp: nth)
      next
        case False
        then have "d \<noteq> c" using c d by auto
        have ih: "cmp (a ! d) (a ! i) \<le> 0"
          using s i(1) False d by (auto simp: sinking_def heap_at_def)
        show ?thesis
        proof (cases "d = r")
          case True
          have "cmp (a ! c) (a ! i) \<le> 0" using s i(1) True d c by (auto simp: sinking_def)
          then show ?thesis using True False \<open>d \<noteq> c\<close> i(2) by (simp add: nth)
        qed (use ih False \<open>d \<noteq> c\<close> i(2) in \<open>simp add: nth\<close>)
      qed
    qed
  next
    fix p d assume p: "lo \<le> p" "c \<in> {p * 2 + 1, p * 2 + 2}" and d: "d \<in> {c * 2 + 1, c * 2 + 2}" "d < n"
    have "p = r" using p(2) c(1) by auto
    have "d \<noteq> r" "d \<noteq> c" using d rl by auto
    have "cmp (a ! d) (a ! c) \<le> 0"
      using s lo rl d by (auto simp: sinking_def heap_at_def)
    then show "cmp (swap r c a ! d) (swap r c a ! p) \<le> 0"
      using \<open>p = r\<close> \<open>d \<noteq> r\<close> \<open>d \<noteq> c\<close> rl(3) by (simp add: nth)
  qed
qed

lemma sift_heap:
  "sinking a lo n r \<Longrightarrow> lo \<le> r \<Longrightarrow> n \<le> length a \<Longrightarrow> heap_from (sift cmp n r a) lo n"
proof (induction "n - r" arbitrary: r a rule: less_induct)
  case less
  show ?case
  proof (cases "r * 2 + 1 < n")
    case True
    then obtain c where c: "c \<in> {r * 2 + 1, r * 2 + 2}" "r < c" "c < n"
      and eq: "sift cmp n r a = (if cmp (a ! r) (a ! c) \<ge> 0 then a else sift cmp n c (swap r c a))"
      and big: "\<And>d. d \<in> {r * 2 + 1, r * 2 + 2} \<Longrightarrow> d < n \<Longrightarrow>
        d = c \<or> (d < c \<and> cmp (a ! d) (a ! c) < 0) \<or> (c < d \<and> \<not> cmp (a ! c) (a ! d) < 0)"
      by (rule sift_child [where cmp = cmp and a = a]) blast
    have le: "cmp (a ! d) (a ! c) \<le> 0" if "d \<in> {r * 2 + 1, r * 2 + 2}" "d < n" for d
      using big [OF that] cmp_refl [of "a ! c"] cmp_nonneg [of "a ! c" "a ! d"] by auto
    show ?thesis
    proof (cases "cmp (a ! r) (a ! c) \<ge> 0")
      case True
      then have "cmp (a ! c) (a ! r) \<le> 0" by (simp add: cmp_nonneg)
      then have "heap_at a n r" unfolding heap_at_def by (meson le cmp_trans)
      then show ?thesis using True less.prems eq by (auto simp: heap_from_def sinking_def)
    next
      case False
      have "sinking (swap r c a) lo n c"
        using less.prems c le False by (intro sinking_step) auto
      then show ?thesis using False c less.prems eq by (simp add: less.hyps)
    qed
  next
    case False
    then have "heap_at a n r" by (auto simp: heap_at_def)
    then show ?thesis using less.prems False by (auto simp: sift_stop heap_from_def sinking_def)
  qed
qed

lemma heapify_heap:
  "n \<le> length a \<Longrightarrow> heap_from a i n \<Longrightarrow> heap_from (heapify cmp n i a) 0 n"
  by (induction i arbitrary: a) (simp_all add: sift_heap heap_from_sinking)

lemma heap_root: "heap_from a 0 n \<Longrightarrow> i < n \<Longrightarrow> cmp (a ! i) (a ! 0) \<le> 0"
proof (induction i rule: less_induct)
  case (less i)
  show ?case
  proof (cases "i = 0")
    case False
    define p where "p = (i - 1) div 2"
    have p: "p < i" "i \<in> {p * 2 + 1, p * 2 + 2}" using False by (auto simp: p_def)
    have "cmp (a ! i) (a ! p) \<le> 0"
      using less.prems p by (auto simp: heap_from_def heap_at_def)
    moreover have "cmp (a ! p) (a ! 0) \<le> 0" using less p by auto
    ultimately show ?thesis by (rule cmp_trans)
  qed (simp add: cmp_refl)
qed

text \<open>
  The outer loop: the first \<open>i + 1\<close> elements are a heap, the rest is sorted, and nothing in
  the heap is above the rest.
\<close>

definition sorting :: "'a list \<Rightarrow> nat \<Rightarrow> bool" where
  "sorting a i \<longleftrightarrow> heap_from a 0 (Suc i) \<and>
     (\<forall>j k. j < k \<longrightarrow> i < k \<longrightarrow> k < length a \<longrightarrow> cmp (a ! j) (a ! k) \<le> 0)"

lemma mset_take_bound:
  "mset (take n b) = mset (take n a) \<Longrightarrow> n \<le> length a \<Longrightarrow> n \<le> length b \<Longrightarrow>
     (\<And>j. j < n \<Longrightarrow> cmp (a ! j) x \<le> 0) \<Longrightarrow> j < n \<Longrightarrow> cmp (b ! j) x \<le> 0"
proof -
  assume m: "mset (take n b) = mset (take n a)" and n: "n \<le> length a" "n \<le> length b"
    and all: "\<And>j. j < n \<Longrightarrow> cmp (a ! j) x \<le> 0" and j: "j < n"
  have "b ! j \<in> set (take n a)"
    using m [THEN mset_eq_setD] j n by (metis length_take min.absorb2 nth_mem nth_take)
  then obtain k where "k < n" "a ! k = b ! j" using n by (auto simp: in_set_conv_nth)
  then show ?thesis using all [of k] by simp
qed

lemma sorting_step:
  assumes s: "sorting a (Suc i)" and i: "Suc i < length a"
  shows "sorting (sift cmp (Suc i) 0 (swap 0 (Suc i) a)) i"
proof -
  define b where "b = swap 0 (Suc i) a"
  define d where "d = sift cmp (Suc i) 0 b"
  have len: "length b = length a" "length d = length a" by (simp_all add: b_def d_def)
  have nth: "b ! k = (if k = Suc i then a ! 0 else if k = 0 then a ! Suc i else a ! k)" for k
    unfolding b_def using i by (subst swap_nth) auto
  have max: "cmp (a ! k) (a ! 0) \<le> 0" if "k < Suc (Suc i)" for k
    using s that by (auto simp: sorting_def intro: heap_root)
  have "sinking b 0 (Suc i) 0"
    using s by (auto simp: sinking_def sorting_def heap_from_def heap_at_def nth)
  then have heap: "heap_from d 0 (Suc i)"
    unfolding d_def using i by (intro sift_heap) (auto simp: len)
  have tl: "d ! k = b ! k" if "Suc i \<le> k" for k
    using that i by (simp add: d_def sift_nth_beyond len)
  have pre: "mset (take (Suc i) d) = mset (take (Suc i) b)"
    using i by (simp add: d_def sift_take len)
  have "cmp (d ! j) (d ! k) \<le> 0" if "j < k" "i < k" "k < length a" for j k
  proof (cases "j < Suc i")
    case True
    have "cmp (b ! l) (b ! k) \<le> 0" if "l < Suc i" for l
      using s max \<open>i < k\<close> \<open>k < length a\<close> that by (auto simp: nth sorting_def)
    then have "cmp (d ! j) (b ! k) \<le> 0"
      using True i by (auto intro: mset_take_bound [OF pre] simp: len)
    then show ?thesis using \<open>i < k\<close> by (simp add: tl)
  next
    case False
    then show ?thesis using s that by (auto simp: tl nth sorting_def)
  qed
  then show ?thesis using heap by (simp add: sorting_def len flip: b_def d_def)
qed

lemma sort_down_sorting: "sorting a i \<Longrightarrow> i < length a \<Longrightarrow> sorting (sort_down cmp i a) 0"
  by (induction i arbitrary: a) (simp_all add: sorting_step)

lemma sort_sorts: "sorted_wrt (\<lambda>x y. cmp x y \<le> 0) (sort cmp a)"
proof (cases "a = []")
  case False
  define n where "n = length a"
  have n: "0 < n" using False by (simp add: n_def)
  have "heap_from a (n div 2) n" by (auto simp: heap_from_def heap_at_def)
  then have "heap_from (heapify cmp n (n div 2) a) 0 n" by (simp add: heapify_heap n_def)
  then have "sorting (heapify cmp n (n div 2) a) (n - 1)"
    using n by (auto simp: sorting_def n_def)
  then have "sorting (sort cmp a) 0"
    using n by (auto simp: sort_def Let_def n_def intro!: sort_down_sorting)
  then show ?thesis by (auto simp: sorted_wrt_iff_nth_less sorting_def)
qed (simp add: sort_def)

end

section \<open>The binary searches\<close>

text \<open>
  \<^verbatim>\<open>bsearch\<close> needs the array split by the key: entries the key is above, then entries it
  equals, then entries it is below.
\<close>

definition split_by :: "('k \<Rightarrow> 'a \<Rightarrow> int) \<Rightarrow> 'k \<Rightarrow> 'a list \<Rightarrow> bool" where
  "split_by cmp key a = sorted_wrt (\<lambda>x y. sgn (cmp key y) \<le> sgn (cmp key x)) a"

lemma bsearch_loop_sound:
  "bsearch_loop cmp key a s e = Some m \<Longrightarrow> s \<le> m \<and> m < e \<and> cmp key (a ! m) = 0"
proof (induction cmp key a s e rule: bsearch_loop.induct)
  case (1 cmp key a s e)
  show ?case
    using 1(3) 1(1) [OF _ refl refl] 1(2) [OF _ refl refl]
    by (subst (asm) bsearch_loop.simps) (fastforce simp: Let_def split: if_splits)
qed

lemma bsearch_loop_complete:
  "split_by cmp key a \<Longrightarrow> e \<le> length a \<Longrightarrow> s \<le> m \<Longrightarrow> m < e \<Longrightarrow> cmp key (a ! m) = 0 \<Longrightarrow>
     bsearch_loop cmp key a s e \<noteq> None"
proof (induction cmp key a s e rule: bsearch_loop.induct)
  case (1 cmp key a s e)
  define d where "d = s + (e - s) div 2"
  have d: "s \<le> d" "d < e" using 1(5,6) by (auto simp: d_def)
  have ord: "sgn (cmp key (a ! y)) \<le> sgn (cmp key (a ! x))" if "x < y" "y < e" for x y
    using 1(3,4) that by (auto simp: split_by_def sorted_wrt_iff_nth_less)
  have lt: "m < d" if "cmp key (a ! d) < 0"
    using that 1(7) ord [of d m] \<open>m < e\<close> by (cases d m rule: linorder_cases) auto
  have gt: "d < m" if "cmp key (a ! d) > 0"
    using that 1(7) ord [of m d] d by (cases d m rule: linorder_cases) auto
  have "bsearch_loop cmp key a s d \<noteq> None" if "cmp key (a ! d) < 0"
    using 1(1) [OF _ refl refl] 1(3,4,5,7) d lt that by (simp flip: d_def)
  moreover have "bsearch_loop cmp key a (d + 1) e \<noteq> None" if "cmp key (a ! d) > 0"
    using 1(2) [OF _ refl refl] 1(3,4,6,7) d gt that by (simp flip: d_def)
  ultimately show ?case
    using d by (subst bsearch_loop.simps) (simp add: Let_def flip: d_def)
qed

text \<open>
  \<^verbatim>\<open>bsearch\<close> finds an entry exactly when the array has one.
\<close>

lemma bsearch_hit: "bsearch cmp key a = Some m \<Longrightarrow> m < length a \<and> cmp key (a ! m) = 0"
  unfolding bsearch_def by (blast dest: bsearch_loop_sound)

lemma bsearch_miss:
  "split_by cmp key a \<Longrightarrow> bsearch cmp key a = None \<longleftrightarrow> (\<forall>m < length a. cmp key (a ! m) \<noteq> 0)"
  unfolding bsearch_def
  using bsearch_loop_complete [of cmp key a "length a" 0] bsearch_loop_sound [of cmp key a 0 "length a"]
  by (metis le0 option.exhaust order_refl)

text \<open>The interval of \<^verbatim>\<open>alg_bsch\<close> always holds the answer.\<close>

definition at_or_below :: "u32 \<Rightarrow> u32 list \<Rightarrow> nat \<Rightarrow> bool" where
  "at_or_below dst arr i \<longleftrightarrow> i < length arr \<and>
     (arr ! i = dst \<or> (arr ! i < dst \<or> i = 0) \<and> (\<forall>k. i < k \<and> k < length arr \<longrightarrow> dst < arr ! k))"

lemma alg_bsch_loop_ok:
  "sorted arr \<Longrightarrow> l < r \<Longrightarrow> r \<le> length arr \<Longrightarrow> r - l \<le> fuel \<Longrightarrow> arr ! l < dst \<or> l = 0 \<Longrightarrow>
     (\<forall>k. r \<le> k \<and> k < length arr \<longrightarrow> dst < arr ! k) \<Longrightarrow>
     \<exists>i. alg_bsch_loop fuel dst arr l r = Inr i \<and> at_or_below dst arr i"
proof (induction fuel arbitrary: l r)
  case (Suc fuel)
  define m where "m = (l + r) div 2"
  show ?case
  proof (cases "l + 1 = r")
    case True
    then show ?thesis using Suc.prems by (auto simp: at_or_below_def)
  next
    case False
    then have m: "l < m" "m < r" using Suc.prems(2) by (auto simp: m_def)
    have above: "dst < arr ! k" if "dst < arr ! m" "m \<le> k" "k < length arr" for k
      using that sorted_nth_mono [OF Suc.prems(1), of m k] by simp
    show ?thesis
      using False m Suc.prems above Suc.IH [of l m] Suc.IH [of m r]
      by (auto simp: Let_def at_or_below_def simp flip: m_def)
  qed
qed simp

lemma alg_bsch_ok:
  "sorted arr \<Longrightarrow> arr \<noteq> [] \<Longrightarrow> \<exists>i. alg_bsch dst arr = Inr i \<and> at_or_below dst arr i"
  unfolding alg_bsch_def by (rule alg_bsch_loop_ok) auto

section \<open>Properties\<close>

text \<open>
  C27: for a comparison function that is antisymmetric in sign and transitive, \<^verbatim>\<open>sort\<close>
  rearranges the array into ascending order.
\<close>

theorem sort_correct:
  assumes "\<And>x y. cmp x y < 0 \<longleftrightarrow> 0 < cmp y x" and "\<And>x y z. cmp x y \<le> 0 \<Longrightarrow> cmp y z \<le> 0 \<Longrightarrow> cmp x z \<le> 0"
  shows "mset (sort cmp a) = mset a \<and> sorted_wrt (\<lambda>x y. cmp x y \<le> 0) (sort cmp a)"
proof -
  have "comparator cmp" using assms by unfold_locales
  then show ?thesis by (simp add: mset_sort comparator.sort_sorts)
qed

theorem sort_correct_witness:
  "sort (\<lambda>x y. x - y) [3, 1, 2, 1 :: int] = [1, 1, 2, 3] \<and>
   sorted_wrt (\<lambda>x y. x - y \<le> 0) (sort (\<lambda>x y. x - y) [3, 1, 2, 1 :: int])"
proof (rule conjI)
  show "sort (\<lambda>x y. x - y) [3, 1, 2, 1 :: int] = [1, 1, 2, 3]" by code_simp
  show "sorted_wrt (\<lambda>x y. x - y \<le> 0) (sort (\<lambda>x y. x - y) [3, 1, 2, 1 :: int])"
    by (rule sort_correct [THEN conjunct2]) auto
qed

text \<open>
  C38: in an array ordered for the key, \<^verbatim>\<open>bsearch\<close> returns an entry equal to the key when
  there is one, and \<^verbatim>\<open>NULL\<close> only when there is none.
\<close>

theorem bsearch_correct:
  assumes "split_by cmp key a"
  shows "(\<forall>m. bsearch cmp key a = Some m \<longrightarrow> m < length a \<and> cmp key (a ! m) = 0) \<and>
    (bsearch cmp key a = None \<longleftrightarrow> (\<forall>m < length a. cmp key (a ! m) \<noteq> 0))"
  using bsearch_hit [of cmp key a] bsearch_miss [OF assms] by simp

theorem bsearch_correct_witness:
  "split_by (\<lambda>k x. k - x) 5 [1, 3, 5, 7 :: int] \<and> bsearch (\<lambda>k x. k - x) 5 [1, 3, 5, 7 :: int] = Some 2 \<and>
   bsearch (\<lambda>k x. k - x) 4 [1, 3, 5, 7 :: int] = None"
proof (intro conjI)
  show "split_by (\<lambda>k x. k - x) 5 [1, 3, 5, 7 :: int]" by code_simp
  have "split_by (\<lambda>k x. k - x) 4 [1, 3, 5, 7 :: int]" by code_simp
  moreover have "\<forall>m < length [1, 3, 5, 7 :: int]. 4 - [1, 3, 5, 7 :: int] ! m \<noteq> 0" by code_simp
  ultimately show "bsearch (\<lambda>k x. k - x) 4 [1, 3, 5, 7 :: int] = None"
    by (rule bsearch_correct [THEN conjunct2, THEN iffD2])
  show "bsearch (\<lambda>k x. k - x) 5 [1, 3, 5, 7 :: int] = Some 2" by code_simp
qed

text \<open>
  On a nonempty ascending array \<^verbatim>\<open>alg_bsch\<close> stops, and returns the index of the value or
  of the last smaller one (0 when all are larger). On an empty array its loop runs out of the
  array.
\<close>

lemma alg_bsch_correct:
  "(sorted arr \<and> arr \<noteq> [] \<longrightarrow> (\<exists>i. alg_bsch dst arr = Inr i \<and> at_or_below dst arr i)) \<and>
   alg_bsch dst [] = Inl Fault"
  using alg_bsch_ok [of arr dst] by (auto simp: alg_bsch_def)

end
