(* ===== verification/Func.thy ===== *)
theory Func
  imports Sort
begin

text \<open>
  The memory and string routines of \<^verbatim>\<open>core/func.c\<close>. Memory is a map from 32-bit
  addresses to bytes, and pointer arithmetic wraps. A C string is the list of the bytes
  from its address on; a missing byte is the terminating NUL.
\<close>

section \<open>Memory\<close>

type_synonym mem = "u32 \<Rightarrow> u8"
type_synonym cstr = "u8 list"

fun memcpy :: "u32 \<Rightarrow> u32 \<Rightarrow> nat \<Rightarrow> mem \<Rightarrow> mem" where
  "memcpy dst src 0 m = m"
| "memcpy dst src (Suc len) m = memcpy (dst + 1) (src + 1) len (m(dst := m src))"

fun memset :: "u32 \<Rightarrow> u8 \<Rightarrow> nat \<Rightarrow> mem \<Rightarrow> mem" where
  "memset dst value 0 m = m"
| "memset dst value (Suc len) m = memset (dst + 1) value len (m(dst := value))"

fun memset_u16 :: "u32 \<Rightarrow> u16 \<Rightarrow> nat \<Rightarrow> mem \<Rightarrow> mem" where
  "memset_u16 dst value 0 m = m"
| "memset_u16 dst value (Suc len) m =
     memset_u16 (dst + 2) value len (m(dst := ucast value, dst + 1 := ucast (drop_bit 8 value)))"

text \<open>\<^verbatim>\<open>memcmp\<close> of two buffers of the same length.\<close>

fun memcmp :: "u8 list \<Rightarrow> u8 list \<Rightarrow> int" where
  "memcmp (b1 # s1) (b2 # s2) = (if b1 > b2 then 1 else if b1 < b2 then - 1 else memcmp s1 s2)"
| "memcmp _ _ = 0"

definition mem_bytes :: "mem \<Rightarrow> u32 \<Rightarrow> nat \<Rightarrow> u8 list" where
  "mem_bytes m a n = map (\<lambda>i. m (a + of_nat i)) [0..<n]"

lemma length_mem_bytes [simp]: "length (mem_bytes m a n) = n"
  by (simp add: mem_bytes_def)

lemma mem_bytes_nth [simp]: "i < n \<Longrightarrow> mem_bytes m a n ! i = m (a + of_nat i)"
  by (simp add: mem_bytes_def)

lemma mem_bytes_eqI: "(\<And>i. i < n \<Longrightarrow> m (a + of_nat i) = m' (b + of_nat i)) \<Longrightarrow>
   mem_bytes m a n = mem_bytes m' b n"
  by (simp add: mem_bytes_def)

definition in_range :: "u32 \<Rightarrow> u32 \<Rightarrow> nat \<Rightarrow> bool" where
  "in_range x a n \<longleftrightarrow> unat (x - a) < n"

lemma in_range_offset: "n \<le> 2 ^ 32 \<Longrightarrow> in_range x a n \<longleftrightarrow> (\<exists>i<n. x = a + of_nat i)"
proof
  assume "in_range x a n"
  then show "\<exists>i<n. x = a + of_nat i"
    by (intro exI [of _ "unat (x - a)"]) (simp add: in_range_def)
next
  assume n: "n \<le> 2 ^ 32" "\<exists>i<n. x = a + of_nat i"
  then obtain i where "i < n" "x = a + of_nat i" by blast
  then show "in_range x a n" using n by (simp add: in_range_def unat_of_nat_small)
qed

lemma in_range_Suc:
  "Suc n \<le> 2 ^ 32 \<Longrightarrow> in_range x a (Suc n) \<longleftrightarrow> x = a \<or> in_range x (a + 1) n"
proof -
  assume n: "Suc n \<le> 2 ^ 32"
  have "(\<exists>i<Suc n. x = a + of_nat i) \<longleftrightarrow> x = a \<or> (\<exists>i<n. x = a + 1 + of_nat i)"
    by (simp add: Ex_less_Suc2 add.assoc)
  then show ?thesis using n by (simp add: in_range_offset)
qed

lemma memset_spec:
  "n \<le> 2 ^ 32 \<Longrightarrow> memset a v n m x = (if in_range x a n then v else m x)"
proof (induction n arbitrary: a m)
  case 0
  then show ?case by (simp add: in_range_def)
next
  case (Suc n)
  then show ?case by (auto simp: in_range_Suc)
qed

lemma memcpy_other:
  "n \<le> 2 ^ 32 \<Longrightarrow> \<not> in_range x dst n \<Longrightarrow> memcpy dst src n m x = m x"
  by (induction n arbitrary: dst src m) (auto simp: in_range_Suc)

text \<open>
  The copy goes upwards, so it is right unless a destination byte hits a source byte
  that is still to be read.
\<close>

definition copy_safe :: "u32 \<Rightarrow> u32 \<Rightarrow> nat \<Rightarrow> bool" where
  "copy_safe dst src n \<longleftrightarrow> (\<forall>i<n. \<forall>j<i. dst + of_nat j \<noteq> src + of_nat i)"

lemma copy_safe_Suc:
  "copy_safe dst src (Suc n) \<Longrightarrow>
     copy_safe (dst + 1) (src + 1) n \<and> (\<forall>i<n. dst \<noteq> src + 1 + of_nat i)"
proof -
  assume s: "copy_safe dst src (Suc n)"
  have "dst + of_nat (Suc j) \<noteq> src + of_nat (Suc i)" if "i < n" "j < i" for i j
    using s that unfolding copy_safe_def by (metis Suc_less_eq)
  moreover have "dst + of_nat 0 \<noteq> src + of_nat (Suc i)" if "i < n" for i
    using s that unfolding copy_safe_def by (metis Suc_less_eq zero_less_Suc)
  ultimately show ?thesis by (auto simp: copy_safe_def add.assoc)
qed

lemma memcpy_bytes:
  "n \<le> 2 ^ 32 \<Longrightarrow> copy_safe dst src n \<Longrightarrow> i < n \<Longrightarrow>
     memcpy dst src n m (dst + of_nat i) = m (src + of_nat i)"
proof (induction n arbitrary: dst src m i)
  case (Suc n)
  note safe = copy_safe_Suc [OF Suc.prems(2)]
  show ?case
  proof (cases i)
    case 0
    have "\<not> in_range dst (dst + 1) n"
    proof -
      have "unat (- 1 :: u32) = 2 ^ 32 - 1"
        by (simp add: unsigned_minus_1_eq_mask mask_eq_exp_minus_1)
      then show ?thesis using Suc.prems(1) by (simp add: in_range_def)
    qed
    then show ?thesis using 0 Suc.prems(1) by (simp add: memcpy_other)
  next
    case (Suc k)
    have "memcpy (dst + 1) (src + 1) n (m(dst := m src)) (dst + 1 + of_nat k) =
          (m(dst := m src)) (src + 1 + of_nat k)"
      using Suc.prems Suc safe by (intro Suc.IH) auto
    moreover have "src + 1 + of_nat k \<noteq> dst" using safe Suc.prems(3) Suc by auto
    ultimately show ?thesis using Suc by (simp add: add.assoc)
  qed
qed simp

lemma copy_safe_disjoint:
  "n \<le> 2 ^ 32 \<Longrightarrow> (\<forall>x. \<not> (in_range x dst n \<and> in_range x src n)) \<Longrightarrow> copy_safe dst src n"
  unfolding copy_safe_def by (metis in_range_offset less_trans)

lemma memcmp_zero_iff:
  "length s = length t \<Longrightarrow> memcmp s t = 0 \<longleftrightarrow> s = t"
  by (induction s t rule: memcmp.induct) auto

section \<open>Strings\<close>

text \<open>The byte at the pointer.\<close>

fun ch_at :: "cstr \<Rightarrow> u8" where
  "ch_at [] = 0"
| "ch_at (c # _) = c"

function strcmp :: "cstr \<Rightarrow> cstr \<Rightarrow> int" where
  "strcmp cs ct =
     (let c1 = ch_at cs; c2 = ch_at ct
      in if c1 \<noteq> c2 then (if c1 < c2 then - 1 else 1)
         else if c1 = 0 then 0
         else strcmp (tl cs) (tl ct))"
  by pat_completeness auto
termination
proof (relation "measure (\<lambda>(cs, ct). length cs)")
  show "((tl cs, tl ct), cs, ct) \<in> measure (\<lambda>(cs, ct). length cs)"
    if "x = ch_at cs" "xa = ch_at ct" "\<not> x \<noteq> xa" "x \<noteq> 0" for cs ct x xa
    using that by (cases cs) auto
qed simp

declare strcmp.simps [simp del]

fun strlen :: "cstr \<Rightarrow> u16" where
  "strlen [] = 0"
| "strlen (c # str) = (if c = 0 then 0 else strlen str + 1)"

text \<open>The bytes up to the NUL.\<close>

definition text_of :: "cstr \<Rightarrow> u8 list" where
  "text_of s = takeWhile (\<lambda>c. c \<noteq> 0) s"

lemma text_of_simps [simp]:
  "text_of [] = []" "text_of (c # s) = (if c = 0 then [] else c # text_of s)"
  by (simp_all add: text_of_def)

lemma text_of_nul_free: "0 \<notin> set s \<Longrightarrow> text_of s = s"
  by (induction s) auto

lemma strlen_text: "strlen s = of_nat (length (text_of s))"
  by (induction s) (auto simp: add.commute)

text \<open>Lexicographic order of unsigned bytes.\<close>

fun lex_cmp :: "u8 list \<Rightarrow> u8 list \<Rightarrow> int" where
  "lex_cmp [] [] = 0"
| "lex_cmp [] (_ # _) = - 1"
| "lex_cmp (_ # _) [] = 1"
| "lex_cmp (a # s) (b # t) = (if a < b then - 1 else if b < a then 1 else lex_cmp s t)"

lemma strcmp_lex: "strcmp cs ct = lex_cmp (text_of cs) (text_of ct)"
proof (induction cs ct rule: strcmp.induct)
  case (1 cs ct)
  show ?case
    using 1 [OF refl refl]
    by (subst strcmp.simps, cases cs; cases ct) (auto simp: Let_def word_neq_0_conv)
qed

lemma lex_cmp_sym: "lex_cmp s t < 0 \<longleftrightarrow> 0 < lex_cmp t s"
  by (induction s t rule: lex_cmp.induct) auto

lemma lex_cmp_eq: "lex_cmp s t = 0 \<longleftrightarrow> s = t"
  by (induction s t rule: lex_cmp.induct) auto

lemma lex_cmp_trans: "lex_cmp s t \<le> 0 \<Longrightarrow> lex_cmp t u \<le> 0 \<Longrightarrow> lex_cmp s u \<le> 0"
proof (induction s t arbitrary: u rule: lex_cmp.induct)
  case (1 u) then show ?case by simp
next
  case (2 b t u) then show ?case by (cases u) auto
next
  case (4 a s b t)
  then show ?case by (cases u) (auto split: if_splits)
qed simp

interpretation str_order: comparator strcmp
  by unfold_locales (auto simp: strcmp_lex lex_cmp_sym intro: lex_cmp_trans)

section \<open>Numbers\<close>

definition chr :: "char \<Rightarrow> u8" where
  "chr c = of_char c"

definition digit_of :: "u8 \<Rightarrow> u32 option" where
  "digit_of ch =
     (if chr CHR ''0'' \<le> ch \<and> ch \<le> chr CHR ''9'' then Some (ucast (ch - chr CHR ''0''))
      else if chr CHR ''a'' \<le> ch \<and> ch \<le> chr CHR ''f'' then Some (ucast (ch - chr CHR ''a'') + 10)
      else if chr CHR ''A'' \<le> ch \<and> ch \<le> chr CHR ''F'' then Some (ucast (ch - chr CHR ''A'') + 10)
      else None)"

fun str2num_loop :: "u32 \<Rightarrow> u32 \<Rightarrow> cstr \<Rightarrow> u32" where
  "str2num_loop base ret [] = ret"
| "str2num_loop base ret (ch # str) =
     (if ch = 0 then ret
      else case digit_of ch of
             None \<Rightarrow> 0
           | Some d \<Rightarrow> str2num_loop base (ret * base + d) str)"

definition str2num :: "cstr \<Rightarrow> u32" where
  "str2num str =
     (if ch_at str = chr CHR ''0'' \<and>
         (ch_at (tl str) = chr CHR ''x'' \<or> ch_at (tl str) = chr CHR ''X'')
      then str2num_loop 16 0 (drop 2 str)
      else str2num_loop 10 0 str)"

section \<open>Splitting a command line\<close>

definition isinteflag :: "u8 \<Rightarrow> u8 list \<Rightarrow> bool" where
  "isinteflag ch inteflag = (ch \<in> set inteflag)"

text \<open>
  The loop of \<^verbatim>\<open>parse_str_by_inteflag\<close> from position \<open>pos\<close> on: it returns the rest of the
  string as the loop leaves it and the positions written to \<^verbatim>\<open>argv\<close>.
\<close>

fun parse_loop :: "u8 list \<Rightarrow> nat \<Rightarrow> bool \<Rightarrow> cstr \<Rightarrow> cstr \<times> nat list" where
  "parse_loop inteflag pos flag [] = ([], [])"
| "parse_loop inteflag pos flag (ch # str) =
     (if ch = 0 then (ch # str, [])
      else if \<not> isinteflag ch inteflag then
        (let (str', argv) = parse_loop inteflag (pos + 1) True str
         in (ch # str', if flag then argv else pos # argv))
      else
        (let (str', argv) = parse_loop inteflag (pos + 1) False str
         in ((if flag then 0 else ch) # str', argv)))"

definition parse_str_by_inteflag :: "u8 list \<Rightarrow> cstr \<Rightarrow> cstr \<times> nat list" where
  "parse_str_by_inteflag inteflag str = parse_loop inteflag 0 False str"

text \<open>What the split means: the maximal runs of bytes that are no separators.\<close>

function tokens :: "u8 list \<Rightarrow> u8 list \<Rightarrow> u8 list list" where
  "tokens seps [] = []"
| "isinteflag c seps \<Longrightarrow> tokens seps (c # s) = tokens seps s"
| "\<not> isinteflag c seps \<Longrightarrow> tokens seps (c # s) =
     (c # takeWhile (\<lambda>c. \<not> isinteflag c seps) s) # tokens seps (dropWhile (\<lambda>c. \<not> isinteflag c seps) s)"
  by (atomize_elim, auto) (metis neq_Nil_conv)
termination
  by (relation "measure (\<lambda>(seps, s). length s)") (auto simp: le_imp_less_Suc length_dropWhile_le)

definition argv_strings :: "cstr \<times> nat list \<Rightarrow> u8 list list" where
  "argv_strings r = map (\<lambda>p. text_of (drop p (fst r))) (snd r)"

lemma parse_loop_positions: "p \<in> set (snd (parse_loop seps pos flag s)) \<Longrightarrow> pos \<le> p"
proof (induction s arbitrary: pos flag)
  case (Cons c s)
  then show ?case
    by (auto simp: split_def Let_def split: if_splits dest: Suc_leD)
qed simp

lemma parse_loop_tokens:
  "0 \<notin> set s \<Longrightarrow>
     (let (s', argv) = parse_loop seps pos flag s
      in (if flag
          then text_of s' = takeWhile (\<lambda>c. \<not> isinteflag c seps) s \<and>
               map (\<lambda>p. text_of (drop (p - pos) s')) argv = tokens seps (dropWhile (\<lambda>c. \<not> isinteflag c seps) s)
          else map (\<lambda>p. text_of (drop (p - pos) s')) argv = tokens seps s))"
proof (induction s arbitrary: pos flag)
  case (Cons c s)
  have shift: "map (\<lambda>p. text_of (drop (p - pos) (d # fst (parse_loop seps (Suc pos) b s))))
      (snd (parse_loop seps (Suc pos) b s)) =
      map (\<lambda>p. text_of (drop (p - (Suc pos)) (fst (parse_loop seps (Suc pos) b s))))
      (snd (parse_loop seps (Suc pos) b s))" for b d
    by (rule map_cong [OF refl]) (auto dest!: parse_loop_positions simp: drop_Cons')
  have "c \<noteq> 0" using Cons.prems by auto
  with Cons.IH [of "Suc pos" True] Cons.IH [of "Suc pos" False] Cons.prems show ?case
    by (cases "isinteflag c seps"; cases flag)
       (simp_all add: split_def Let_def shift)
qed simp

lemma parse_tokens:
  "0 \<notin> set s \<Longrightarrow> argv_strings (parse_str_by_inteflag seps s) = tokens seps s"
  using parse_loop_tokens [of s seps 0 False]
  by (simp add: argv_strings_def parse_str_by_inteflag_def split_def Let_def)

lemma parse_length: "length (fst (parse_str_by_inteflag seps s)) = length s"
proof -
  have "length (fst (parse_loop seps pos flag s)) = length s" for pos flag
    by (induction s arbitrary: pos flag) (auto simp: split_def Let_def)
  then show ?thesis by (simp add: parse_str_by_inteflag_def)
qed

section \<open>Properties\<close>

text \<open>
  \<^verbatim>\<open>memcpy\<close> copies \<open>n\<close> bytes and changes nothing else, when the copy going upwards never
  writes a source byte it has still to read.
\<close>

lemma memcpy_correct:
  assumes "n \<le> 2 ^ 32" "copy_safe dst src n"
  shows "mem_bytes (memcpy dst src n m) dst n = mem_bytes m src n \<and>
    (\<forall>x. \<not> in_range x dst n \<longrightarrow> memcpy dst src n m x = m x)"
  using memcpy_bytes [OF assms] memcpy_other [OF assms(1)] by (auto intro: mem_bytes_eqI)

text \<open>
  C37: the words \<^verbatim>\<open>parse_str_by_inteflag\<close> hands out, read as C strings from the buffer it has
  written its NULs into, are the maximal runs of bytes that are not separators, in order.
\<close>

theorem parse_str_tokens:
  assumes "0 \<notin> set str"
  shows "argv_strings (parse_str_by_inteflag seps str) = tokens seps str \<and>
    length (fst (parse_str_by_inteflag seps str)) = length str"
  using parse_tokens [OF assms] parse_length by blast

theorem parse_str_tokens_witness:
  "argv_strings (parse_str_by_inteflag [32] [32, 97, 98, 32, 32, 99]) = [[97, 98], [99]]"
proof -
  have "argv_strings (parse_str_by_inteflag [32] [32, 97, 98, 32, 32, 99]) =
      tokens [32] [32, 97, 98, 32, 32, 99]"
    by (rule parse_str_tokens [THEN conjunct1]) simp
  then show ?thesis by (simp add: isinteflag_def)
qed

text \<open>
  C39: \<^verbatim>\<open>strcmp\<close> orders strings by their bytes up to the NUL, as unsigned bytes; it is 0 for equal
  strings only and it is a comparison function that \<^verbatim>\<open>sort\<close> can use.
\<close>

theorem strcmp_order:
  "strcmp s t = lex_cmp (text_of s) (text_of t) \<and> (strcmp s t = 0 \<longleftrightarrow> text_of s = text_of t) \<and>
   sorted_wrt (\<lambda>x y. strcmp x y \<le> 0) (sort strcmp a)"
  using str_order.sort_sorts by (simp add: strcmp_lex lex_cmp_eq)

end
