(* ===== verification/Disp.thy ===== *)
theory Disp
  imports Func
begin

text \<open>
  The console of \<^verbatim>\<open>io/disp.c\<close>: the number formatter and the \<^verbatim>\<open>printf\<close> state machine,
  and the VGA text screen with its cursor, scrolling and backspace. A text buffer is the
  list of the bytes written to it so far, with the capacity of the buffer as a bound.
\<close>

section \<open>Formatting numbers\<close>

definition n2c :: "u8 \<Rightarrow> u8" where
  "n2c num = (if num \<le> 9 then num + chr CHR ''0'' else num - 10 + chr CHR ''A'')"

text \<open>\<^verbatim>\<open>tempbuf\<close> has 16 bytes and is filled from its end.\<close>

definition put_temp :: "u8 \<Rightarrow> u8 list \<Rightarrow> u8 list res" where
  "put_temp c tempbuf = (if length tempbuf < 16 then Inr (c # tempbuf) else Inl Fault)"

function digits_loop :: "u32 \<Rightarrow> u32 \<Rightarrow> u8 list \<Rightarrow> u8 list res" where
  "digits_loop num basenum tempbuf =
     (if num = 0 then Inr tempbuf
      else if basenum = 0 then Inl Fault
      else if 16 \<le> length tempbuf then Inl Fault
      else digits_loop (num div basenum) basenum (n2c (ucast (num mod basenum)) # tempbuf))"
  by pat_completeness auto
termination
  by (relation "measure (\<lambda>(num, base, tempbuf). 16 - length tempbuf)") auto

declare digits_loop.simps [simp del]

definition num_digits :: "u32 \<Rightarrow> u8 \<Rightarrow> u8 list res" where
  "num_digits num basenum =
     (if num = 0 then Inr [chr CHR ''0''] else digits_loop num (ucast basenum) [])"

definition num_fmt :: "u32 \<Rightarrow> u8 \<Rightarrow> u16 \<Rightarrow> u8 \<Rightarrow> u8 \<Rightarrow> u8 list res" where
  "num_fmt num basenum width prefix flag =
     bindE (num_digits num basenum) (\<lambda>ds.
     bindE (if prefix \<noteq> 0 then put_temp prefix ds else Inr ds) (\<lambda>tempbuf.
     let len = length tempbuf
     in if unat width \<le> len then Inr tempbuf
        else if flag = chr CHR ''#'' then Inr (replicate (unat width - len) (chr CHR ''0'') @ tempbuf)
        else if flag = chr CHR '' '' then Inr (replicate (unat width - len) (chr CHR '' '') @ tempbuf)
        else if flag = chr CHR ''+'' then Inr (tempbuf @ replicate (unat width - len) (chr CHR '' ''))
        else Inl Die))"

section \<open>The printf state machine\<close>

datatype printf_state = S_CHAR | S_PRE_FLAG | S_PRE_WIDTH | S_PRE_PERC | S_PRE_F_N_H_L

record printer =
  p_out :: "u8 list"
  p_state :: printf_state
  p_width :: u16
  p_flag :: u8
  p_args :: "u32 list"

definition emit :: "nat \<Rightarrow> u8 list \<Rightarrow> printer \<Rightarrow> printer res" where
  "emit cap bs p =
     (if length (p_out p) + length bs \<le> cap then Inr (p\<lparr>p_out := p_out p @ bs\<rparr>) else Inl Fault)"

definition next_arg :: "printer \<Rightarrow> (u32 \<times> printer) res" where
  "next_arg p = (case p_args p of [] \<Rightarrow> Inl Fault | a # as \<Rightarrow> Inr (a, p\<lparr>p_args := as\<rparr>))"

abbreviation to_char :: "printer \<Rightarrow> printer res" where
  "to_char p \<equiv> Inr (p\<lparr>p_state := S_CHAR\<rparr>)"

text \<open>One round of the loop of \<^verbatim>\<open>vsprintf\<close>; \<open>strs\<close> gives the C string at an address.\<close>

definition vsprintf_step :: "(u32 \<Rightarrow> cstr) \<Rightarrow> nat \<Rightarrow> u8 \<Rightarrow> printer \<Rightarrow> printer res" where
  "vsprintf_step strs cap ch p =
     (if p_state p \<noteq> S_CHAR then
        if ch \<in> {chr CHR ''#'', chr CHR ''+'', chr CHR ''-'', chr CHR '' ''} then
          bindE (assertE (p_state p = S_PRE_FLAG))
            (\<lambda>_. Inr (p\<lparr>p_flag := ch, p_state := S_PRE_WIDTH\<rparr>))
        else if chr CHR ''0'' \<le> ch \<and> ch \<le> chr CHR ''9'' then
          bindE (assertE (p_state p = S_PRE_FLAG \<or> p_state p = S_PRE_WIDTH))
            (\<lambda>_. Inr (p\<lparr>p_width := p_width p * 10 + ucast (ch - chr CHR ''0'')\<rparr>))
        else if ch = chr CHR ''.'' then
          bindE (assertE (p_state p = S_PRE_FLAG \<or> p_state p = S_PRE_WIDTH))
            (\<lambda>_. Inr (p\<lparr>p_state := S_PRE_PERC\<rparr>))
        else if ch = chr CHR ''d'' \<or> ch = chr CHR ''i'' then
          bindE (next_arg p) (\<lambda>(i, p).
          bindE (if i <s 0 then num_fmt (- i) 10 (p_width p) (chr CHR ''-'') (p_flag p)
                 else num_fmt i 10 (p_width p) 0 (p_flag p)) (\<lambda>bs.
          bindE (emit cap bs p) to_char))
        else if ch = chr CHR ''x'' \<or> ch = chr CHR ''X'' then
          bindE (next_arg p) (\<lambda>(i, p).
          bindE (num_fmt i 16 (p_width p) 0 (p_flag p)) (\<lambda>bs.
          bindE (emit cap bs p) to_char))
        else if ch = chr CHR ''c'' then
          bindE (next_arg p) (\<lambda>(i, p). bindE (emit cap [ucast i] p) to_char)
        else if ch = chr CHR ''s'' then
          bindE (next_arg p) (\<lambda>(i, p). bindE (emit cap (text_of (strs i)) p) to_char)
        else if ch = chr CHR ''%'' then bindE (emit cap [chr CHR ''%''] p) to_char
        else Inl Die
      else if ch = chr CHR ''%'' then
        Inr (p\<lparr>p_state := S_PRE_FLAG, p_width := 0, p_flag := chr CHR '' ''\<rparr>)
      else emit cap [ch] p)"

fun vsprintf_loop :: "(u32 \<Rightarrow> cstr) \<Rightarrow> nat \<Rightarrow> cstr \<Rightarrow> printer \<Rightarrow> printer res" where
  "vsprintf_loop strs cap [] p = Inr p"
| "vsprintf_loop strs cap (ch # fmt) p =
     (if ch = 0 then Inr p
      else bindE (vsprintf_step strs cap ch p) (vsprintf_loop strs cap fmt))"

text \<open>
  The text put in a buffer of \<open>cap\<close> bytes, without the closing NUL, which needs room too;
  its length is the result of \<^verbatim>\<open>vsprintf\<close>. The buffers are far below the 65536 bytes at
  which the 16-bit index would wrap.
\<close>

definition vsprintf :: "(u32 \<Rightarrow> cstr) \<Rightarrow> nat \<Rightarrow> cstr \<Rightarrow> u32 list \<Rightarrow> u8 list res" where
  "vsprintf strs cap fmt args =
     bindE (vsprintf_loop strs cap fmt
              \<lparr>p_out = [], p_state = S_CHAR, p_width = 0, p_flag = chr CHR '' '', p_args = args\<rparr>)
       (\<lambda>p. if length (p_out p) < cap then Inr (p_out p) else Inl Fault)"

section \<open>The number formatter is right\<close>

lemma digits_loop_ok:
  "unat num < unat b ^ k \<Longrightarrow> length tmp + k \<le> 16 \<Longrightarrow> 2 \<le> unat b \<Longrightarrow>
     \<exists>r. digits_loop num b tmp = Inr r \<and> length r \<le> length tmp + k"
proof (induction k arbitrary: num tmp)
  case 0
  then show ?case by (subst digits_loop.simps) (auto simp: unat_eq_0)
next
  case (Suc k)
  have b: "b \<noteq> 0" using Suc.prems(3) by auto
  have "unat (num div b) < unat b ^ k"
    using Suc.prems by (simp add: unat_div div_less_iff_less_mult mult.commute)
  then obtain r where "digits_loop (num div b) b (n2c (ucast (num mod b)) # tmp) = Inr r"
      "length r \<le> Suc (length tmp) + k"
    using Suc.IH [of "num div b" "n2c (ucast (num mod b)) # tmp"] Suc.prems by auto
  then show ?case using b Suc.prems by (subst digits_loop.simps) auto
qed

lemma digit_of_n2c:
  assumes "d < 16"
  shows "digit_of (n2c (ucast d)) = Some d" "n2c (ucast d) \<noteq> 0"
proof -
  have d: "d = of_nat (unat d)" "unat d < 16" using assms by (auto simp: word_less_nat_alt)
  have "unat d \<in> {0..<16}" using d by auto
  then have "unat d \<in> set [0..<16]" by simp
  moreover have "\<forall>n\<in>set [0..<16]. digit_of (n2c (ucast (of_nat n :: u32))) = Some (of_nat n) \<and>
                                 n2c (ucast (of_nat n :: u32)) \<noteq> 0"
    by code_simp
  ultimately show "digit_of (n2c (ucast d)) = Some d" "n2c (ucast d) \<noteq> 0" using d(1) by metis+
qed

lemma digits_loop_num:
  "digits_loop num b tmp = Inr r \<Longrightarrow> b \<le> 16 \<Longrightarrow>
     str2num_loop b 0 r = str2num_loop b num tmp \<and>
     (\<forall>c\<in>set r. c \<in> set tmp \<or> (c \<noteq> 0 \<and> digit_of c \<noteq> None))"
proof (induction num b tmp rule: digits_loop.induct)
  case (1 num b tmp)
  show ?case
  proof (cases "num = 0")
    case True
    then show ?thesis using 1(2) by (simp add: digits_loop.simps)
  next
    case False
    have b: "b \<noteq> 0" and len: "length tmp < 16"
      and r: "digits_loop (num div b) b (n2c (ucast (num mod b)) # tmp) = Inr r"
      using 1(2) False by (auto simp: digits_loop.simps [of num] split: if_splits)
    have "num mod b < 16" using b 1(3) by (metis order_less_le_trans word_mod_less_divisor word_neq_0_conv)
    note d = digit_of_n2c [OF this]
    have "str2num_loop b 0 r = str2num_loop b (num div b * b + num mod b) tmp \<and>
      (\<forall>c\<in>set r. c \<in> set (n2c (ucast (num mod b)) # tmp) \<or> (c \<noteq> 0 \<and> digit_of c \<noteq> None))"
      using 1(1) [OF False b _ r 1(3)] len d by simp
    then show ?thesis using d by (auto simp: word_mod_div_equality)
  qed
qed

lemma num_digits_ok:
  assumes "b \<in> {8, 10, 16}"
  shows "\<exists>ds. num_digits num b = Inr ds \<and> length ds \<le> 11 \<and> ds \<noteq> [] \<and>
    (\<forall>c\<in>set ds. c \<noteq> 0 \<and> digit_of c \<noteq> None) \<and> str2num_loop (ucast b) 0 ds = num"
proof (cases "num = 0")
  case True
  have "digit_of (chr CHR ''0'') = Some 0" "chr CHR ''0'' \<noteq> 0" by code_simp+
  then show ?thesis using True by (simp add: num_digits_def)
next
  case False
  define b' where "b' = (ucast b :: u32)"
  have b: "8 \<le> unat b'" "b' \<le> 16" using assms by (auto simp: b'_def word_le_nat_alt)
  have "unat num < 2 ^ 32" using unsigned_less [of num] by simp
  also have "(2::nat) ^ 32 < 8 ^ 11" by simp
  also have "8 ^ 11 \<le> unat b' ^ 11" using b by (intro power_mono) auto
  finally obtain r where r: "digits_loop num b' [] = Inr r" "length r \<le> 11"
    using digits_loop_ok [of num b' 11 "[]"] b by auto
  then have "str2num_loop b' 0 r = num \<and> (\<forall>c\<in>set r. c \<noteq> 0 \<and> digit_of c \<noteq> None)"
    using digits_loop_num [OF r(1) b(2)] by auto
  moreover then have "r \<noteq> []" using False by auto
  ultimately show ?thesis using r False by (simp add: num_digits_def b'_def)
qed

lemma num_fmt_ok:
  assumes b: "b \<in> {8, 10, 16}" and f: "flag \<in> {chr CHR ''#'', chr CHR '' '', chr CHR ''+''}"
  obtains ds out where "num_digits num b = Inr ds" "num_fmt num b width prefix flag = Inr out"
    "length out = max (unat width) (length ds + (if prefix \<noteq> 0 then 1 else 0))"
    "\<exists>l r. out = l @ (if prefix \<noteq> 0 then [prefix] else []) @ ds @ r"
proof -
  obtain ds where ds: "num_digits num b = Inr ds" "length ds \<le> 11"
    using num_digits_ok [OF b] by blast
  define t where "t = (if prefix \<noteq> 0 then prefix # ds else ds)"
  have t: "(if prefix \<noteq> 0 then put_temp prefix ds else Inr ds) = Inr t"
    using ds by (simp add: put_temp_def t_def)
  define n where "n = unat width - length t"
  define out where "out = (if unat width \<le> length t then t
    else if flag = chr CHR ''#'' then replicate n (chr CHR ''0'') @ t
    else if flag = chr CHR '' '' then replicate n (chr CHR '' '') @ t
    else t @ replicate n (chr CHR '' ''))"
  have "\<exists>l r. out = l @ t @ r"
    by (auto simp: out_def intro: exI [of _ "[]"])
  show ?thesis
  proof (rule that [OF ds(1), of out])
    show "num_fmt num b width prefix flag = Inr out"
      using ds t f unfolding num_fmt_def by (auto simp: Let_def out_def n_def)
    show "length out = max (unat width) (length ds + (if prefix \<noteq> 0 then 1 else 0))"
      by (auto simp: out_def n_def t_def)
    show "\<exists>l r. out = l @ (if prefix \<noteq> 0 then [prefix] else []) @ ds @ r"
      using \<open>\<exists>l r. out = l @ t @ r\<close> by (cases "prefix = 0") (simp_all add: t_def)
  qed
qed

text \<open>Zero padding keeps the number readable for \<^verbatim>\<open>str2num\<close>.\<close>

lemma str2num_loop_pad: "str2num_loop b 0 (replicate n (chr CHR ''0'') @ ds) = str2num_loop b 0 ds"
proof (induction n)
  case (Suc n)
  have "digit_of (chr CHR ''0'') = Some 0" "chr CHR ''0'' \<noteq> 0" by code_simp+
  then show ?case using Suc by simp
qed simp

lemma num_fmt_zero_padded:
  assumes "b \<in> {8, 10, 16}"
  obtains out where "num_fmt num b width 0 (chr CHR ''#'') = Inr out"
    "(\<forall>c\<in>set out. digit_of c \<noteq> None)" "str2num_loop (ucast b) 0 out = num"
    "unat width \<le> length out"
proof -
  obtain ds where ds: "num_digits num b = Inr ds" "\<forall>c\<in>set ds. digit_of c \<noteq> None"
      "str2num_loop (ucast b) 0 ds = num"
    using num_digits_ok [OF assms] by blast
  have zero: "digit_of (chr CHR ''0'') \<noteq> None" by code_simp
  show ?thesis
  proof (rule that [of "replicate (unat width - length ds) (chr CHR ''0'') @ ds"])
    show "num_fmt num b width 0 (chr CHR ''#'') =
        Inr (replicate (unat width - length ds) (chr CHR ''0'') @ ds)"
      using ds(1) by (simp add: num_fmt_def Let_def)
  qed (use ds zero in \<open>auto simp: str2num_loop_pad\<close>)
qed

lemma str2num_decimal:
  assumes "\<forall>c\<in>set out. digit_of c \<noteq> None"
  shows "str2num out = str2num_loop 10 0 out"
proof -
  have "digit_of (chr CHR ''x'') = None" "digit_of (chr CHR ''X'') = None"
    "chr CHR ''x'' \<noteq> 0" "chr CHR ''X'' \<noteq> 0" by code_simp+
  then have "ch_at (tl out) \<noteq> chr CHR ''x'' \<and> ch_at (tl out) \<noteq> chr CHR ''X''"
    using assms by (cases out; cases "tl out") auto
  then show ?thesis by (simp add: str2num_def)
qed

lemma str2num_hex: "str2num (chr CHR ''0'' # chr CHR ''x'' # out) = str2num_loop 16 0 out"
  by (simp add: str2num_def)

section \<open>What printf means\<close>

text \<open>A format as the pieces it is made of, and the text each piece stands for.\<close>

datatype conv = CDec | CHex | CChr | CStr | CPct
datatype piece = Lit "u8 list" | Conv "u8 option" "u8 list" conv

fun conv_char :: "conv \<Rightarrow> u8" where
  "conv_char CDec = chr CHR ''d''"
| "conv_char CHex = chr CHR ''x''"
| "conv_char CChr = chr CHR ''c''"
| "conv_char CStr = chr CHR ''s''"
| "conv_char CPct = chr CHR ''%''"

fun piece_text :: "piece \<Rightarrow> u8 list" where
  "piece_text (Lit bs) = bs"
| "piece_text (Conv f w c) = chr CHR ''%'' # (case f of None \<Rightarrow> [] | Some x \<Rightarrow> [x]) @ w @ [conv_char c]"

definition flag_chars :: "u8 set" where
  "flag_chars = {chr CHR ''#'', chr CHR ''+'', chr CHR ''-'', chr CHR '' ''}"

definition is_dec :: "u8 \<Rightarrow> bool" where
  "is_dec ch \<longleftrightarrow> chr CHR ''0'' \<le> ch \<and> ch \<le> chr CHR ''9''"

fun piece_ok :: "piece \<Rightarrow> bool" where
  "piece_ok (Lit bs) = (0 \<notin> set bs \<and> chr CHR ''%'' \<notin> set bs)"
| "piece_ok (Conv f w c) = ((\<forall>x. f = Some x \<longrightarrow> x \<in> flag_chars) \<and> (\<forall>d\<in>set w. is_dec d))"

definition width_val :: "u8 list \<Rightarrow> u16" where
  "width_val w = foldl (\<lambda>v d. v * 10 + ucast (d - chr CHR ''0'')) 0 w"

fun piece_out :: "(u32 \<Rightarrow> cstr) \<Rightarrow> piece \<Rightarrow> u32 list \<Rightarrow> (u8 list \<times> u32 list) res" where
  "piece_out strs (Lit bs) args = Inr (bs, args)"
| "piece_out strs (Conv f w CPct) args = Inr ([chr CHR ''%''], args)"
| "piece_out strs (Conv f w c) [] = Inl Fault"
| "piece_out strs (Conv f w CDec) (i # args) =
     bindE (if i <s 0 then num_fmt (- i) 10 (width_val w) (chr CHR ''-'') (case_option (chr CHR '' '') id f)
            else num_fmt i 10 (width_val w) 0 (case_option (chr CHR '' '') id f))
       (\<lambda>bs. Inr (bs, args))"
| "piece_out strs (Conv f w CHex) (i # args) =
     bindE (num_fmt i 16 (width_val w) 0 (case_option (chr CHR '' '') id f)) (\<lambda>bs. Inr (bs, args))"
| "piece_out strs (Conv f w CChr) (i # args) = Inr ([ucast i], args)"
| "piece_out strs (Conv f w CStr) (i # args) = Inr (text_of (strs i), args)"

fun printf_out :: "(u32 \<Rightarrow> cstr) \<Rightarrow> piece list \<Rightarrow> u32 list \<Rightarrow> u8 list res" where
  "printf_out strs [] args = Inr []"
| "printf_out strs (p # ps) args =
     bindE (piece_out strs p args) (\<lambda>(bs, args).
     bindE (printf_out strs ps args) (\<lambda>rest. Inr (bs @ rest)))"

lemma vsprintf_loop_append:
  "0 \<notin> set s \<Longrightarrow> vsprintf_loop strs cap (s @ t) p =
     bindE (vsprintf_loop strs cap s p) (vsprintf_loop strs cap t)"
  by (induction s arbitrary: p) (auto simp: bindE_assoc cong: bindE_cong)

lemma vsprintf_lit:
  "0 \<notin> set bs \<Longrightarrow> chr CHR ''%'' \<notin> set bs \<Longrightarrow> p_state p = S_CHAR \<Longrightarrow>
     length (p_out p) + length bs \<le> cap \<Longrightarrow>
     vsprintf_loop strs cap bs p = Inr (p\<lparr>p_out := p_out p @ bs\<rparr>)"
  by (induction bs arbitrary: p) (auto simp: vsprintf_step_def emit_def)

lemma vsprintf_step_digit:
  "is_dec d \<Longrightarrow> p_state p \<in> {S_PRE_FLAG, S_PRE_WIDTH} \<Longrightarrow>
     d \<noteq> 0 \<and> vsprintf_step strs cap d p = Inr (p\<lparr>p_width := p_width p * 10 + ucast (d - chr CHR ''0'')\<rparr>)"
proof -
  assume d: "is_dec d" and s: "p_state p \<in> {S_PRE_FLAG, S_PRE_WIDTH}"
  have "d \<noteq> chr CHR ''#''" "d \<noteq> chr CHR ''+''" "d \<noteq> chr CHR ''-''" "d \<noteq> chr CHR '' ''" "d \<noteq> 0"
    using d by (auto simp: is_dec_def chr_def word_le_nat_alt)
  then show ?thesis using d s by (auto simp: vsprintf_step_def is_dec_def)
qed

lemma vsprintf_width:
  "\<forall>d\<in>set w. is_dec d \<Longrightarrow> p_state p \<in> {S_PRE_FLAG, S_PRE_WIDTH} \<Longrightarrow>
     vsprintf_loop strs cap w p =
     Inr (p\<lparr>p_width := foldl (\<lambda>v d. v * 10 + ucast (d - chr CHR ''0'')) (p_width p) w\<rparr>)"
proof (induction w arbitrary: p)
  case (Cons d w)
  then show ?case using vsprintf_step_digit [of d p strs cap] by simp
qed simp

lemma piece_nul_free: "piece_ok q \<Longrightarrow> 0 \<notin> set (piece_text q)"
proof (cases q)
  case (Conv f w c)
  have "\<not> is_dec 0" by (simp add: is_dec_def chr_def)
  moreover have "conv_char c \<noteq> 0" "chr CHR ''%'' \<noteq> 0" by (cases c; simp add: chr_def)+
  ultimately show "piece_ok q \<Longrightarrow> 0 \<notin> set (piece_text q)"
    using Conv by (auto simp: flag_chars_def chr_def split: option.splits)
qed auto

lemma vsprintf_flag:
  "x \<in> flag_chars \<Longrightarrow> p_state p = S_PRE_FLAG \<Longrightarrow>
     x \<noteq> 0 \<and> vsprintf_step strs cap x p = Inr (p\<lparr>p_flag := x, p_state := S_PRE_WIDTH\<rparr>)"
  by (auto simp: flag_chars_def vsprintf_step_def chr_def)

lemma conv_char_step:
  assumes st: "p_state p \<in> {S_PRE_FLAG, S_PRE_WIDTH}"
    and out: "piece_out strs (Conv f w c) (p_args p) = Inr (bs, args)"
    and w: "p_width p = width_val w" and f: "p_flag p = case_option (chr CHR '' '') id f"
    and cap: "length (p_out p) + length bs \<le> cap"
  shows "vsprintf_loop strs cap [conv_char c] p =
     Inr (p\<lparr>p_out := p_out p @ bs, p_args := args, p_state := S_CHAR\<rparr>)"
proof (cases c)
  case CPct
  then show ?thesis using st out cap
    by (cases p) (auto simp: vsprintf_step_def chr_def emit_def)
next
  case CDec
  then show ?thesis using st out cap w f
    by (cases "p_args p")
       (auto simp: vsprintf_step_def chr_def emit_def next_arg_def bindE_eq_Inr split: if_splits)
next
  case CHex
  then show ?thesis using st out cap w f
    by (cases "p_args p")
       (auto simp: vsprintf_step_def chr_def emit_def next_arg_def bindE_eq_Inr split: if_splits)
next
  case CChr
  then show ?thesis using st out cap
    by (cases "p_args p") (auto simp: vsprintf_step_def chr_def emit_def next_arg_def)
next
  case CStr
  then show ?thesis using st out cap
    by (cases "p_args p") (auto simp: vsprintf_step_def chr_def emit_def next_arg_def)
qed

lemma vsprintf_piece:
  assumes "piece_ok q" "p_state p = S_CHAR" "piece_out strs q (p_args p) = Inr (bs, args)"
    "length (p_out p) + length bs \<le> cap"
  obtains p' where "vsprintf_loop strs cap (piece_text q) p = Inr p'"
    "p_out p' = p_out p @ bs" "p_args p' = args" "p_state p' = S_CHAR"
proof (cases q)
  case (Lit ts)
  then show ?thesis
    using assms by (intro that [of "p\<lparr>p_out := p_out p @ bs\<rparr>"]) (auto simp: vsprintf_lit)
next
  case (Conv f w c)
  define p1 where "p1 = p\<lparr>p_state := S_PRE_FLAG, p_width := 0, p_flag := chr CHR '' ''\<rparr>"
  define p2 where "p2 = (case f of None \<Rightarrow> p1 | Some x \<Rightarrow> p1\<lparr>p_flag := x, p_state := S_PRE_WIDTH\<rparr>)"
  define p3 where "p3 = p2\<lparr>p_width := width_val w\<rparr>"
  have fl: "x \<in> flag_chars" if "f = Some x" for x using assms(1) Conv that by simp
  have w: "\<forall>d\<in>set w. is_dec d" using assms(1) Conv by simp
  have "0 \<notin> set w" using vsprintf_step_digit [of _ p1] w by (auto simp: p1_def)
  have s1: "vsprintf_loop strs cap [chr CHR ''%''] p = Inr p1"
    using assms(2) by (simp add: vsprintf_step_def p1_def) (simp add: chr_def)
  have s2: "vsprintf_loop strs cap (case f of None \<Rightarrow> [] | Some x \<Rightarrow> [x]) p1 = Inr p2"
    using fl vsprintf_flag [of _ p1 strs cap] by (auto simp: p2_def p1_def split: option.splits)
  have "p_width p2 = 0" "p_state p2 \<in> {S_PRE_FLAG, S_PRE_WIDTH}" "p_args p2 = p_args p"
    "p_out p2 = p_out p" "p_flag p2 = case_option (chr CHR '' '') id f"
    by (auto simp: p2_def p1_def split: option.splits)
  note p2 = this
  have s3: "vsprintf_loop strs cap w p2 = Inr p3"
    using vsprintf_width [OF w p2(2)] p2(1) by (simp add: p3_def width_val_def)
  have s4: "vsprintf_loop strs cap [conv_char c] p3 =
      Inr (p3\<lparr>p_out := p_out p3 @ bs, p_args := args, p_state := S_CHAR\<rparr>)"
    using assms Conv p2 by (intro conv_char_step [where f = f and w = w]) (auto simp: p3_def)
  have nul: "0 \<notin> set (case f of None \<Rightarrow> [] | Some x \<Rightarrow> [x])" "chr CHR ''%'' \<noteq> 0"
    using fl by (auto simp: flag_chars_def chr_def split: option.splits)
  have "vsprintf_loop strs cap ([chr CHR ''%''] @ (case f of None \<Rightarrow> [] | Some x \<Rightarrow> [x]) @ w @ [conv_char c]) p =
      Inr (p3\<lparr>p_out := p_out p3 @ bs, p_args := args, p_state := S_CHAR\<rparr>)"
    using nul \<open>0 \<notin> set w\<close>
    by (simp add: vsprintf_loop_append s1 s2 s3 s4 del: vsprintf_loop.simps append.simps)
  then show ?thesis using Conv p2 by (intro that) (auto simp: p3_def)
qed

lemma vsprintf_pieces:
  "\<forall>q\<in>set qs. piece_ok q \<Longrightarrow> p_state p = S_CHAR \<Longrightarrow>
     printf_out strs qs (p_args p) = Inr bs \<Longrightarrow> length (p_out p) + length bs \<le> cap \<Longrightarrow>
     \<exists>p'. vsprintf_loop strs cap (concat (map piece_text qs)) p = Inr p' \<and> p_out p' = p_out p @ bs"
proof (induction qs arbitrary: p bs)
  case (Cons q qs)
  obtain b1 args b2 where q: "piece_out strs q (p_args p) = Inr (b1, args)"
      and qs: "printf_out strs qs args = Inr b2" and bs: "bs = b1 @ b2"
    using Cons.prems(3) by (auto simp: bindE_eq_Inr)
  have "0 \<notin> set (piece_text q)" using Cons.prems(1) by (simp add: piece_nul_free)
  moreover obtain p' where p': "vsprintf_loop strs cap (piece_text q) p = Inr p'"
      "p_out p' = p_out p @ b1" "p_args p' = args" "p_state p' = S_CHAR"
    using vsprintf_piece [OF _ Cons.prems(2) q, of cap] Cons.prems(1,4) bs by auto
  moreover obtain p'' where "vsprintf_loop strs cap (concat (map piece_text qs)) p' = Inr p''"
      "p_out p'' = p_out p' @ b2"
    using Cons.IH [of p' b2] Cons.prems p' qs bs by auto
  ultimately show ?case using bs by (simp add: vsprintf_loop_append)
qed simp

lemma vsprintf_refines:
  "\<forall>q\<in>set qs. piece_ok q \<Longrightarrow> printf_out strs qs args = Inr bs \<Longrightarrow> length bs < cap \<Longrightarrow>
     vsprintf strs cap (concat (map piece_text qs)) args = Inr bs"
  using vsprintf_pieces [of qs "\<lparr>p_out = [], p_state = S_CHAR, p_width = 0,
    p_flag = chr CHR '' '', p_args = args\<rparr>" strs bs cap]
  by (auto simp: vsprintf_def)

section \<open>Properties\<close>



text \<open>
  What \<^verbatim>\<open>num_fmt\<close> prints with zero padding, \<^verbatim>\<open>str2num\<close> reads back: decimal as it is,
  hexadecimal after \<^verbatim>\<open>0x\<close>. The output fills the width.
\<close>

lemma num_fmt_str2num:
  "(\<exists>out. num_fmt num 10 width 0 (chr CHR ''#'') = Inr out \<and> unat width \<le> length out \<and> str2num out = num) \<and>
   (\<exists>out. num_fmt num 16 width 0 (chr CHR ''#'') = Inr out \<and> unat width \<le> length out \<and>
     str2num (chr CHR ''0'' # chr CHR ''x'' # out) = num)"
proof
  obtain o1 where "num_fmt num 10 width 0 (chr CHR ''#'') = Inr o1" "\<forall>c\<in>set o1. digit_of c \<noteq> None"
      "str2num_loop 10 0 o1 = num" "unat width \<le> length o1"
    using num_fmt_zero_padded [of 10 num width] by auto
  then show "\<exists>out. num_fmt num 10 width 0 (chr CHR ''#'') = Inr out \<and> unat width \<le> length out \<and> str2num out = num"
    by (auto simp: str2num_decimal)
  obtain o2 where "num_fmt num 16 width 0 (chr CHR ''#'') = Inr o2"
      "str2num_loop 16 0 o2 = num" "unat width \<le> length o2"
    using num_fmt_zero_padded [of 16 num width] by auto
  then show "\<exists>out. num_fmt num 16 width 0 (chr CHR ''#'') = Inr out \<and> unat width \<le> length out \<and>
     str2num (chr CHR ''0'' # chr CHR ''x'' # out) = num"
    by (auto simp: str2num_hex)
qed

end
