(* ===== verification/Vga.thy ===== *)
theory Vga
  imports Disp
begin

text \<open>
  The VGA text console of \<^verbatim>\<open>io/disp.c\<close>. The screen memory at \<^verbatim>\<open>VGA_RAMBASE\<close> is the list of
  its 16-bit cells; an access outside it is a \<open>Fault\<close>. The cursor registers 14 and 15 are two
  bytes of the state. Positions are natural numbers: on the 80 x 25 screen of
  \<^verbatim>\<open>vga_console_init\<close> they stay far from the 16-bit bounds.
\<close>

section \<open>The code\<close>

record vga =
  x_pos :: nat
  y_pos :: nat
  x_max :: nat
  y_max :: nat
  vram :: "u16 list"
  reg14 :: u8
  reg15 :: u8
  spcdisp_swch :: bool
  spcbuff :: "u8 list"

definition VGA_TABLE_WIDTH :: nat where
  "VGA_TABLE_WIDTH = 8"

definition blank :: u16 where
  "blank = 0x720"

definition cell_of :: "u8 \<Rightarrow> u16" where
  "cell_of ch = push_bit 8 7 OR scast ch"

definition poke :: "nat \<Rightarrow> u16 \<Rightarrow> vga \<Rightarrow> vga res" where
  "poke i v s = (if i < length (vram s) then Inr (s\<lparr>vram := (vram s)[i := v]\<rparr>) else Inl Fault)"

definition vga_set_cursal :: "vga \<Rightarrow> vga" where
  "vga_set_cursal s =
     (let cur = of_nat (x_max s * y_pos s + x_pos s) :: u16
      in s\<lparr>reg14 := ucast (drop_bit 8 cur), reg15 := ucast cur\<rparr>)"

definition vga_bks :: "vga \<Rightarrow> vga res" where
  "vga_bks s =
     (if x_pos s = 0 \<and> y_pos s = 0 then Inr s
      else
        let s = (if x_pos s = 0 then s\<lparr>x_pos := x_max s - 1, y_pos := y_pos s - 1\<rparr>
                 else s\<lparr>x_pos := x_pos s - 1\<rparr>)
        in bindE (poke (x_max s * y_pos s + x_pos s) blank s) (\<lambda>s. Inr (vga_set_cursal s)))"

definition vga_screen_clear :: "vga \<Rightarrow> vga res" where
  "vga_screen_clear s =
     (let n = x_max s * y_max s
      in if length (vram s) < n then Inl Fault
         else Inr (vga_set_cursal (s\<lparr>vram := replicate n blank @ drop n (vram s), x_pos := 0, y_pos := 0\<rparr>)))"

text \<open>Scrolling: copy line \<open>j\<close> to line \<open>j - 1\<close>, cell by cell, then blank the last line.\<close>

fun copy_cells :: "nat \<Rightarrow> nat \<Rightarrow> nat \<Rightarrow> u16 list \<Rightarrow> u16 list" where
  "copy_cells src dst 0 v = v"
| "copy_cells src dst (Suc n) v = copy_cells (src + 1) (dst + 1) n (v[dst := v ! src])"

fun copy_lines :: "nat \<Rightarrow> nat \<Rightarrow> nat \<Rightarrow> u16 list \<Rightarrow> u16 list" where
  "copy_lines xm j 0 v = v"
| "copy_lines xm j (Suc n) v = copy_lines xm (j + 1) n (copy_cells (xm * j) (xm * (j - 1)) xm v)"

fun fill_cells :: "nat \<Rightarrow> nat \<Rightarrow> u16 list \<Rightarrow> u16 list" where
  "fill_cells dst 0 v = v"
| "fill_cells dst (Suc n) v = fill_cells (dst + 1) n (v[dst := blank])"

definition vga_scroll :: "vga \<Rightarrow> vga res" where
  "vga_scroll s =
     (if y_pos s = y_max s then
        if length (vram s) < x_max s * y_max s then Inl Fault
        else Inr (s\<lparr>vram := fill_cells (x_max s * (y_max s - 1)) (x_max s)
                             (copy_lines (x_max s) 1 (y_max s - 1) (vram s)),
                    y_pos := y_pos s - 1\<rparr>)
      else Inr s)"

definition vga_putc :: "u8 \<Rightarrow> vga \<Rightarrow> vga res" where
  "vga_putc ch s =
     (if ch = 10 then Inr (s\<lparr>x_pos := 0, y_pos := y_pos s + 1\<rparr>)
      else if ch = 8 then vga_bks s
      else if ch = 9 then
        (let x = push_bit 3 (drop_bit 3 (x_pos s + VGA_TABLE_WIDTH))
         in if x_max s \<le> x then Inr (s\<lparr>x_pos := 0, y_pos := y_pos s + 1\<rparr>)
            else Inr (s\<lparr>x_pos := x\<rparr>))
      else
        bindE (poke (x_max s * y_pos s + x_pos s) (cell_of ch) s) (\<lambda>s.
          if x_pos s + 1 = x_max s then Inr (s\<lparr>x_pos := 0, y_pos := y_pos s + 1\<rparr>)
          else Inr (s\<lparr>x_pos := x_pos s + 1\<rparr>)))"

definition vga_write_ch :: "u8 \<Rightarrow> vga \<Rightarrow> vga res" where
  "vga_write_ch ch s =
     bindE (vga_putc ch s) (\<lambda>s. bindE (vga_scroll s) (\<lambda>s. Inr (vga_set_cursal s)))"

fun vga_write_loop :: "cstr \<Rightarrow> nat \<Rightarrow> vga \<Rightarrow> vga res" where
  "vga_write_loop [] len s = Inr s"
| "vga_write_loop (ch # str) len s =
     (if ch = 0 then Inr s
      else case len of
             0 \<Rightarrow> Inr s
           | Suc len \<Rightarrow> bindE (vga_write_ch ch s) (vga_write_loop str len))"

text \<open>The reserved field at the right of line 0.\<close>

fun poke_all :: "nat \<Rightarrow> u16 list \<Rightarrow> vga \<Rightarrow> vga res" where
  "poke_all i [] s = Inr s"
| "poke_all i (v # vs) s = bindE (poke i v s) (poke_all (i + 1) vs)"

definition show_spcbuff :: "vga \<Rightarrow> vga res" where
  "show_spcbuff s =
     (if spcdisp_swch s then
        if x_max s < length (spcbuff s) then Inl Fault
        else poke_all (x_max s - length (spcbuff s)) (map cell_of (spcbuff s)) s
      else Inr s)"

definition vga_console_write :: "cstr \<Rightarrow> nat \<Rightarrow> vga \<Rightarrow> vga res" where
  "vga_console_write str len s = bindE (vga_write_loop str len s) show_spcbuff"

definition vga_console_spcdisp :: "u8 list \<Rightarrow> nat \<Rightarrow> bool \<Rightarrow> vga \<Rightarrow> vga res" where
  "vga_console_spcdisp buf len swch s =
     (if \<not> swch then Inr (s\<lparr>spcdisp_swch := False\<rparr>)
      else
        let size = length (spcbuff s); len = min len size
        in if length buf < len then Inl Fault
           else show_spcbuff (s\<lparr>spcbuff := replicate (size - len) 0 @ take len buf, spcdisp_swch := True\<rparr>))"

definition vga_console_init :: "vga \<Rightarrow> vga" where
  "vga_console_init s =
     (let cur_pos = push_bit 8 (ucast (reg14 s)) OR ucast (reg15 s) :: u16
      in s\<lparr>x_max := 80, y_max := 25, x_pos := unat cur_pos mod 80, y_pos := unat cur_pos div 80\<rparr>)"

definition disp_init :: "vga \<Rightarrow> vga res" where
  "disp_init s = vga_screen_clear (vga_console_init s)"

section \<open>The screen invariant\<close>

definition vga_ok :: "vga \<Rightarrow> bool" where
  "vga_ok s \<longleftrightarrow> x_pos s < x_max s \<and> y_pos s < y_max s \<and> length (vram s) = x_max s * y_max s \<and>
     length (spcbuff s) \<le> x_max s"

lemma set_cursal_simps [simp]:
  "x_pos (vga_set_cursal s) = x_pos s" "y_pos (vga_set_cursal s) = y_pos s"
  "x_max (vga_set_cursal s) = x_max s" "y_max (vga_set_cursal s) = y_max s"
  "vram (vga_set_cursal s) = vram s" "spcbuff (vga_set_cursal s) = spcbuff s"
  "spcdisp_swch (vga_set_cursal s) = spcdisp_swch s"
  by (simp_all add: vga_set_cursal_def Let_def)

lemma cell_index: "(x::nat) < xm \<Longrightarrow> y < ym \<Longrightarrow> xm * y + x < xm * ym"
proof -
  assume "x < xm" "y < ym"
  then have "xm * y + x < xm * y + xm" "xm * Suc y \<le> xm * ym"
    by (simp, intro mult_le_mono2) auto
  then show ?thesis by (simp add: algebra_simps)
qed

lemma poke_ok: "i < length (vram s) \<Longrightarrow> poke i v s = Inr (s\<lparr>vram := (vram s)[i := v]\<rparr>)"
  by (simp add: poke_def)

lemma length_copy_cells [simp]: "length (copy_cells src dst n v) = length v"
  by (induction n arbitrary: src dst v) auto

lemma length_copy_lines [simp]: "length (copy_lines xm j n v) = length v"
  by (induction n arbitrary: j v) auto

lemma length_fill_cells [simp]: "length (fill_cells d n v) = length v"
  by (induction n arbitrary: d v) auto

lemma copy_cells_nth:
  "dst < src \<Longrightarrow> src + n \<le> length v \<Longrightarrow>
     copy_cells src dst n v ! i = (if dst \<le> i \<and> i < dst + n then v ! (i + (src - dst)) else v ! i)"
proof (induction n arbitrary: src dst v)
  case (Suc n)
  then show ?case by (auto simp: nth_list_update)
qed auto

lemma fill_cells_nth:
  "d + n \<le> length v \<Longrightarrow> fill_cells d n v ! i = (if d \<le> i \<and> i < d + n then blank else v ! i)"
  by (induction n arbitrary: d v) (auto simp: nth_list_update)

lemma copy_lines_nth:
  "0 < xm \<Longrightarrow> 0 < j \<Longrightarrow> xm * (j + n) \<le> length v \<Longrightarrow>
     copy_lines xm j n v ! i =
       (if xm * (j - 1) \<le> i \<and> i < xm * (j - 1 + n) then v ! (i + xm) else v ! i)"
proof (induction n arbitrary: j v)
  case (Suc n)
  define w where "w = copy_cells (xm * j) (xm * (j - 1)) xm v"
  have j: "xm * j = xm * (j - 1) + xm" using Suc.prems by (cases j) auto
  have "xm * j + xm \<le> length v" using Suc.prems by (simp add: algebra_simps)
  then have w: "w ! i = (if xm * (j - 1) \<le> i \<and> i < xm * j then v ! (i + xm) else v ! i)" for i
    using Suc.prems j by (simp add: w_def copy_cells_nth)
  have "copy_lines xm (j + 1) n w ! i =
      (if xm * j \<le> i \<and> i < xm * (j + n) then w ! (i + xm) else w ! i)"
    using Suc.prems by (subst Suc.IH) (auto simp: w_def)
  moreover have "copy_lines xm j (Suc n) v ! i = copy_lines xm (j + 1) n w ! i"
    by (simp add: w_def)
  moreover obtain k where "j = Suc k" using Suc.prems(2) by (cases j) auto
  ultimately show ?case by (auto simp: w algebra_simps)
qed auto

text \<open>One scroll drops the first line and adds a blank one.\<close>

lemma scroll_vram:
  assumes "0 < xm" "0 < ym" "length v = xm * ym"
  shows "fill_cells (xm * (ym - 1)) xm (copy_lines xm 1 (ym - 1) v) = drop xm v @ replicate xm blank"
proof (rule nth_equalityI)
  have ym: "xm * ym = xm * (ym - 1) + xm" using assms by (cases ym) auto
  show "length (fill_cells (xm * (ym - 1)) xm (copy_lines xm 1 (ym - 1) v)) =
      length (drop xm v @ replicate xm blank)"
    using assms ym by simp
  fix i assume "i < length (fill_cells (xm * (ym - 1)) xm (copy_lines xm 1 (ym - 1) v))"
  then have i: "i < xm * (ym - 1) + xm" using assms ym by simp
  have "copy_lines xm 1 (ym - 1) v ! i = (if i < xm * (ym - 1) then v ! (i + xm) else v ! i)"
    using assms by (subst copy_lines_nth) auto
  moreover have "fill_cells (xm * (ym - 1)) xm (copy_lines xm 1 (ym - 1) v) ! i =
      (if xm * (ym - 1) \<le> i then blank else copy_lines xm 1 (ym - 1) v ! i)"
    using assms ym i by (subst fill_cells_nth) auto
  ultimately show "fill_cells (xm * (ym - 1)) xm (copy_lines xm 1 (ym - 1) v) ! i =
      (drop xm v @ replicate xm blank) ! i"
    using assms ym i by (auto simp: nth_append add.commute)
qed

section \<open>Writing to the screen\<close>

lemma vga_scroll_ok:
  assumes "vga_ok (s\<lparr>y_pos := 0\<rparr>)" "y_pos s \<le> y_max s"
  obtains s' where "vga_scroll s = Inr s'" "vga_ok s'" "x_max s' = x_max s" "y_max s' = y_max s"
    "x_pos s' = x_pos s" "spcdisp_swch s' = spcdisp_swch s"
    "y_pos s' = (if y_pos s = y_max s then y_max s - 1 else y_pos s)"
    "vram s' = (if y_pos s = y_max s then drop (x_max s) (vram s) @ replicate (x_max s) blank
                else vram s)"
proof -
  have v: "fill_cells (x_max s * (y_max s - 1)) (x_max s) (copy_lines (x_max s) 1 (y_max s - 1) (vram s)) =
      drop (x_max s) (vram s) @ replicate (x_max s) blank"
    using assms by (intro scroll_vram) (auto simp: vga_ok_def)
  have "x_max s \<le> x_max s * y_max s" using assms by (auto simp: vga_ok_def)
  then show ?thesis
    using assms v by (intro that [of "if y_pos s = y_max s then s\<lparr>vram := drop (x_max s) (vram s) @
      replicate (x_max s) blank, y_pos := y_max s - 1\<rparr> else s"]) (auto simp: vga_scroll_def vga_ok_def)
qed

lemma vga_bks_ok:
  assumes "vga_ok s"
  obtains s' where "vga_bks s = Inr s'" "vga_ok s'" "x_max s' = x_max s" "y_max s' = y_max s"
proof (cases "x_pos s = 0 \<and> y_pos s = 0")
  case True
  then show ?thesis using assms by (intro that [of s]) (auto simp: vga_bks_def)
next
  case False
  define t where "t = (if x_pos s = 0 then s\<lparr>x_pos := x_max s - 1, y_pos := y_pos s - 1\<rparr>
                       else s\<lparr>x_pos := x_pos s - 1\<rparr>)"
  have t: "vga_ok t" using assms False by (auto simp: t_def vga_ok_def)
  then have "x_max t * y_pos t + x_pos t < length (vram t)"
    using cell_index by (auto simp: vga_ok_def)
  then have "vga_bks s = Inr (vga_set_cursal (t\<lparr>vram := (vram t)[x_max t * y_pos t + x_pos t := blank]\<rparr>))"
    unfolding vga_bks_def if_not_P [OF False] Let_def t_def [symmetric] by (simp add: poke_ok)
  moreover have "x_max t = x_max s" "y_max t = y_max s" by (auto simp: t_def)
  ultimately show ?thesis using t by (intro that) (assumption, auto simp: vga_ok_def)
qed

lemma vga_putc_ok:
  assumes "vga_ok s"
  shows "\<exists>s'. vga_putc ch s = Inr s' \<and> vga_ok (s'\<lparr>y_pos := 0\<rparr>) \<and> y_pos s' \<le> y_max s' \<and>
    x_max s' = x_max s \<and> y_max s' = y_max s"
proof (cases "ch = 8")
  case True
  obtain s' where "vga_bks s = Inr s'" "vga_ok s'" "x_max s' = x_max s" "y_max s' = y_max s"
    by (rule vga_bks_ok [OF assms])
  then show ?thesis using True by (auto simp: vga_putc_def vga_ok_def)
next
  case False
  have "x_max s * y_pos s + x_pos s < length (vram s)"
    using assms cell_index by (auto simp: vga_ok_def)
  then show ?thesis
    using assms False
    by (auto simp: vga_putc_def vga_ok_def Let_def poke_ok)
qed

lemma vga_write_ch_ok:
  assumes "vga_ok s"
  shows "\<exists>s'. vga_write_ch ch s = Inr s' \<and> vga_ok s' \<and> x_max s' = x_max s \<and> y_max s' = y_max s"
proof -
  obtain t where t: "vga_putc ch s = Inr t" "vga_ok (t\<lparr>y_pos := 0\<rparr>)" "y_pos t \<le> y_max t"
      "x_max t = x_max s" "y_max t = y_max s"
    using vga_putc_ok [OF assms] by blast
  obtain u where "vga_scroll t = Inr u" "vga_ok u" "x_max u = x_max t" "y_max u = y_max t"
    by (rule vga_scroll_ok [OF t(2,3)]) blast
  then show ?thesis using t by (auto simp: vga_write_ch_def vga_ok_def)
qed

lemma vga_write_loop_ok:
  "vga_ok s \<Longrightarrow> \<exists>s'. vga_write_loop str len s = Inr s' \<and> vga_ok s' \<and>
     x_max s' = x_max s \<and> y_max s' = y_max s"
proof (induction str len s rule: vga_write_loop.induct)
  case (2 ch str len s)
  show ?case
  proof (cases "ch = 0 \<or> len = 0")
    case False
    then obtain n where n: "len = Suc n" by (cases len) auto
    obtain t where t: "vga_write_ch ch s = Inr t" "vga_ok t" "x_max t = x_max s" "y_max t = y_max s"
      using vga_write_ch_ok [OF 2(2)] by blast
    then show ?thesis using 2(1) [of n t] False n by auto
  qed (use 2(2) in auto)
qed simp

lemma poke_all_ok:
  "i + length vs \<le> length (vram s) \<Longrightarrow>
     \<exists>v. poke_all i vs s = Inr (s\<lparr>vram := v\<rparr>) \<and> length v = length (vram s)"
proof (induction vs arbitrary: i s)
  case (Cons v vs)
  then show ?case using Cons.IH [of "i + 1" "s\<lparr>vram := (vram s)[i := v]\<rparr>"] by (simp add: poke_ok)
next
  case Nil
  then show ?case by (intro exI [of _ "vram s"]) simp
qed

lemma show_spcbuff_ok:
  "vga_ok s \<Longrightarrow> \<exists>s'. show_spcbuff s = Inr s' \<and> vga_ok s'"
proof -
  assume s: "vga_ok s"
  then have "x_max s \<le> length (vram s)" by (auto simp: vga_ok_def)
  then have "\<exists>v. poke_all (x_max s - length (spcbuff s)) (map cell_of (spcbuff s)) s = Inr (s\<lparr>vram := v\<rparr>) \<and>
      length v = length (vram s)"
    using s by (intro poke_all_ok) (auto simp: vga_ok_def)
  then show ?thesis using s by (auto simp: show_spcbuff_def vga_ok_def)
qed

lemma vga_console_write_ok:
  "vga_ok s \<Longrightarrow> \<exists>s'. vga_console_write str len s = Inr s' \<and> vga_ok s'"
  using vga_write_loop_ok [of s str len] show_spcbuff_ok by (auto simp: vga_console_write_def)

lemma vga_console_spcdisp_ok:
  "vga_ok s \<Longrightarrow> len \<le> length buf \<Longrightarrow> \<exists>s'. vga_console_spcdisp buf len swch s = Inr s' \<and> vga_ok s'"
proof -
  assume s: "vga_ok s" and len: "len \<le> length buf"
  define n where "n = min len (length (spcbuff s))"
  define t where "t = s\<lparr>spcbuff := replicate (length (spcbuff s) - n) 0 @ take n buf, spcdisp_swch := True\<rparr>"
  have "vga_ok t" using s len by (auto simp: t_def vga_ok_def n_def)
  then obtain t' where "show_spcbuff t = Inr t'" "vga_ok t'" using show_spcbuff_ok by blast
  then show ?thesis using s len
    by (cases swch) (auto simp: vga_console_spcdisp_def Let_def n_def [symmetric] t_def [symmetric] vga_ok_def
      dest: min.cobounded1 [THEN le_trans])
qed

lemma disp_init_ok:
  assumes "length (vram s) = 2000" "length (spcbuff s) \<le> 80"
  shows "\<exists>s'. disp_init s = Inr s' \<and> vga_ok s' \<and> vram s' = replicate 2000 blank \<and>
    x_pos s' = 0 \<and> y_pos s' = 0"
  using assms
  by (simp add: disp_init_def vga_screen_clear_def vga_console_init_def Let_def vga_ok_def)

lemma vga_write_loop_append:
  "0 \<notin> set s \<Longrightarrow> vga_write_loop (s @ t) (length s + n) v =
     bindE (vga_write_loop s (length s) v) (vga_write_loop t n)"
  by (induction s arbitrary: v) (auto simp: bindE_assoc intro: bindE_cong)

text \<open>A printable byte goes to the cursor's cell and a backspace takes it away again.\<close>

lemma vga_write_backspace:
  assumes s: "vga_ok s" and x: "x_pos s + 1 < x_max s" and ch: "ch \<notin> {0, 8, 9, 10}"
    and b: "vram s ! (x_max s * y_pos s + x_pos s) = blank"
  shows "vga_write_loop [ch, 8] (Suc (Suc 0)) s = Inr (vga_set_cursal s)"
proof -
  define i where "i = x_max s * y_pos s + x_pos s"
  have i: "i < length (vram s)" using s cell_index by (auto simp: vga_ok_def i_def)
  define t where "t = vga_set_cursal (s\<lparr>vram := (vram s)[i := cell_of ch], x_pos := x_pos s + 1\<rparr>)"
  have y: "y_pos s \<noteq> y_max s" using s by (simp add: vga_ok_def)
  have 1: "vga_write_ch ch s = Inr t"
    using i ch x y by (simp add: vga_write_ch_def vga_putc_def poke_ok i_def [symmetric] vga_scroll_def t_def)
  have undo: "((vram s)[i := cell_of ch])[i := blank] = vram s"
    using i b by (metis i_def list_update_id list_update_overwrite)
  have 2: "vga_bks t = Inr (vga_set_cursal s)"
  proof -
    have "vga_bks t = bindE (poke i blank (t\<lparr>x_pos := x_pos s\<rparr>)) (\<lambda>s. Inr (vga_set_cursal s))"
      by (simp add: vga_bks_def t_def i_def)
    also have "\<dots> = Inr (vga_set_cursal s)"
      using i undo by (simp add: poke_ok t_def vga_set_cursal_def Let_def)
    finally show ?thesis .
  qed
  have "vga_write_ch 8 t = Inr (vga_set_cursal s)"
    using 2 y by (simp add: vga_write_ch_def vga_putc_def vga_scroll_def)
      (simp add: vga_set_cursal_def Let_def)
  then show ?thesis using 1 ch by simp
qed

section \<open>Properties\<close>



text \<open>
  A line feed on the last line scrolls the screen: every line moves up by one, the last one
  becomes blank and the cursor goes to its first column.
\<close>

lemma vga_newline_scrolls:
  assumes "vga_ok s" "y_pos s + 1 = y_max s"
  shows "\<exists>s'. vga_write_ch 10 s = Inr s' \<and> vram s' = drop (x_max s) (vram s) @ replicate (x_max s) blank \<and>
    x_pos s' = 0 \<and> y_pos s' + 1 = y_max s'"
proof -
  define t where "t = s\<lparr>x_pos := 0, y_pos := y_pos s + 1\<rparr>"
  have "vga_ok (t\<lparr>y_pos := 0\<rparr>)" "y_pos t \<le> y_max t" using assms by (auto simp: t_def vga_ok_def)
  then obtain u where "vga_scroll t = Inr u" "vram u = drop (x_max t) (vram t) @ replicate (x_max t) blank"
      "x_pos u = x_pos t" "y_pos u = y_max t - 1" "y_max u = y_max t" "vga_ok u"
    by (rule vga_scroll_ok) (use assms in \<open>auto simp: t_def\<close>)
  moreover have "vga_putc 10 s = Inr t" by (simp add: vga_putc_def t_def)
  ultimately show ?thesis using assms by (auto simp: vga_write_ch_def t_def)
qed

end
