(* ===== verification/Checksum.thy ===== *)
theory Checksum
  imports Prelude
begin

text \<open>
  The internet checksum of \<^verbatim>\<open>core/net.c\<close>, \<^verbatim>\<open>checksum_calc\<close>. The buffer is the list of the
  bytes from the pointer on; reading past its end is a \<open>Fault\<close>. The index \<^verbatim>\<open>num\<close> is one byte
  wide, as in the code, so it wraps after 256 bytes.
\<close>

section \<open>The code\<close>

definition byte_at :: "u8 list \<Rightarrow> nat \<Rightarrow> u8 res" where
  "byte_at p i = (if i < length p then Inr (p ! i) else Inl Fault)"

fun cksum_loop :: "u8 list \<Rightarrow> u32 \<Rightarrow> nat \<Rightarrow> u8 \<Rightarrow> u32 res" where
  "cksum_loop p cksum 0 num = Inr cksum"
| "cksum_loop p cksum (Suc 0) num =
     bindE (byte_at p (unat num)) (\<lambda>b. Inr (cksum + push_bit 8 (ucast b)))"
| "cksum_loop p cksum (Suc (Suc len)) num =
     bindE (byte_at p (unat num)) (\<lambda>b1.
     bindE (byte_at p (unat num + 1)) (\<lambda>b2.
     cksum_loop p (cksum + (push_bit 8 (ucast b1) OR ucast b2)) len (num + 2)))"

lemma drop_bit_16_word32: "unat (drop_bit 16 (c :: u32)) = unat c div 2 ^ 16"
  by (simp add: unat_drop_bit)

lemma take_16_word32: "unat ((c :: u32) AND 0xFFFF) = unat c mod 2 ^ 16"
proof -
  have "c AND 0xFFFF = take_bit 16 c" by (simp add: take_bit_eq_mask mask_eq_exp_minus_1)
  then show ?thesis by (simp add: unat_take_bit)
qed

function cksum_fold :: "u32 \<Rightarrow> u32" where
  "cksum_fold cksum =
     (if drop_bit 16 cksum \<noteq> 0 then cksum_fold ((cksum AND 0xFFFF) + drop_bit 16 cksum) else cksum)"
  by pat_completeness auto

lemma fold_step: "unat (((c :: u32) AND 0xFFFF) + drop_bit 16 c) = unat c mod 2 ^ 16 + unat c div 2 ^ 16"
proof -
  have "unat c < 2 ^ 32" using unsigned_less [of c] by simp
  then have "unat c div 2 ^ 16 < 2 ^ 16" by (simp add: less_mult_imp_div_less)
  then show ?thesis
    by (subst unat_add_no_wrap) (simp_all add: take_16_word32 drop_bit_16_word32)
qed

termination cksum_fold
proof (relation "measure unat")
  fix c :: u32 assume "drop_bit 16 c \<noteq> 0"
  then have "unat c div 2 ^ 16 \<noteq> 0" by (metis drop_bit_16_word32 unat_eq_0)
  moreover have "r + 2 ^ 16 * q = n \<Longrightarrow> q \<noteq> 0 \<Longrightarrow> r + q < n" for r q n :: nat by simp
  ultimately have "unat c mod 2 ^ 16 + unat c div 2 ^ 16 < unat c"
    by (metis mod_mult_div_eq)
  then show "((c AND 0xFFFF) + drop_bit 16 c, c) \<in> measure unat" by (simp only: in_measure fold_step)
qed simp

declare cksum_fold.simps [simp del]

definition checksum_calc :: "u32 \<Rightarrow> u8 list \<Rightarrow> nat \<Rightarrow> u16 res" where
  "checksum_calc cksum p len =
     (if len = 0 then Inr (ucast cksum)
      else bindE (cksum_loop p cksum len 0) (\<lambda>c. Inr (NOT (ucast (cksum_fold c)))))"

section \<open>The ones' complement sum\<close>

fun word_sum :: "u8 list \<Rightarrow> nat" where
  "word_sum [] = 0"
| "word_sum [b] = 256 * unat b"
| "word_sum (b1 # b2 # p) = 256 * unat b1 + unat b2 + word_sum p"

lemma cksum_fold_range: "unat (cksum_fold c) < 2 ^ 16"
proof (induction c rule: cksum_fold.induct)
  case (1 c)
  show ?case
  proof (cases "drop_bit 16 c = 0")
    case True
    then have "unat c div 2 ^ 16 = 0" by (metis drop_bit_16_word32 unat_eq_0)
    then show ?thesis using True by (subst cksum_fold.simps) (simp add: div_eq_0_iff)
  next
    case False
    then show ?thesis using 1 by (subst cksum_fold.simps) simp
  qed
qed

lemma cksum_fold_mod: "unat (cksum_fold c) mod 65535 = unat c mod 65535"
proof (induction c rule: cksum_fold.induct)
  case (1 c)
  have "unat c = unat c mod 2 ^ 16 + 2 ^ 16 * (unat c div 2 ^ 16)" by (simp only: mod_mult_div_eq)
  then have "unat c = unat c mod 2 ^ 16 + unat c div 2 ^ 16 + 65535 * (unat c div 2 ^ 16)" by simp
  then have "unat c mod 65535 = (unat c mod 2 ^ 16 + unat c div 2 ^ 16) mod 65535"
    by (metis mod_mult_self2)
  then show ?case using 1 by (subst cksum_fold.simps) (simp only: fold_step split: if_split, simp)
qed

lemma cksum_fold_zero: "cksum_fold c = 0 \<longleftrightarrow> c = 0"
proof (induction c rule: cksum_fold.induct)
  case (1 c)
  have "(c AND 0xFFFF) + drop_bit 16 c \<noteq> 0" if "drop_bit 16 c \<noteq> 0"
    using fold_step [of c] that drop_bit_16_word32 [of c]
    by (metis add_is_0 unat_0 unat_eq_0)
  then show ?case using 1 by (subst cksum_fold.simps) auto
qed

text \<open>Folding a nonzero sum gives its residue modulo 65535 among 1 to 65535.\<close>

lemma cksum_fold_full:
  "unat (cksum_fold c) = 65535 \<longleftrightarrow> c \<noteq> 0 \<and> unat c mod 65535 = 0"
proof -
  have "unat (cksum_fold c) mod 65535 = 0 \<longleftrightarrow> unat (cksum_fold c) \<in> {0, 65535}"
    using cksum_fold_range [of c] by (auto simp: mod_eq_0_iff_dvd elim!: dvdE)
  moreover have "unat (cksum_fold c) = 0 \<longleftrightarrow> c = 0"
    using cksum_fold_zero [of c] unat_eq_0 by metis
  ultimately show ?thesis using cksum_fold_mod [of c] by auto
qed

lemma be_high: "unat (push_bit 8 (ucast (b :: u8)) :: u32) = 256 * unat b"
  using unat_u8_lt [of b] by (subst unat_push_bit_small) (auto simp: unat_ucast_up)

lemma be_word: "unat (push_bit 8 (ucast b1) OR ucast b2 :: u32) = 256 * unat (b1 :: u8) + unat (b2 :: u8)"
proof -
  have "push_bit 8 (ucast b1) OR ucast b2 = push_bit 8 (ucast b1) + (ucast b2 :: u32)"
    by (subst disjunctive_add) (auto simp: bit_simps dest: bit_imp_le_length)
  moreover note be_high [of b1]
  moreover have "unat (ucast b2 :: u32) = unat b2" by (simp add: unat_ucast_up)
  moreover note unat_u8_lt [of b1] unat_u8_lt [of b2]
  ultimately show ?thesis by (simp add: unat_add_no_wrap)
qed

text \<open>Up to 256 bytes the loop computes the sum of the big-endian 16-bit words.\<close>

lemma word_sum_bound: "word_sum p \<le> 65535 * (length p + 1)"
proof (induction p rule: word_sum.induct)
  case (2 b)
  show ?case using unat_u8_lt [of b] by simp
next
  case (3 b1 b2 p)
  then show ?case using unat_u8_lt [of b1] unat_u8_lt [of b2] by simp
qed simp

lemma cksum_loop_sum:
  "n + len \<le> length p \<Longrightarrow> n + len \<le> 256 \<Longrightarrow> even n \<Longrightarrow>
     cksum_loop p c len (of_nat n) = Inr (c + of_nat (word_sum (take len (drop n p))))"
proof (induction len arbitrary: n c rule: induct_nat_012)
  case 0
  then show ?case by simp
next
  case 1
  then have "unat (of_nat n :: u8) = n" by (intro unat_of_nat_small) auto
  moreover have "push_bit 8 (ucast (p ! n)) = (of_nat (256 * unat (p ! n)) :: u32)"
    by (rule word_of_unat) (rule be_high)
  ultimately show ?case using 1 by (simp add: byte_at_def take_Suc hd_drop_conv_nth)
next
  case (ge2 len)
  have n: "unat (of_nat n :: u8) = n" using ge2.prems by (intro unat_of_nat_small) auto
  have w: "push_bit 8 (ucast (p ! n)) OR ucast (p ! Suc n) =
      (of_nat (256 * unat (p ! n) + unat (p ! Suc n)) :: u32)"
    by (rule word_of_unat) (rule be_word)
  have "drop n p = p ! n # p ! Suc n # drop (Suc (Suc n)) p"
    using ge2.prems Cons_nth_drop_Suc [of n p] Cons_nth_drop_Suc [of "Suc n" p] by simp
  moreover have "cksum_loop p c' len (of_nat n + 2) =
      Inr (c' + of_nat (word_sum (take len (drop (Suc (Suc n)) p))))" for c'
    using ge2.IH(1) [of "Suc (Suc n)" c'] ge2.prems by (simp add: add.commute)
  ultimately show ?case using ge2.prems n w by (simp add: byte_at_def add.assoc)
qed

text \<open>The value of the code's checksum.\<close>

definition ones_sum :: "u8 list \<Rightarrow> u16" where
  "ones_sum p = ucast (cksum_fold (of_nat (word_sum p)))"

lemma checksum_calc_value:
  "len \<noteq> 0 \<Longrightarrow> len \<le> length p \<Longrightarrow> len \<le> 256 \<Longrightarrow>
     checksum_calc 0 p len = Inr (NOT (ones_sum (take len p)))"
  using cksum_loop_sum [of 0 len p 0] by (simp add: checksum_calc_def ones_sum_def)

lemma ones_sum_unat: "unat (ones_sum p) = unat (cksum_fold (of_nat (word_sum p)))"
  using cksum_fold_range by (simp add: ones_sum_def unsigned_ucast_eq take_bit_nat_eq_self)

lemma ones_sum_full:
  "length p \<le> 256 \<Longrightarrow> ones_sum p = - 1 \<longleftrightarrow> word_sum p \<noteq> 0 \<and> word_sum p mod 65535 = 0"
proof -
  assume "length p \<le> 256"
  then have u: "unat (of_nat (word_sum p) :: u32) = word_sum p"
    using word_sum_bound [of p] by (intro unat_of_nat_small) simp
  have "unat (- 1 :: u16) = 65535" by (simp add: unsigned_minus_1_eq_mask mask_eq_exp_minus_1)
  then have "ones_sum p = - 1 \<longleftrightarrow> unat (ones_sum p) = 65535"
    by (simp only: word_unat_eq_iff [of "ones_sum p"])
  moreover have "(of_nat (word_sum p) :: u32) = 0 \<longleftrightarrow> word_sum p = 0"
  proof
    assume "(of_nat (word_sum p) :: u32) = 0"
    then have "unat (of_nat (word_sum p) :: u32) = unat (0 :: u32)" by (rule arg_cong)
    then show "word_sum p = 0" using u by simp
  qed simp
  ultimately show ?thesis
    using u by (simp add: ones_sum_unat cksum_fold_full)
qed

text \<open>A receiver accepts (the checksum is 0) exactly when the words sum to 0 modulo 65535.\<close>

definition sum_ok :: "u8 list \<Rightarrow> bool" where
  "sum_ok p \<longleftrightarrow> word_sum p \<noteq> 0 \<and> word_sum p mod 65535 = 0"

lemma checksum_accepts:
  "len \<noteq> 0 \<Longrightarrow> len \<le> length p \<Longrightarrow> len \<le> 256 \<Longrightarrow>
     checksum_calc 0 p len = Inr 0 \<longleftrightarrow> sum_ok (take len p)"
proof -
  assume a: "len \<noteq> 0" "len \<le> length p" "len \<le> 256"
  have "NOT (ones_sum (take len p)) = 0 \<longleftrightarrow> ones_sum (take len p) = - 1"
    by (metis bit.compl_zero bit.double_compl)
  then show ?thesis using a ones_sum_full [of "take len p"]
    by (simp add: checksum_calc_value sum_ok_def)
qed

lemma word_sum_append: "even (length p) \<Longrightarrow> word_sum (p @ q) = word_sum p + word_sum q"
  by (induction p rule: word_sum.induct) auto

text \<open>Writing the computed checksum into its zeroed field makes the receiver accept.\<close>

lemma checksum_fill:
  assumes p: "p = a @ [0, 0] @ b" "even (length a)" "length p \<le> 256"
    and c: "checksum_calc 0 p (length p) = Inr c"
  shows "sum_ok (a @ [ucast (drop_bit 8 c), ucast c] @ b)"
proof -
  have ne: "length p \<noteq> 0" using p by simp
  have u: "unat (of_nat (word_sum p) :: u32) = word_sum p"
    using word_sum_bound [of p] p by (intro unat_of_nat_small) simp
  define f where "f = unat (ones_sum p)"
  have f: "f < 65536" "f mod 65535 = word_sum p mod 65535" "f = 0 \<longleftrightarrow> word_sum p = 0"
    using cksum_fold_range [of "of_nat (word_sum p)"] cksum_fold_mod [of "of_nat (word_sum p)"]
      cksum_fold_zero [of "of_nat (word_sum p)"] u
    by (simp_all add: f_def ones_sum_unat) (metis unat_0 unat_eq_0)
  have "c = NOT (ones_sum p)" using c ne p(3) by (simp add: checksum_calc_value)
  then have "c = - 1 - ones_sum p" by (simp add: not_eq_complement)
  moreover have "ones_sum p \<le> - 1" by simp
  ultimately have uc: "unat c = 65535 - f"
    by (simp add: unat_sub f_def unsigned_minus_1_eq_mask mask_eq_exp_minus_1)
  have bytes: "256 * unat (ucast (drop_bit 8 c) :: u8) + unat (ucast c :: u8) = unat c"
  proof -
    have "unat (drop_bit 8 c) = unat c div 256" by (simp add: unat_drop_bit)
    moreover have "unat c < 2 ^ 16" using unsigned_less [of c] by simp
    ultimately show ?thesis by (simp add: unsigned_ucast_eq take_bit_eq_mod)
  qed
  have "word_sum (a @ [ucast (drop_bit 8 c), ucast c] @ b) = word_sum p + unat c"
    using p(1,2) bytes by (simp add: word_sum_append)
  moreover have "(word_sum p + (65535 - f)) mod 65535 = 0"
  proof -
    have "(word_sum p + (65535 - f)) mod 65535 = (f + (65535 - f)) mod 65535"
      using f(2) by (metis mod_add_left_eq)
    also have "f + (65535 - f) = 65535" using f(1) by simp
    finally show ?thesis by simp
  qed
  moreover have "word_sum p + (65535 - f) \<noteq> 0" using f by auto
  ultimately show ?thesis using uc by (simp add: sum_ok_def)
qed

text \<open>Beyond 256 bytes the index wraps: those bytes are never read.\<close>

lemma cksum_loop_blind:
  "take 256 p = take 256 q \<Longrightarrow> 256 \<le> length p \<Longrightarrow> 256 \<le> length q \<Longrightarrow> even (unat num) \<Longrightarrow>
     cksum_loop p c len num = cksum_loop q c len num"
proof (induction p c len num rule: cksum_loop.induct)
  case (2 p c num)
  have "p ! unat num = q ! unat num"
    using 2(1) unat_u8_lt [of num] by (metis nth_take)
  then show ?case using 2 unat_u8_lt [of num] by (simp add: byte_at_def)
next
  case (3 p c len num)
  have u: "unat num + 1 < 256"
    using 3(5) unat_u8_lt [of num] by presburger
  then have eq: "p ! unat num = q ! unat num" "p ! Suc (unat num) = q ! Suc (unat num)"
    using 3(2) u nth_take [of "unat num" 256 p] nth_take [of "unat num" 256 q]
      nth_take [of "Suc (unat num)" 256 p] nth_take [of "Suc (unat num)" 256 q] by auto
  have "unat (num + 2) = (unat num + 2) mod 256" by (simp add: unat_word_ariths)
  then have "even (unat (num + 2))" using 3(5) by (simp add: dvd_mod_iff)
  then show ?case using 3 u eq by (simp add: byte_at_def)
qed simp

lemma checksum_blind:
  "take 256 p = take 256 q \<Longrightarrow> 256 \<le> length p \<Longrightarrow> 256 \<le> length q \<Longrightarrow>
     checksum_calc c p len = checksum_calc c q len"
  by (simp add: checksum_calc_def cksum_loop_blind [of p q])

section \<open>Properties\<close>

text \<open>
  C36: on up to 256 bytes, storing the checksum computed over the zeroed field makes a receiver's
  check of the whole give 0.
\<close>

theorem checksum_roundtrip:
  assumes "even (length a)" "length (a @ [0, 0] @ b) \<le> 256"
    and "checksum_calc 0 (a @ [0, 0] @ b) (length (a @ [0, 0] @ b)) = Inr c"
  shows "checksum_calc 0 (a @ [ucast (drop_bit 8 c), ucast c] @ b) (length (a @ [0, 0] @ b)) = Inr 0"
proof -
  have "sum_ok (a @ [ucast (drop_bit 8 c), ucast c] @ b)"
    by (rule checksum_fill [OF refl assms(1,2,3)])
  then show ?thesis using assms(2) by (subst checksum_accepts) auto
qed

theorem checksum_roundtrip_witness:
  "checksum_calc 0 [8, 0, 0, 0, 1, 2, 3] 7 = Inr 0xF3FD \<and>
   checksum_calc 0 ([8, 0] @ [ucast (drop_bit 8 (0xF3FD :: u16)), ucast (0xF3FD :: u16)] @ [1, 2, 3])
     (length ([8, 0] @ [0, 0] @ [1, 2, 3 :: u8])) = Inr 0"
proof
  show c: "checksum_calc 0 [8, 0, 0, 0, 1, 2, 3] 7 = Inr 0xF3FD" by code_simp
  show "checksum_calc 0 ([8, 0] @ [ucast (drop_bit 8 (0xF3FD :: u16)), ucast (0xF3FD :: u16)] @ [1, 2, 3])
     (length ([8, 0] @ [0, 0] @ [1, 2, 3 :: u8])) = Inr 0"
    by (rule checksum_roundtrip) (simp, simp, code_simp)
qed

text \<open>
  The byte-wide index of \<^verbatim>\<open>checksum_calc\<close> makes it blind beyond 256 bytes: two buffers
  that agree on their first 256 bytes have the same checksum for every length.
\<close>

lemma checksum_ignores_tail:
  assumes "take 256 p = take 256 q" "256 \<le> length p" "256 \<le> length q"
  shows "checksum_calc c p len = checksum_calc c q len"
  using assms by (rule checksum_blind)

end
