(* ===== verification/Net.thy ===== *)
theory Net
  imports Checksum Func Bits
begin

text \<open>
  The network layer of \<^verbatim>\<open>core/net.c\<close>: the ARP cache, the processing of a received ethernet
  frame, the receive queue, the registered sockets and the sending of UDP packets. A frame
  is the list of the bytes of its buffer and the headers are read and written at their
  offsets in it; an access past the buffer is a \<open>Fault\<close>. What the drivers transmit and what
  the socket callbacks receive is recorded in the state.
\<close>

section \<open>The ARP cache\<close>

record arp_entry =
  e_ip :: "u8 list"
  e_mac :: "u8 list"
  e_valid :: bool

record arpcache =
  entries :: "arp_entry list"
  a_count :: nat

definition arp_expire :: "u8 list \<Rightarrow> u8 list \<Rightarrow> arp_entry \<Rightarrow> arp_entry" where
  "arp_expire ip mac e =
     (let e = (if e_valid e \<and> memcmp (e_ip e) ip = 0 then e\<lparr>e_valid := False\<rparr> else e)
      in if e_valid e \<and> memcmp (e_mac e) mac = 0 then e\<lparr>e_valid := False\<rparr> else e)"

fun arp_put :: "u8 list \<Rightarrow> u8 list \<Rightarrow> arp_entry list \<Rightarrow> arp_entry list option" where
  "arp_put ip mac [] = None"
| "arp_put ip mac (e # es) =
     (if \<not> e_valid e then Some (\<lparr>e_ip = ip, e_mac = mac, e_valid = True\<rparr> # es)
      else map_option ((#) e) (arp_put ip mac es))"

definition arp_insert :: "u8 list \<Rightarrow> u8 list \<Rightarrow> arpcache \<Rightarrow> (int \<times> arpcache) res" where
  "arp_insert ip mac c =
     (let es = map (arp_expire ip mac) (entries c)
      in if a_count c = length es then Inr (- 1, c\<lparr>entries := es\<rparr>)
         else case arp_put ip mac es of
                Some es' \<Rightarrow> Inr (0, c\<lparr>entries := es'\<rparr>)
              | None \<Rightarrow> Inl Die)"

fun arp_lookup :: "u8 list \<Rightarrow> arp_entry list \<Rightarrow> u8 list option" where
  "arp_lookup ip [] = None"
| "arp_lookup ip (e # es) =
     (if e_valid e \<and> memcmp (e_ip e) ip = 0 then Some (e_mac e) else arp_lookup ip es)"

definition arp_getmacaddr :: "u8 list \<Rightarrow> arpcache \<Rightarrow> u8 list option" where
  "arp_getmacaddr ip c = arp_lookup ip (entries c)"

section \<open>Headers\<close>

definition rd :: "nat \<Rightarrow> nat \<Rightarrow> u8 list \<Rightarrow> u8 list res" where
  "rd off n buf = (if off + n \<le> length buf then Inr (take n (drop off buf)) else Inl Fault)"

definition wr :: "nat \<Rightarrow> u8 list \<Rightarrow> u8 list \<Rightarrow> u8 list res" where
  "wr off bs buf =
     (if off + length bs \<le> length buf then Inr (take off buf @ bs @ drop (off + length bs) buf)
      else Inl Fault)"

text \<open>A 16-bit field kept as a high and a low byte.\<close>

definition get16 :: "u8 list \<Rightarrow> u16" where
  "get16 bs = push_bit 8 (ucast (bs ! 0)) OR ucast (bs ! 1)"

definition put16 :: "u16 \<Rightarrow> u8 list" where
  "put16 w = [ucast (drop_bit 8 w), ucast w]"

text \<open>A \<^verbatim>\<open>u16\<close> member as the processor loads and stores it.\<close>

definition load16 :: "u8 list \<Rightarrow> u16" where
  "load16 bs = push_bit 8 (ucast (bs ! 1)) OR ucast (bs ! 0)"

definition store16 :: "u16 \<Rightarrow> u8 list" where
  "store16 w = [ucast w, ucast (drop_bit 8 w)]"

definition L2TYPE_8021Q :: u16 where "L2TYPE_8021Q = 0x8100"
definition L2TYPE_ARP :: u16 where "L2TYPE_ARP = 0x0806"
definition L2TYPE_IPV4 :: u16 where "L2TYPE_IPV4 = 0x0800"
definition ARPOPTYPE_REQ :: u16 where "ARPOPTYPE_REQ = 1"
definition ARPOPTYPE_ACK :: u16 where "ARPOPTYPE_ACK = 2"
definition IPV4PROTOCOL_ICMP :: u8 where "IPV4PROTOCOL_ICMP = 1"
definition IPV4PROTOCOL_UDP :: u8 where "IPV4PROTOCOL_UDP = 17"
definition ICMPTYPE_ECHOREQ :: u8 where "ICMPTYPE_ECHOREQ = 8"
definition ICMPTYPE_ECHOACK :: u8 where "ICMPTYPE_ECHOACK = 0"
definition PORT_ALL :: u16 where "PORT_ALL = 0xFFFF"
definition MINUDP_DATELEN :: u16 where "MINUDP_DATELEN = 18"

definition getipv4totallen :: "nat \<Rightarrow> u8 list \<Rightarrow> u16 res" where
  "getipv4totallen ip buf = bindE (rd (ip + 2) 2 buf) (\<lambda>bs. Inr (get16 bs))"

definition getudp_srcport :: "nat \<Rightarrow> u8 list \<Rightarrow> u16 res" where
  "getudp_srcport udp buf = bindE (rd udp 2 buf) (\<lambda>bs. Inr (get16 bs))"

definition getudp_dstport :: "nat \<Rightarrow> u8 list \<Rightarrow> u16 res" where
  "getudp_dstport udp buf = bindE (rd (udp + 2) 2 buf) (\<lambda>bs. Inr (get16 bs))"

definition getudp_len :: "nat \<Rightarrow> u8 list \<Rightarrow> u16 res" where
  "getudp_len udp buf = bindE (rd (udp + 4) 2 buf) (\<lambda>bs. Inr (get16 bs))"

definition ipv4_ipswap :: "nat \<Rightarrow> u8 list \<Rightarrow> u8 list res" where
  "ipv4_ipswap ip buf =
     bindE (rd (ip + 12) 4 buf) (\<lambda>src. bindE (rd (ip + 16) 4 buf) (\<lambda>dst.
     bindE (wr (ip + 12) dst buf) (wr (ip + 16) src)))"

definition ethii_macswap :: "u8 list \<Rightarrow> u8 list res" where
  "ethii_macswap buf =
     bindE (rd 6 6 buf) (\<lambda>src. bindE (rd 0 6 buf) (\<lambda>dst.
     bindE (wr 6 dst buf) (wr 0 src)))"

section \<open>The network state\<close>

record netdev =
  nd_id :: nat
  nd_mac :: "u8 list"

record ethframe =
  ef_netdev :: netdev
  ef_len :: u16
  ef_buf :: "u8 list"

record sock_context =
  localport :: u16
  destport :: u16
  localip :: "u8 list"
  destip :: "u8 list"
  s_netdev :: "netdev option"
  sock_recv :: "nat option"
  protocol :: u8

text \<open>A call of a socket's callback: the socket, the frame, where the data is and its length.\<close>

record upcall =
  u_cb :: nat
  u_sock :: sock_context
  u_buf :: "u8 list"
  u_data :: nat
  u_len :: u16

record net =
  arpc :: arpcache
  st_total :: u32
  st_ipv4_err :: u32
  st_icmp_err :: u32
  ipaddr :: "u8 list"
  ipmask :: "u8 list"
  valid_sock :: "sock_context list"
  rxef_list :: "ethframe list"
  sent :: "(netdev \<times> u8 list) list"
  upcalls :: "upcall list"

definition ipaddr_any :: "u8 list" where
  "ipaddr_any = [0, 0, 0, 0]"

definition dev_tx :: "netdev \<Rightarrow> u8 list \<Rightarrow> nat \<Rightarrow> net \<Rightarrow> net res" where
  "dev_tx dev bs len s = bindE (rd 0 len bs) (\<lambda>pkt. Inr (s\<lparr>sent := sent s @ [(dev, pkt)]\<rparr>))"

definition learn :: "u8 list \<Rightarrow> u8 list \<Rightarrow> net \<Rightarrow> net res" where
  "learn ip mac s = bindE (arp_insert ip mac (arpc s)) (\<lambda>(_, c). Inr (s\<lparr>arpc := c\<rparr>))"

section \<open>A received frame\<close>

definition arp_proc :: "ethframe \<Rightarrow> net \<Rightarrow> net res" where
  "arp_proc ef s =
     (let buf = ef_buf ef; mac = nd_mac (ef_netdev ef) in
      bindE (rd (14 + 6) 2 buf) (\<lambda>op.
      if SWAP_2B (load16 op) \<noteq> ARPOPTYPE_REQ then Inr s
      else bindE (rd (14 + 24) 4 buf) (\<lambda>dst_ip.
      if memcmp dst_ip (ipaddr s) \<noteq> 0 then Inr s
      else bindE (rd (14 + 14) 4 buf) (\<lambda>src_ip.
      bindE (rd (14 + 8) 6 buf) (\<lambda>src_mac.
      bindE (learn src_ip src_mac s) (\<lambda>s.
      bindE (wr (14 + 6) (store16 (SWAP_2B ARPOPTYPE_ACK)) buf) (\<lambda>buf.
      bindE (wr (14 + 18) src_mac buf) (\<lambda>buf.
      bindE (wr (14 + 24) src_ip buf) (\<lambda>buf.
      bindE (wr (14 + 8) mac buf) (\<lambda>buf.
      bindE (wr (14 + 14) (ipaddr s) buf) (\<lambda>buf.
      bindE (rd 6 6 buf) (\<lambda>srcaddr.
      bindE (wr 0 srcaddr buf) (\<lambda>buf.
      bindE (wr 6 mac buf) (\<lambda>buf.
      dev_tx (ef_netdev ef) buf 64 s))))))))))))))"

definition icmp_proc :: "ethframe \<Rightarrow> nat \<Rightarrow> u16 \<Rightarrow> net \<Rightarrow> net res" where
  "icmp_proc ef icmp l4len s =
     (let buf = ef_buf ef in
      bindE (checksum_calc 0 (drop icmp buf) (unat l4len)) (\<lambda>cksum.
      if cksum \<noteq> 0 then Inr (s\<lparr>st_icmp_err := st_icmp_err s + 1\<rparr>)
      else bindE (rd icmp 1 buf) (\<lambda>ty.
      if ty \<noteq> [ICMPTYPE_ECHOREQ] then Inr s
      else bindE (rd (14 + 12) 4 buf) (\<lambda>src_ip.
      bindE (rd 6 6 buf) (\<lambda>srcaddr.
      bindE (learn src_ip srcaddr s) (\<lambda>s.
      bindE (wr icmp [ICMPTYPE_ECHOACK] buf) (\<lambda>buf.
      bindE (wr (icmp + 2) [0, 0] buf) (\<lambda>buf.
      bindE (checksum_calc 0 (drop icmp buf) (unat l4len)) (\<lambda>cksum.
      bindE (wr (icmp + 2) (put16 cksum) buf) (\<lambda>buf.
      bindE (ipv4_ipswap 14 buf) (\<lambda>buf.
      bindE (ethii_macswap buf) (\<lambda>buf.
      dev_tx (ef_netdev ef) buf (unat (ef_len ef)) s))))))))))))"

text \<open>The tests of the socket loop, in the order of the code.\<close>

definition sock_match :: "u8 list \<Rightarrow> nat \<Rightarrow> sock_context \<Rightarrow> bool res" where
  "sock_match buf udp k =
     (if protocol k \<noteq> IPV4PROTOCOL_UDP then Inr False
      else bindE (getudp_dstport udp buf) (\<lambda>dst.
      if localport k \<noteq> PORT_ALL \<and> localport k \<noteq> dst then Inr False
      else bindE (getudp_srcport udp buf) (\<lambda>src.
      if destport k \<noteq> PORT_ALL \<and> destport k \<noteq> src then Inr False
      else bindE (rd (14 + 16) 4 buf) (\<lambda>dst_ip.
      if memcmp (localip k) ipaddr_any \<noteq> 0 \<and> memcmp (localip k) dst_ip \<noteq> 0 then Inr False
      else bindE (rd (14 + 12) 4 buf) (\<lambda>src_ip.
      Inr (\<not> (memcmp (destip k) ipaddr_any \<noteq> 0 \<and> memcmp (destip k) src_ip \<noteq> 0)))))))"

fun udp_proc :: "ethframe \<Rightarrow> nat \<Rightarrow> sock_context list \<Rightarrow> (sock_context list \<times> upcall list) res" where
  "udp_proc ef udp [] = Inr ([], [])"
| "udp_proc ef udp (k # ks) =
     (case sock_recv k of
        None \<Rightarrow> Inl Die
      | Some cb \<Rightarrow>
          bindE (sock_match (ef_buf ef) udp k) (\<lambda>m.
          if \<not> m then bindE (udp_proc ef udp ks) (\<lambda>(ks', us). Inr (k # ks', us))
          else bindE (getudp_len udp (ef_buf ef)) (\<lambda>len.
            let k' = k\<lparr>s_netdev := Some (ef_netdev ef)\<rparr>;
                u = \<lparr>u_cb = cb, u_sock = k', u_buf = ef_buf ef, u_data = udp + 8, u_len = len - 8\<rparr>
            in bindE (udp_proc ef udp ks) (\<lambda>(ks', us). Inr (k' # ks', u # us)))))"

definition ipv4_proc :: "ethframe \<Rightarrow> net \<Rightarrow> net res" where
  "ipv4_proc ef s =
     (let buf = ef_buf ef in
      bindE (rd 14 1 buf) (\<lambda>b.
      let l3headerlen = unat (b ! 0 AND 0xF) * 4 in
      bindE (getipv4totallen 14 buf) (\<lambda>total.
      let l4len = total - of_nat l3headerlen in
      bindE (checksum_calc 0 (drop 14 buf) l3headerlen) (\<lambda>cksum.
      if cksum \<noteq> 0 then Inr (s\<lparr>st_ipv4_err := st_ipv4_err s + 1\<rparr>)
      else bindE (rd (14 + 9) 1 buf) (\<lambda>prot.
      if prot = [IPV4PROTOCOL_ICMP] then icmp_proc ef (14 + l3headerlen) l4len s
      else if prot = [IPV4PROTOCOL_UDP] then
        bindE (udp_proc ef (14 + l3headerlen) (valid_sock s))
          (\<lambda>(ks, us). Inr (s\<lparr>valid_sock := ks, upcalls := upcalls s @ us\<rparr>))
      else Inr s)))))"

definition efproc :: "ethframe \<Rightarrow> net \<Rightarrow> net res" where
  "efproc ef s =
     bindE (rd 12 2 (ef_buf ef)) (\<lambda>et.
     let ethtype = SWAP_2B (load16 et)
     in if ethtype = L2TYPE_8021Q then Inr s
        else if ethtype = L2TYPE_ARP then arp_proc ef s
        else if ethtype = L2TYPE_IPV4 then ipv4_proc ef s
        else Inr s)"

text \<open>The inner loop of \<^verbatim>\<open>do_fbproc\<close>: empty the queue, oldest frame first.\<close>

fun fbproc_loop :: "ethframe list \<Rightarrow> net \<Rightarrow> net res" where
  "fbproc_loop [] s = Inr s"
| "fbproc_loop (ef # efs) s =
     bindE (efproc ef (s\<lparr>rxef_list := efs, st_total := st_total s + 1\<rparr>)) (fbproc_loop efs)"

definition do_fbproc :: "net \<Rightarrow> net res" where
  "do_fbproc s = fbproc_loop (rxef_list s) s"

definition rxef_insert :: "ethframe \<Rightarrow> net \<Rightarrow> net" where
  "rxef_insert ef s = s\<lparr>rxef_list := rxef_list s @ [ef]\<rparr>"

definition sockctx_register :: "sock_context \<Rightarrow> net \<Rightarrow> int \<times> net" where
  "sockctx_register k s =
     (if sock_recv k = None then (- 1, s) else (0, s\<lparr>valid_sock := valid_sock s @ [k]\<rparr>))"

definition netproc_init :: "net \<Rightarrow> net" where
  "netproc_init s =
     s\<lparr>arpc := (arpc s)\<lparr>entries := map (\<lambda>e. e\<lparr>e_valid := False\<rparr>) (entries (arpc s))\<rparr>,
       ipaddr := [192, 168, 46, 193], ipmask := [255, 255, 255, 0]\<rparr>"

section \<open>Sending\<close>

text \<open>
  \<open>b\<close> is the memory around the caller's buffer and \<open>off\<close> the place of the buffer in it: the
  headers are built in front of the data, in the 42 bytes before \<open>off\<close>.
\<close>

definition ipv4_header_bytes :: "u16 \<Rightarrow> u8 list \<Rightarrow> u8 list \<Rightarrow> u8 list" where
  "ipv4_header_bytes len src dst =
     [push_bit 4 4 OR 5, 0] @ put16 len @ [0, 0, push_bit 5 2, 0, 64, IPV4PROTOCOL_UDP, 0, 0] @ src @ dst"

definition udp_pseudo_bytes :: "sock_context \<Rightarrow> u16 \<Rightarrow> u8 list" where
  "udp_pseudo_bytes k len =
     localip k @ destip k @ [0, IPV4PROTOCOL_UDP] @ put16 len @
     put16 (localport k) @ put16 (destport k) @ put16 len @ [0, 0]"

definition udp_send :: "sock_context \<Rightarrow> nat \<Rightarrow> u16 \<Rightarrow> u8 list \<Rightarrow> net \<Rightarrow> (int \<times> u8 list \<times> net) res" where
  "udp_send k off len b s =
     bindE (assertE (protocol k = IPV4PROTOCOL_UDP)) (\<lambda>_.
     if off < 42 then Inl Fault else
     let len = (if len < MINUDP_DATELEN then MINUDP_DATELEN else len) + 8 in
     bindE (wr (off - 20) (udp_pseudo_bytes k len) b) (\<lambda>b.
     bindE (checksum_calc 0 (drop (off - 20) b) (unat (len + 20 - 8))) (\<lambda>cksum.
     bindE (wr (off - 2) (put16 cksum) b) (\<lambda>b.
     let len = len + 20 in
     bindE (wr (off - 28) (ipv4_header_bytes len (localip k) (destip k)) b) (\<lambda>b.
     bindE (checksum_calc 0 (drop (off - 28) b) 20) (\<lambda>cksum.
     bindE (wr (off - 18) (put16 cksum) b) (\<lambda>b.
     let len = len + 14 in
     case arp_getmacaddr (destip k) (arpc s) of
       None \<Rightarrow> Inr (- 1, b, s)
     | Some mac \<Rightarrow>
         bindE (wr (off - 42) mac b) (\<lambda>b.
         case s_netdev k of
           None \<Rightarrow> Inl Fault
         | Some dev \<Rightarrow>
             bindE (wr (off - 36) (nd_mac dev) b) (\<lambda>b.
             bindE (wr (off - 30) (store16 (SWAP_2B L2TYPE_IPV4)) b) (\<lambda>b.
             bindE (dev_tx dev (drop (off - 42) b) (unat len) s) (\<lambda>s. Inr (0, b, s))))))))))))"

section \<open>The ARP cache as a map\<close>

text \<open>No two valid entries share an IP or a MAC address, and the addresses have their sizes.\<close>

definition arp_ok :: "arpcache \<Rightarrow> bool" where
  "arp_ok c \<longleftrightarrow>
     (\<forall>e\<in>set (entries c). e_valid e \<longrightarrow> length (e_ip e) = 4 \<and> length (e_mac e) = 6) \<and>
     distinct (map e_ip (filter e_valid (entries c))) \<and>
     distinct (map e_mac (filter e_valid (entries c)))"

lemma arp_lookup_filter:
  "\<forall>e\<in>set es. e_valid e \<longrightarrow> length (e_ip e) = 4 \<Longrightarrow> length ip = 4 \<Longrightarrow>
     arp_lookup ip es = map_of (map (\<lambda>e. (e_ip e, e_mac e)) (filter e_valid es)) ip"
  by (induction es) (auto simp: memcmp_zero_iff)

lemma arp_expire_valid:
  assumes "e_valid e \<Longrightarrow> length (e_ip e) = 4 \<and> length (e_mac e) = 6" "length ip = 4" "length mac = 6"
  shows "e_valid (arp_expire ip mac e) \<longleftrightarrow> e_valid e \<and> e_ip e \<noteq> ip \<and> e_mac e \<noteq> mac"
    and "e_valid (arp_expire ip mac e) \<Longrightarrow> arp_expire ip mac e = e"
proof -
  have "e_valid e \<Longrightarrow> memcmp (e_ip e) ip = 0 \<longleftrightarrow> e_ip e = ip"
    "e_valid e \<Longrightarrow> memcmp (e_mac e) mac = 0 \<longleftrightarrow> e_mac e = mac"
    using assms by (simp_all add: memcmp_zero_iff)
  then show "e_valid (arp_expire ip mac e) \<longleftrightarrow> e_valid e \<and> e_ip e \<noteq> ip \<and> e_mac e \<noteq> mac"
    and "e_valid (arp_expire ip mac e) \<Longrightarrow> arp_expire ip mac e = e"
    by (cases "e_valid e"; auto simp: arp_expire_def Let_def split: if_splits)+
qed

lemma arp_expire_filter:
  "\<forall>e\<in>set es. e_valid e \<longrightarrow> length (e_ip e) = 4 \<and> length (e_mac e) = 6 \<Longrightarrow>
     length ip = 4 \<Longrightarrow> length mac = 6 \<Longrightarrow>
     filter e_valid (map (arp_expire ip mac) es) =
     filter (\<lambda>e. e_ip e \<noteq> ip \<and> e_mac e \<noteq> mac) (filter e_valid es)"
proof (induction es)
  case (Cons e es)
  then show ?case
    using arp_expire_valid [of e ip mac] by (cases "e_valid (arp_expire ip mac e)") auto
qed simp

lemma arp_put_filter:
  "arp_put ip mac es = Some es' \<Longrightarrow>
     \<exists>xs ys. filter e_valid es = xs @ ys \<and>
       filter e_valid es' = xs @ \<lparr>e_ip = ip, e_mac = mac, e_valid = True\<rparr> # ys"
proof (induction es arbitrary: es')
  case (Cons e es)
  show ?case
  proof (cases "e_valid e")
    case True
    then obtain fs where fs: "arp_put ip mac es = Some fs" "es' = e # fs" using Cons.prems by auto
    obtain xs ys where "filter e_valid es = xs @ ys"
        "filter e_valid fs = xs @ \<lparr>e_ip = ip, e_mac = mac, e_valid = True\<rparr> # ys"
      using Cons.IH [OF fs(1)] by blast
    then show ?thesis using fs True by (intro exI [of _ "e # xs"] exI [of _ ys]) simp
  next
    case False
    then show ?thesis using Cons.prems by (intro exI [of _ "[]"] exI [of _ "filter e_valid es"]) auto
  qed
qed simp

lemma arp_put_valid:
  "arp_put ip mac es = Some es' \<Longrightarrow> e \<in> set es' \<Longrightarrow> e_valid e \<Longrightarrow>
     e = \<lparr>e_ip = ip, e_mac = mac, e_valid = True\<rparr> \<or> (e \<in> set es \<and> e_valid e)"
  by (induction es arbitrary: es') (auto split: if_splits)

lemma map_of_filter_mac:
  "distinct (map e_mac es) \<Longrightarrow> distinct (map e_ip es) \<Longrightarrow>
     map_of (map (\<lambda>e. (e_ip e, e_mac e)) (filter (\<lambda>e. e_ip e \<noteq> ip \<and> e_mac e \<noteq> mac) es)) x =
     (if x = ip \<or> map_of (map (\<lambda>e. (e_ip e, e_mac e)) es) x = Some mac then None
      else map_of (map (\<lambda>e. (e_ip e, e_mac e)) es) x)"
proof (induction es)
  case (Cons e es)
  have "map_of (map (\<lambda>e. (e_ip e, e_mac e)) es) (e_ip e) = None"
    using Cons.prems by (auto simp: map_of_eq_None_iff)
  moreover have "map_of (map (\<lambda>e. (e_ip e, e_mac e)) es) y \<noteq> Some (e_mac e)" for y
    using Cons.prems by (auto dest!: map_of_SomeD)
  ultimately show ?case using Cons by auto
qed simp

lemma map_of_middle:
  "k \<notin> fst ` set xs \<Longrightarrow> map_of (xs @ (k, v) # ys) x = (if x = k then Some v else map_of (xs @ ys) x)"
  by (induction xs) auto

lemma arp_insert_ok:
  assumes c: "arp_ok c" and len: "length ip = 4" "length mac = 6"
    and i: "arp_insert ip mac c = Inr (0, c')"
  shows "arp_ok c'"
    and "length x = 4 \<Longrightarrow> arp_getmacaddr x c' =
      (if x = ip then Some mac
       else if arp_getmacaddr x c = Some mac then None else arp_getmacaddr x c)"
proof -
  define es where "es = map (arp_expire ip mac) (entries c)"
  obtain es' where es': "arp_put ip mac es = Some es'" "c' = c\<lparr>entries := es'\<rparr>"
    using i by (auto simp: arp_insert_def Let_def es_def split: if_splits option.splits)
  define n where "n = \<lparr>e_ip = ip, e_mac = mac, e_valid = True\<rparr>"
  define vs where "vs = filter (\<lambda>e. e_ip e \<noteq> ip \<and> e_mac e \<noteq> mac) (filter e_valid (entries c))"
  have vs: "filter e_valid es = vs"
    using c len by (simp add: es_def vs_def arp_expire_filter arp_ok_def)
  obtain xs ys where xy: "vs = xs @ ys" "filter e_valid es' = xs @ n # ys"
    using arp_put_filter [OF es'(1)] vs by (auto simp: n_def)
  have d: "distinct (map e_ip vs)" "distinct (map e_mac vs)" "ip \<notin> e_ip ` set vs" "mac \<notin> e_mac ` set vs"
    using c distinct_map_filter [where xs = "filter e_valid (entries c)"]
    by (simp_all only: arp_ok_def vs_def) auto
  have sz: "length (e_ip e) = 4 \<and> length (e_mac e) = 6" if "e \<in> set es'" "e_valid e" for e
  proof (cases "e = n")
    case False
    then have "e \<in> set (filter e_valid es)"
      using arp_put_valid [OF es'(1) that] that(2) by (auto simp: n_def)
    then show ?thesis using c by (auto simp: vs vs_def arp_ok_def)
  qed (simp add: n_def len)
  show "arp_ok c'"
    using d xy sz by (auto simp: arp_ok_def es' n_def)
  assume x: "length x = 4"
  have "arp_getmacaddr x c' = map_of (map (\<lambda>e. (e_ip e, e_mac e)) (xs @ n # ys)) x"
    using sz x by (simp add: arp_getmacaddr_def es' arp_lookup_filter xy)
  also have "\<dots> = (if x = ip then Some mac else map_of (map (\<lambda>e. (e_ip e, e_mac e)) vs) x)"
    using d(3) xy map_of_middle [of ip "map (\<lambda>e. (e_ip e, e_mac e)) xs" mac]
    by (simp add: n_def image_image image_Un del: map_of_append)
  also have "map_of (map (\<lambda>e. (e_ip e, e_mac e)) vs) x =
      (if x = ip \<or> arp_getmacaddr x c = Some mac then None else arp_getmacaddr x c)"
    using c x by (simp add: vs_def map_of_filter_mac arp_ok_def arp_getmacaddr_def arp_lookup_filter
      del: filter_filter)
  finally show "arp_getmacaddr x c' =
      (if x = ip then Some mac
       else if arp_getmacaddr x c = Some mac then None else arp_getmacaddr x c)"
    by simp
qed

lemma arp_put_None: "arp_put ip mac es = None \<longleftrightarrow> (\<forall>e\<in>set es. e_valid e)"
  by (induction es) auto

text \<open>
  \<^verbatim>\<open>count\<close> is never written, so the test that should refuse an entry never fires, and an
  insertion into a full table of other hosts stops the machine.
\<close>

lemma arp_insert_full:
  assumes "arp_ok c" "length ip = 4" "length mac = 6" "a_count c \<noteq> length (entries c)"
    and "\<forall>e\<in>set (entries c). e_valid e \<and> e_ip e \<noteq> ip \<and> e_mac e \<noteq> mac"
  shows "arp_insert ip mac c = Inl Die"
proof -
  have "map (arp_expire ip mac) (entries c) = entries c"
    using assms by (intro map_idI) (auto simp: arp_expire_def Let_def arp_ok_def memcmp_zero_iff)
  then have "arp_put ip mac (map (arp_expire ip mac) (entries c)) = None"
    using assms(5) by (simp add: arp_put_None)
  then show ?thesis using assms(4) by (simp add: arp_insert_def Let_def)
qed

section \<open>Replies\<close>

lemma rd_ok: "length a = off \<Longrightarrow> length b = n \<Longrightarrow> rd off n (a @ b @ c) = Inr b"
  by (simp add: rd_def)

lemma wr_ok: "length a = off \<Longrightarrow> length b = length b' \<Longrightarrow> wr off b' (a @ b @ c) = Inr (a @ b' @ c)"
  by (simp add: wr_def)

lemma byte_list2: "length b = 2 \<Longrightarrow> b = [b ! 0, b ! 1]"
  by (rule nth_equalityI) (auto simp: less_2_cases_iff)

text \<open>Evaluation of reads and writes in a buffer given as a list of fields.\<close>

lemmas field_simps = rd_def wr_def

lemma arp_reply:
  assumes len: "length dmac = 6" "length smac = 6" "length ahdr = 6" "length amac = 6" "length sip = 4"
      "length tmac = 6" "length mac = 6" "length (ipaddr s) = 4" "22 \<le> length rest"
    and ef: "ef_buf ef = dmac @ smac @ [0x08, 0x06] @ ahdr @ [0, 1] @ amac @ sip @ tmac @ ipaddr s @ rest"
    and dev: "ef_netdev ef = dev" "nd_mac dev = mac"
    and arp: "arp_insert sip amac (arpc s) = Inr (r, c)"
  shows "efproc ef s = Inr (s\<lparr>arpc := c, sent := sent s @
     [(dev, smac @ mac @ [0x08, 0x06] @ ahdr @ [0, 2] @ mac @ ipaddr s @ amac @ sip @ take 22 rest)]\<rparr>)"
proof -
  have et: "SWAP_2B (load16 [0x08, 0x06]) = L2TYPE_ARP" "L2TYPE_ARP \<noteq> L2TYPE_8021Q"
    and op: "SWAP_2B (load16 [0, 1]) = ARPOPTYPE_REQ"
    and ack: "store16 (SWAP_2B ARPOPTYPE_ACK) = [0, 2]" by code_simp+
  have eth: "efproc ef s = arp_proc ef s"
    using len ef et by (simp add: efproc_def rd_def)
  show ?thesis
    unfolding eth arp_proc_def learn_def dev_tx_def Let_def
    using len ef dev arp op ack by (simp add: rd_def wr_def memcmp_zero_iff)
qed

lemma efproc_ipv4:
  assumes "length dmac = 6" "length smac = 6" "ef_buf ef = dmac @ smac @ [0x08, 0x00] @ b"
  shows "efproc ef s = ipv4_proc ef s"
proof -
  have "SWAP_2B (load16 [0x08, 0x00]) = L2TYPE_IPV4" "L2TYPE_IPV4 \<noteq> L2TYPE_8021Q"
    "L2TYPE_IPV4 \<noteq> L2TYPE_ARP" by code_simp+
  then show ?thesis using assms by (simp add: efproc_def rd_def)
qed

text \<open>The header length and the total length of an IPv4 header.\<close>

definition hdr_len :: "u8 list \<Rightarrow> nat" where
  "hdr_len ip = unat (ip ! 0 AND 0xF) * 4"

definition tot_len :: "u8 list \<Rightarrow> nat" where
  "tot_len ip = unat (get16 [ip ! 2, ip ! 3])"

lemma rd_at: "length a = off \<Longrightarrow> i + n \<le> length b \<Longrightarrow>
   rd (off + i) n (a @ b) = Inr (take n (drop i b))"
  by (simp add: rd_def)

lemma ipv4_checked:
  assumes len: "length hd14 = 14" "length ip = hdr_len ip" "20 \<le> length ip" "sum_ok ip"
    and tot: "tot_len ip = length ip + n" and ef: "ef_buf ef = hd14 @ ip @ rest"
  shows "ipv4_proc ef s =
     (if ip ! 9 = IPV4PROTOCOL_ICMP then icmp_proc ef (14 + length ip) (of_nat n) s
      else if ip ! 9 = IPV4PROTOCOL_UDP then
        bindE (udp_proc ef (14 + length ip) (valid_sock s))
          (\<lambda>(ks, us). Inr (s\<lparr>valid_sock := ks, upcalls := upcalls s @ us\<rparr>))
      else Inr s)"
proof -
  have "unat (ip ! 0 AND 0xF) < 16"
  proof -
    have "ip ! 0 AND 0xF = take_bit 4 (ip ! 0)" by (simp add: take_bit_eq_mask mask_eq_exp_minus_1)
    then show ?thesis by (simp add: unat_take_bit)
  qed
  then have "hdr_len ip \<le> 60" by (simp add: hdr_len_def)
  then have ck: "checksum_calc 0 (ip @ rest) (length ip) = Inr 0"
    using len by (subst checksum_accepts) auto
  have b0: "rd 14 1 (hd14 @ ip @ rest) = Inr [ip ! 0]"
    using rd_at [of hd14 14 0 1 "ip @ rest"] len by (cases ip) auto
  have b2: "rd (14 + 2) 2 (hd14 @ ip @ rest) = Inr [ip ! 2, ip ! 3]"
    using rd_at [of hd14 14 2 2 "ip @ rest"] len
    by (simp add: numeral_2_eq_2 numeral_3_eq_3 take_Suc_conv_app_nth drop_append)
  have b9: "rd (14 + 9) 1 (hd14 @ ip @ rest) = Inr [ip ! 9]"
    using rd_at [of hd14 14 9 1 "ip @ rest"] len
    by (simp add: take_Suc_conv_app_nth drop_append)
  have l4: "get16 [ip ! 2, ip ! 3] - of_nat (length ip) = of_nat n"
    using tot by (metis add_diff_cancel_left' of_nat_add of_nat_unat tot_len_def ucast_id)
  show ?thesis
    unfolding ipv4_proc_def Let_def getipv4totallen_def ef b0 b2 bindE_Inr
    using b9 ck l4 len by (simp add: hdr_len_def)
qed

lemma put16_fill: "put16 c = [ucast (drop_bit 8 c), ucast c]"
  by (simp add: put16_def)

text \<open>A checksum written into its field after the first two bytes.\<close>

lemma icmp_fill:
  assumes "length p \<le> 256" "p = [t, k, 0, 0] @ b"
  obtains c where "checksum_calc 0 (p @ rest) (length p) = Inr c" "sum_ok ([t, k] @ put16 c @ b)"
proof -
  have ne: "length p \<noteq> 0" using assms by simp
  define c where "c = NOT (ones_sum p)"
  have "checksum_calc 0 (p @ rest) (length p) = Inr c" "checksum_calc 0 p (length p) = Inr c"
    using checksum_calc_value [of "length p" "p @ rest"] checksum_calc_value [of "length p" p]
      assms(1) ne by (simp_all add: c_def)
  moreover have "sum_ok ([t, k] @ put16 c @ b)"
    using checksum_fill [of p "[t, k]" b c] assms calculation(2) by (simp add: put16_fill)
  ultimately show ?thesis using that by blast
qed

lemma word_sum_swap:
  assumes "length a = 12" "length s = 4" "length d = 4"
  shows "word_sum (a @ s @ d @ r) = word_sum (a @ d @ s @ r)"
  using assms by (simp add: word_sum_append)

lemma sum_ok_swap:
  "length a = 12 \<Longrightarrow> length s = 4 \<Longrightarrow> length d = 4 \<Longrightarrow> sum_ok (a @ s @ d @ r) = sum_ok (a @ d @ s @ r)"
  using word_sum_swap [of a s d r] by (simp add: sum_ok_def)

text \<open>An echo request that passes the checks is answered with a packet that passes them too.\<close>

lemma icmp_reply:
  assumes len: "length dmac = 6" "length smac = 6" "length i12 = 12" "length sip = 4" "length dip = 4"
    and ip: "ip = i12 @ sip @ dip @ opts" "length ip = hdr_len ip" "sum_ok ip" "ip ! 9 = IPV4PROTOCOL_ICMP"
    and icmp: "icmp = [ICMPTYPE_ECHOREQ, code, x, y] @ body" "sum_ok icmp" "length icmp \<le> 256"
    and tot: "tot_len ip = length ip + length icmp"
    and ef: "ef_buf ef = dmac @ smac @ [0x08, 0x00] @ ip @ icmp @ rest" "ef_netdev ef = dev"
      "unat (ef_len ef) \<le> length (ef_buf ef)"
    and arp: "arp_insert sip smac (arpc s) = Inr (r, c)"
  obtains ip' icmp' x' y' where
    "efproc ef s = Inr (s\<lparr>arpc := c, sent := sent s @ [(dev, take (unat (ef_len ef))
        (smac @ dmac @ [0x08, 0x00] @ ip' @ icmp' @ rest))]\<rparr>)"
    "ip' = i12 @ dip @ sip @ opts" "sum_ok ip'"
    "icmp' = [ICMPTYPE_ECHOACK, code, x', y'] @ body" "sum_ok icmp'"
proof -
  define n where "n = length icmp"
  define h where "h = length ip"
  define hd14 where "hd14 = dmac @ smac @ [0x08, 0x00]"
  have hd14: "length hd14 = 14" "ef_buf ef = hd14 @ ip @ icmp @ rest" using len ef by (simp_all add: hd14_def)
  have h20: "20 \<le> length ip" using len ip by simp
  have n': "n \<noteq> 0" "n \<le> 256" using icmp by (auto simp: n_def)
  then have "unat (of_nat n :: u16) = n" by (intro unat_of_nat_small) simp
  note n = this n'
  have e1: "efproc ef s = icmp_proc ef (14 + h) (of_nat n) s"
    using efproc_ipv4 [OF len(1,2), of ef "ip @ icmp @ rest"] ef ip tot h20
      ipv4_checked [OF hd14(1) ip(2) h20 ip(3), of n ef "icmp @ rest"] hd14
    by (simp add: n_def h_def)
  have ck: "checksum_calc 0 (icmp @ rest) n = Inr 0"
    using icmp n by (subst checksum_accepts) (auto simp: n_def)
  define icmp0 where "icmp0 = [ICMPTYPE_ECHOACK, code, 0, 0] @ body"
  have "length icmp0 = n" by (simp add: icmp0_def n_def icmp)
  then obtain k where k: "checksum_calc 0 (icmp0 @ rest) n = Inr k"
      "sum_ok ([ICMPTYPE_ECHOACK, code] @ put16 k @ body)"
    using icmp_fill [of icmp0 ICMPTYPE_ECHOACK code body rest] n by (auto simp: icmp0_def)
  define icmp' where "icmp' = [ICMPTYPE_ECHOACK, code] @ put16 k @ body"
  have l2: "length (put16 k) = 2" by (simp add: put16_def)
  define et where "et = [0x08, 0x00 :: u8]"
  have et: "length et = 2" "ef_buf ef = dmac @ smac @ et @ ip @ icmp @ rest"
    using ef by (simp_all add: et_def)
  have eq: "efproc ef s = Inr (s\<lparr>arpc := c, sent := sent s @ [(dev, take (unat (ef_len ef))
        (smac @ dmac @ et @ (i12 @ dip @ sip @ opts) @ icmp' @ rest))]\<rparr>)"
    unfolding e1 icmp_proc_def learn_def dev_tx_def Let_def
    using len et ef(2,3) ck arp icmp(1) ip(1) n k l2
    by (simp add: rd_def wr_def h_def icmp'_def icmp0_def ipv4_ipswap_def ethii_macswap_def)
  show ?thesis
    by (rule that [OF eq [unfolded et_def] refl]) (use k ip len in \<open>auto simp: icmp'_def put16_def sum_ok_swap\<close>)
qed

section \<open>Sent packets\<close>

lemma length_put16 [simp]: "length (put16 w) = 2"
  by (simp add: put16_def)

lemma get16_put16: "get16 (put16 w) = w"
proof (rule bit_word_eqI)
  fix n assume "n < LENGTH(16)"
  then show "bit (get16 (put16 w)) n = bit w n"
    by (auto simp: get16_def put16_def bit_simps)
qed

lemma checksum_field:
  assumes "p = a @ [0, 0] @ b" "even (length a)" "length p = n" "n \<le> 256"
  obtains c where "checksum_calc 0 (p @ rest) n = Inr c" "sum_ok (a @ put16 c @ b)"
proof -
  have ne: "n \<noteq> 0" using assms by auto
  define c where "c = NOT (ones_sum p)"
  have "checksum_calc 0 (p @ rest) n = Inr c" "checksum_calc 0 p (length p) = Inr c"
    using checksum_calc_value [of n "p @ rest"] checksum_calc_value [of "length p" p]
      assms(3,4) ne by (simp_all add: c_def)
  moreover have "sum_ok (a @ put16 c @ b)"
    using checksum_fill [OF assms(1,2), of c] assms(3,4) calculation(2) by (simp add: put16_fill)
  ultimately show ?thesis using that by blast
qed

text \<open>What \<^verbatim>\<open>udp_send\<close> puts on the wire, given the two checksums.\<close>

definition udp_frame :: "u8 list \<Rightarrow> u8 list \<Rightarrow> u16 \<Rightarrow> u16 \<Rightarrow> sock_context \<Rightarrow> u8 list \<Rightarrow> u8 list" where
  "udp_frame dmac smac c1 c2 k d =
     dmac @ smac @ [0x08, 0x00] @
     ([0x45, 0] @ put16 (of_nat (length d) + 28) @ [0, 0, 0x40, 0, 64, 17] @ put16 c1 @ localip k @ destip k) @
     (put16 (localport k) @ put16 (destport k) @ put16 (of_nat (length d) + 8) @ put16 c2) @ d"

lemma udp_send_ok:
  assumes k: "protocol k = IPV4PROTOCOL_UDP" "length (localip k) = 4" "length (destip k) = 4"
      "s_netdev k = Some dev" "length (nd_mac dev) = 6"
    and arp: "arp_getmacaddr (destip k) (arpc s) = Some mac" "length mac = 6"
    and len: "length d = max (unat len) 18" "length d \<le> 236"
    and b: "b = pre @ room @ d @ post" "length room = 42"
  obtains b' c1 c2 where
    "udp_send k (length pre + 42) len b s =
       Inr (0, b', s\<lparr>sent := sent s @ [(dev, udp_frame mac (nd_mac dev) c1 c2 k d)]\<rparr>)"
    "sum_ok ([0x45, 0] @ put16 (of_nat (length d) + 28) @ [0, 0, 0x40, 0, 64, 17] @ put16 c1 @ localip k @ destip k)"
    "sum_ok (localip k @ destip k @ [0, 17] @ put16 (of_nat (length d) + 8) @
       put16 (localport k) @ put16 (destport k) @ put16 (of_nat (length d) + 8) @ put16 c2 @ d)"
proof -
  define n where "n = length d"
  define L where "L = (if len < MINUDP_DATELEN then MINUDP_DATELEN else len)"
  have n: "18 \<le> n" "n \<le> 236" using len by (auto simp: n_def)
  have L: "L = of_nat n"
  proof (cases "unat len < 18")
    case True
    then show ?thesis using len by (simp add: L_def n_def MINUDP_DATELEN_def word_less_nat_alt)
  next
    case False
    then have "n = unat len" using len by (simp add: n_def)
    then show ?thesis using False by (simp add: L_def MINUDP_DATELEN_def word_less_nat_alt)
  qed
  have "L + 8 + 20 - 8 = of_nat (n + 20)" "L + 8 + 20 + 14 = of_nat (n + 42)" by (simp_all add: L)
  moreover have "unat (of_nat (n + 20) :: u16) = n + 20" "unat (of_nat (n + 42) :: u16) = n + 42"
    by (rule unat_of_nat_small; use n in simp)+
  ultimately have u1: "unat (L + 8 + 20 - 8) = n + 20" and u2: "unat (L + 8 + 20 + 14) = n + 42"
    by (simp_all only:)
  define r14 r8 r20 where "r14 = take 14 room" and "r8 = take 8 (drop 14 room)" and "r20 = drop 22 room"
  have room: "room = r14 @ r8 @ r20" "length r14 = 14" "length r8 = 8" "length r20 = 20"
  proof -
    have "drop 8 (drop 14 room) = drop 22 room" by simp
    then have "r8 @ r20 = drop 14 room"
      unfolding r8_def r20_def by (metis append_take_drop_id)
    then show "room = r14 @ r8 @ r20" by (simp add: r14_def)
  qed (use b(2) in \<open>simp_all add: r14_def r8_def r20_def\<close>)
  define q where "q = localip k @ destip k @ [0, IPV4PROTOCOL_UDP] @ put16 (L + 8)"
  define u6 where "u6 = put16 (localport k) @ put16 (destport k) @ put16 (L + 8)"
  have q: "length q = 12" "length u6 = 6" "udp_pseudo_bytes k (L + 8) = q @ u6 @ [0, 0]"
    using k by (simp_all add: q_def u6_def udp_pseudo_bytes_def)
  obtain c2 where c2: "checksum_calc 0 ((q @ u6 @ [0, 0] @ d) @ post) (n + 20) = Inr c2"
      "sum_ok ((q @ u6) @ put16 c2 @ d)"
    by (rule checksum_field [of "q @ u6 @ [0, 0] @ d" "q @ u6" d "n + 20" post])
       (use q n in \<open>auto simp: n_def\<close>)
  define i10 where "i10 = [0x45, 0] @ put16 (L + 28) @ [0, 0, 0x40, 0, 64, IPV4PROTOCOL_UDP]"
  define a8 where "a8 = localip k @ destip k"
  have i: "length i10 = 10" "length a8 = 8"
    "ipv4_header_bytes (28 + L) (localip k) (destip k) = i10 @ [0, 0] @ a8"
    using k by (simp_all add: i10_def a8_def ipv4_header_bytes_def add.commute)
  obtain c1 where c1: "checksum_calc 0 ((i10 @ [0, 0] @ a8) @ u6 @ put16 c2 @ d @ post) 20 = Inr c1"
      "sum_ok (i10 @ put16 c1 @ a8)"
    by (rule checksum_field [of "i10 @ [0, 0] @ a8" i10 a8 20 "u6 @ put16 c2 @ d @ post"])
       (use i in auto)
  have et: "store16 (SWAP_2B L2TYPE_IPV4) = [0x08, 0x00]" by code_simp
  define et where "et = [0x08, 0x00 :: u8]"
  define fr where "fr = mac @ nd_mac dev @ et @ i10 @ put16 c1 @ a8 @ u6 @ put16 c2 @ d"
  have fr: "udp_frame mac (nd_mac dev) c1 c2 k d = fr"
    by (simp add: fr_def et_def udp_frame_def i10_def u6_def a8_def L n_def IPV4PROTOCOL_UDP_def)
  have "length et = 2" "store16 (SWAP_2B L2TYPE_IPV4) = et" using et by (simp_all add: et_def)
  then have "udp_send k (length pre + 42) len b s = Inr (0, pre @ fr @ post, s\<lparr>sent := sent s @ [(dev, fr)]\<rparr>)"
    unfolding udp_send_def Let_def L_def [symmetric] dev_tx_def
    using k arp b(1) room q c1(1) c2(1) i n u1 u2 n_def
    by (simp add: wr_def rd_def fr_def)
  then have "udp_send k (length pre + 42) len b s =
      Inr (0, pre @ fr @ post, s\<lparr>sent := sent s @ [(dev, udp_frame mac (nd_mac dev) c1 c2 k d)]\<rparr>)"
    by (simp add: fr)
  then show ?thesis
    using c1(2) c2(2) by (intro that) (simp_all add: i10_def q_def u6_def a8_def L n_def IPV4PROTOCOL_UDP_def)
qed

section \<open>Delivery to the sockets\<close>

text \<open>What a socket accepts: ports and addresses, each of which may be a wildcard.\<close>

definition wants :: "u8 list \<Rightarrow> u8 list \<Rightarrow> u16 \<Rightarrow> u16 \<Rightarrow> sock_context \<Rightarrow> bool" where
  "wants src_ip dst_ip src_port dst_port k \<longleftrightarrow>
     protocol k = IPV4PROTOCOL_UDP \<and>
     localport k \<in> {PORT_ALL, dst_port} \<and> destport k \<in> {PORT_ALL, src_port} \<and>
     localip k \<in> {ipaddr_any, dst_ip} \<and> destip k \<in> {ipaddr_any, src_ip}"

definition sock_ok :: "sock_context \<Rightarrow> bool" where
  "sock_ok k \<longleftrightarrow> sock_recv k \<noteq> None \<and> length (localip k) = 4 \<and> length (destip k) = 4"

lemma sock_match_wants:
  assumes buf: "buf = hd26 @ sip @ dip @ opts @ put16 sp @ put16 dp @ rest"
    and len: "length hd26 = 26" "length sip = 4" "length dip = 4" "u = 34 + length opts"
    and k: "sock_ok k"
  shows "sock_match buf u k = Inr (wants sip dip sp dp k)"
proof -
  have p: "getudp_srcport u buf = Inr sp" "getudp_dstport u buf = Inr dp"
    using len by (simp_all add: getudp_srcport_def getudp_dstport_def rd_def buf get16_put16)
  have i: "rd 30 4 buf = Inr dip" "rd 26 4 buf = Inr sip"
    using len by (simp_all add: rd_def buf)
  have m: "memcmp (localip k) ipaddr_any = 0 \<longleftrightarrow> localip k = ipaddr_any"
    "memcmp (localip k) dip = 0 \<longleftrightarrow> localip k = dip"
    "memcmp (destip k) ipaddr_any = 0 \<longleftrightarrow> destip k = ipaddr_any"
    "memcmp (destip k) sip = 0 \<longleftrightarrow> destip k = sip"
    using k len by (simp_all add: memcmp_zero_iff sock_ok_def ipaddr_any_def)
  show ?thesis
    using i by (auto simp: sock_match_def p m wants_def)
qed

definition deliver :: "ethframe \<Rightarrow> nat \<Rightarrow> u16 \<Rightarrow> sock_context \<Rightarrow> upcall" where
  "deliver ef u len k = \<lparr>u_cb = the (sock_recv k), u_sock = k\<lparr>s_netdev := Some (ef_netdev ef)\<rparr>,
     u_buf = ef_buf ef, u_data = u + 8, u_len = len - 8\<rparr>"

lemma udp_proc_ok:
  assumes buf: "ef_buf ef = hd26 @ sip @ dip @ opts @ put16 sp @ put16 dp @ put16 len @ rest"
    and len: "length hd26 = 26" "length sip = 4" "length dip = 4" "u = 34 + length opts"
    and ks: "\<forall>k\<in>set ks. sock_ok k"
  shows "udp_proc ef u ks =
     Inr (map (\<lambda>k. if wants sip dip sp dp k then k\<lparr>s_netdev := Some (ef_netdev ef)\<rparr> else k) ks,
          map (deliver ef u len) (filter (wants sip dip sp dp) ks))"
  using ks
proof (induction ks)
  case (Cons k ks)
  have m: "sock_match (ef_buf ef) u k = Inr (wants sip dip sp dp k)"
    using Cons.prems by (intro sock_match_wants [OF buf len]) auto
  have l: "getudp_len u (ef_buf ef) = Inr len"
    using len by (simp add: getudp_len_def rd_def buf get16_put16)
  obtain cb where cb: "sock_recv k = Some cb" using Cons.prems by (auto simp: sock_ok_def)
  show ?case using Cons m l cb by (simp add: deliver_def Let_def)
qed simp

lemma udp_receive:
  assumes len: "length dmac = 6" "length smac = 6" "length i12 = 12" "length sip = 4" "length dip = 4"
    and ip: "ip = i12 @ sip @ dip @ opts" "length ip = hdr_len ip" "sum_ok ip" "ip ! 9 = IPV4PROTOCOL_UDP"
    and tot: "tot_len ip = length ip + n"
    and ef: "ef_buf ef = dmac @ smac @ [0x08, 0x00] @ ip @ put16 sp @ put16 dp @ put16 ulen @ rest"
    and ks: "\<forall>k\<in>set (valid_sock s). sock_ok k"
  shows "efproc ef s = Inr (s\<lparr>
     valid_sock := map (\<lambda>k. if wants sip dip sp dp k then k\<lparr>s_netdev := Some (ef_netdev ef)\<rparr> else k) (valid_sock s),
     upcalls := upcalls s @ map (deliver ef (14 + length ip) ulen) (filter (wants sip dip sp dp) (valid_sock s))\<rparr>)"
proof -
  define hd14 where "hd14 = dmac @ smac @ [0x08, 0x00]"
  have hd14: "length hd14 = 14" "ef_buf ef = hd14 @ ip @ put16 sp @ put16 dp @ put16 ulen @ rest"
    using len ef by (simp_all add: hd14_def)
  have h20: "20 \<le> length ip" and ne: "IPV4PROTOCOL_UDP \<noteq> IPV4PROTOCOL_ICMP"
    using len ip by (auto simp: IPV4PROTOCOL_UDP_def IPV4PROTOCOL_ICMP_def)
  have "efproc ef s = ipv4_proc ef s" by (rule efproc_ipv4 [OF len(1,2)]) (use ef in simp)
  also have "\<dots> = bindE (udp_proc ef (14 + length ip) (valid_sock s))
          (\<lambda>(ks, us). Inr (s\<lparr>valid_sock := ks, upcalls := upcalls s @ us\<rparr>))"
    using ipv4_checked [OF hd14(1) ip(2) h20 ip(3) tot hd14(2), of s] ip(4) ne by simp
  also have "udp_proc ef (14 + length ip) (valid_sock s) =
      Inr (map (\<lambda>k. if wants sip dip sp dp k then k\<lparr>s_netdev := Some (ef_netdev ef)\<rparr> else k) (valid_sock s),
           map (deliver ef (14 + length ip) ulen) (filter (wants sip dip sp dp) (valid_sock s)))"
    using len ip(1) ef ks
    by (intro udp_proc_ok [of ef "dmac @ smac @ [0x08, 0x00] @ i12" sip dip opts sp dp ulen rest]) auto
  finally show ?thesis by simp
qed

text \<open>A packet made by \<^verbatim>\<open>udp_send\<close> is received by every socket that wants it, with its data.\<close>

lemma udp_frame_receive:
  assumes fr: "ef_buf ef = udp_frame dmac smac c1 c2 k d @ rest"
    and len: "length dmac = 6" "length smac = 6" "length (localip k) = 4" "length (destip k) = 4" "length d \<le> 236"
    and ck: "sum_ok ([0x45, 0] @ put16 (of_nat (length d) + 28) @ [0, 0, 0x40, 0, 64, 17] @ put16 c1 @ localip k @ destip k)"
    and ks: "\<forall>k\<in>set (valid_sock s). sock_ok k"
  shows "\<exists>s'. efproc ef s = Inr s' \<and>
     upcalls s' = upcalls s @ map (deliver ef 34 (of_nat (length d) + 8))
       (filter (wants (localip k) (destip k) (localport k) (destport k)) (valid_sock s)) \<and>
     take (length d) (drop 42 (ef_buf ef)) = d"
proof -
  define i12 where "i12 = [0x45, 0] @ put16 (of_nat (length d) + 28) @ [0, 0, 0x40, 0, 64, 17] @ put16 c1"
  define ip where "ip = i12 @ localip k @ destip k @ []"
  have i12: "length i12 = 12" "length ip = 20" using len by (simp_all add: i12_def ip_def)
  have "hdr_len ip = 20"
    by (simp add: hdr_len_def ip_def i12_def)
  moreover have "tot_len ip = 20 + (length d + 8)"
  proof -
    have "[ip ! 2, ip ! 3] = put16 (of_nat (length d) + 28)"
      by (simp add: ip_def i12_def put16_def)
    moreover have "unat (of_nat (length d + 28) :: u16) = length d + 28"
      by (rule unat_of_nat_small) (use len in simp)
    ultimately show ?thesis by (simp add: tot_len_def get16_put16)
  qed
  moreover have "ip ! 9 = IPV4PROTOCOL_UDP"
    by (simp add: ip_def i12_def put16_def IPV4PROTOCOL_UDP_def)
  moreover have "sum_ok ip" using ck by (simp add: ip_def i12_def)
  moreover have "ef_buf ef = dmac @ smac @ [0x08, 0x00] @ ip @ put16 (localport k) @ put16 (destport k) @
      put16 (of_nat (length d) + 8) @ put16 c2 @ d @ rest"
    using fr by (simp add: udp_frame_def ip_def i12_def)
  ultimately show ?thesis
    using udp_receive [OF len(1,2) i12(1) len(3,4) ip_def, of "length d + 8" ef "localport k" "destport k"
      "of_nat (length d) + 8" "put16 c2 @ d @ rest" s] ks i12 len
    by simp
qed

section \<open>Properties\<close>

text \<open>
  C19: an ARP request for the own address is answered with one frame that carries the own MAC
  address to the asker, and the asker's addresses go into the cache.
\<close>

theorem efproc_arp_request:
  assumes "length dmac = 6" "length smac = 6" "length ahdr = 6" "length amac = 6" "length sip = 4"
      "length tmac = 6" "length (nd_mac dev) = 6" "length (ipaddr s) = 4" "22 \<le> length rest"
    and "ef_buf ef = dmac @ smac @ [0x08, 0x06] @ ahdr @ [0, 1] @ amac @ sip @ tmac @ ipaddr s @ rest"
    and "ef_netdev ef = dev" and "arp_insert sip amac (arpc s) = Inr (r, c)"
  shows "efproc ef s = Inr (s\<lparr>arpc := c, sent := sent s @
     [(dev, smac @ nd_mac dev @ [0x08, 0x06] @ ahdr @ [0, 2] @ nd_mac dev @ ipaddr s @ amac @ sip @ take 22 rest)]\<rparr>)"
  using assms by (intro arp_reply) auto

definition arp_empty :: arpcache where
  "arp_empty = \<lparr>entries = replicate 32 \<lparr>e_ip = [], e_mac = [], e_valid = False\<rparr>, a_count = 0\<rparr>"

definition net_empty :: net where
  "net_empty = netproc_init \<lparr>arpc = arp_empty, st_total = 0, st_ipv4_err = 0, st_icmp_err = 0, ipaddr = [],
     ipmask = [], valid_sock = [], rxef_list = [], sent = [], upcalls = []\<rparr>"

definition dev0 :: netdev where
  "dev0 = \<lparr>nd_id = 0, nd_mac = [2, 0, 0, 0, 0, 1]\<rparr>"

definition mac_a :: "u8 list" where
  "mac_a = [2, 0, 0, 0, 0, 9]"

lemma net_empty_simps:
  "ipaddr net_empty = [192, 168, 46, 193]" "sent net_empty = []" "valid_sock net_empty = []"
  "upcalls net_empty = []"
  by (simp_all add: net_empty_def netproc_init_def)

lemma insert_empty:
  "\<exists>c. arp_insert ip mac (arpc net_empty) = Inr (0, c)"
  by (simp add: arp_insert_def Let_def net_empty_def netproc_init_def arp_empty_def numeral_eq_Suc
      arp_expire_def)

theorem efproc_arp_request_witness:
  "\<exists>s'. efproc \<lparr>ef_netdev = dev0, ef_len = 64, ef_buf = replicate 6 255 @ mac_a @ [0x08, 0x06] @
       replicate 6 0 @ [0, 1] @ mac_a @ [192, 168, 46, 1] @ replicate 6 0 @ ipaddr net_empty @ replicate 22 0\<rparr>
     net_empty = Inr s' \<and> length (sent s') = 1"
proof -
  obtain c where c: "arp_insert [192, 168, 46, 1] mac_a (arpc net_empty) = Inr (0, c)"
    using insert_empty by blast
  show ?thesis
    by (rule exI, rule conjI, rule efproc_arp_request [where ahdr = "replicate 6 0" and tmac = "replicate 6 0"
          and dmac = "replicate 6 255" and smac = mac_a and amac = mac_a and sip = "[192, 168, 46, 1]"
          and rest = "replicate 22 0" and c = c and r = 0 and dev = dev0])
       (simp_all add: c [unfolded mac_a_def] dev0_def mac_a_def net_empty_simps)
qed




definition sock0 :: sock_context where
  "sock0 = \<lparr>localport = 4000, destport = 5000, localip = [192, 168, 46, 193], destip = [192, 168, 46, 1],
     s_netdev = Some dev0, sock_recv = Some 1, protocol = IPV4PROTOCOL_UDP\<rparr>"




text \<open>
  C20: in a well-formed cache \<^verbatim>\<open>arp_insert\<close> is a map update that keeps both address columns free of
  duplicates: the IP address gets the MAC address, and another address loses its entry when it
  was held by the same MAC address.
\<close>

theorem arp_insert_refines:
  assumes "arp_ok c" "length ip = 4" "length mac = 6" "arp_insert ip mac c = Inr (0, c')"
  shows "arp_ok c' \<and> (\<forall>x. length x = 4 \<longrightarrow> arp_getmacaddr x c' =
      (if x = ip then Some mac
       else if arp_getmacaddr x c = Some mac then None else arp_getmacaddr x c))"
  using arp_insert_ok [OF assms] by blast

theorem arp_insert_refines_witness:
  "\<exists>c'. arp_insert [10, 0, 0, 1] mac_a arp_empty = Inr (0, c') \<and> arp_getmacaddr [10, 0, 0, 1] c' = Some mac_a"
proof -
  obtain c' where c': "arp_insert [10, 0, 0, 1] mac_a arp_empty = Inr (0, c')"
    by (simp add: arp_insert_def Let_def arp_empty_def numeral_eq_Suc arp_expire_def)
  have "arp_ok arp_empty" by (simp add: arp_ok_def arp_empty_def)
  from arp_insert_refines [OF this _ _ c'] c' show ?thesis by (auto simp: mac_a_def)
qed

text \<open>
  \<^verbatim>\<open>count\<close> is never written, so the test that should refuse an entry does not fire: when the
  table is full of other hosts, one more insertion ends in \<^verbatim>\<open>ASSERT(0)\<close> and stops the machine.
\<close>

lemma arp_full_dies:
  assumes "arp_ok c" "length ip = 4" "length mac = 6" "a_count c \<noteq> length (entries c)"
    and "\<forall>e\<in>set (entries c). e_valid e \<and> e_ip e \<noteq> ip \<and> e_mac e \<noteq> mac"
  shows "arp_insert ip mac c = Inl Die"
  using assms by (rule arp_insert_full)

end
