(* ===== verification/Buddy.thy ===== *)
theory Buddy
  imports ListHead Bits Func
begin

text \<open>
  The buddy page allocator of \<^verbatim>\<open>mm/page.c\<close>. A page is its index in \<^verbatim>\<open>pagelist\<close>; the free lists
  of the three memory areas are lists of the store of \<^verbatim>\<open>ListHead\<close>, whose nodes are the pages
  and the list heads. A page descriptor beyond \<^verbatim>\<open>n_pages\<close> is outside the array: reading it is a
  \<open>Fault\<close>. Addresses and sizes are natural numbers; physical memory ends below 4 GB.
\<close>

section \<open>The code\<close>

definition BUDDY_RANKNUM :: nat where "BUDDY_RANKNUM = 15"
definition MMAREA_NUM :: nat where "MMAREA_NUM = 3"
definition MMAREA_LOW1M :: nat where "MMAREA_LOW1M = 0"
definition MMAREA_NORMAL :: nat where "MMAREA_NORMAL = 1"
definition MMAREA_HIGHMM :: nat where "MMAREA_HIGHMM = 2"

datatype node = Pg nat | Hd nat nat

record page =
  buddy_rank :: nat
  refcount :: nat

record mmstate =
  n_pages :: nat
  pagelist :: "nat \<Rightarrow> page"
  links :: "node lstore"
  area_begin :: "nat \<Rightarrow> nat"
  area_size :: "nat \<Rightarrow> nat"
  ram :: mem

definition rank_of :: "mmstate \<Rightarrow> nat \<Rightarrow> nat" where
  "rank_of s p = buddy_rank (pagelist s p)"

definition set_rank :: "nat \<Rightarrow> nat \<Rightarrow> mmstate \<Rightarrow> mmstate" where
  "set_rank p r s = s\<lparr>pagelist := (pagelist s)(p := (pagelist s p)\<lparr>buddy_rank := r\<rparr>)\<rparr>"

definition page2pa :: "nat \<Rightarrow> nat" where
  "page2pa p = p * 4096"

definition pa2page :: "nat \<Rightarrow> nat" where
  "pa2page pa = drop_bit 12 pa"

definition get_buddy_page :: "nat \<Rightarrow> nat \<Rightarrow> nat" where
  "get_buddy_page p rank = (p XOR push_bit rank 1)"

fun find_area :: "nat \<Rightarrow> nat \<Rightarrow> mmstate \<Rightarrow> nat \<Rightarrow> nat res" where
  "find_area i 0 s pa = Inl Die"
| "find_area i (Suc n) s pa =
     (if area_size s i = 0 then find_area (i + 1) n s pa
      else if area_begin s i \<le> pa \<and> pa < area_begin s i + area_size s i then Inr i
      else find_area (i + 1) n s pa)"

definition get_pagearea :: "mmstate \<Rightarrow> nat \<Rightarrow> nat res" where
  "get_pagearea s p = find_area 0 MMAREA_NUM s (page2pa p)"

fun find_rank :: "mmstate \<Rightarrow> nat \<Rightarrow> nat \<Rightarrow> nat \<Rightarrow> nat option" where
  "find_rank s a i 0 = None"
| "find_rank s a i (Suc n) =
     (if check_list_empty (Hd a i) (links s) then find_rank s a (i + 1) n else Some i)"

text \<open>The splitting loop: \<open>d\<close> is how far the block is above the rank asked for.\<close>

fun split_loop :: "nat \<Rightarrow> nat \<Rightarrow> nat \<Rightarrow> mmstate \<Rightarrow> mmstate res" where
  "split_loop 0 a p s = Inr s"
| "split_loop (Suc d) a p s =
     (let r = rank_of s p - 1;
          s = set_rank p r s;
          b = get_buddy_page p r
      in if n_pages s \<le> b then Inl Fault
         else let s = set_rank b r s
              in bindE (list_add_head (Pg b) (Hd a r) (links s))
                   (\<lambda>h. split_loop d a p (s\<lparr>links := h\<rparr>)))"

definition page_alloc :: "nat \<Rightarrow> nat \<Rightarrow> bool \<Rightarrow> mmstate \<Rightarrow> (nat option \<times> mmstate) res" where
  "page_alloc rank a zero s =
     bindE (assertE (a < MMAREA_NUM)) (\<lambda>_.
     if area_size s a = 0 then Inr (None, s)
     else case find_rank s a rank (BUDDY_RANKNUM - rank) of
       None \<Rightarrow> Inr (None, s)
     | Some i \<Rightarrow>
         bindE (list_remove_head (Hd a i) (links s)) (\<lambda>(nd, h).
         case nd of
           Hd _ _ \<Rightarrow> Inl Fault
         | Pg p \<Rightarrow>
             bindE (split_loop (rank_of s p - rank) a p (s\<lparr>links := h\<rparr>)) (\<lambda>s.
             let s = (if zero then s\<lparr>ram := memset (of_nat (page2pa p)) 0 (push_bit (rank + 12) 1) (ram s)\<rparr>
                      else s)
             in Inr (Some (page2pa p), s))))"

function coalesce :: "nat \<Rightarrow> nat \<Rightarrow> mmstate \<Rightarrow> (nat \<times> mmstate) res" where
  "coalesce a p s =
     (if rank_of s p < BUDDY_RANKNUM - 1 then
        let b = get_buddy_page p (rank_of s p)
        in if n_pages s \<le> b then Inl Fault
           else if check_node_outoflist (Pg b) (links s) \<or> rank_of s b \<noteq> rank_of s p then Inr (p, s)
           else case get_pagearea s b of
                  Inl e \<Rightarrow> Inl e
                | Inr a' \<Rightarrow>
                    if a' \<noteq> a then Inr (p, s)
                    else case list_remove (Pg b) (links s) of
                           Inl e \<Rightarrow> Inl e
                         | Inr h \<Rightarrow>
                             let q = (if p < b then p else b)
                             in coalesce a q (set_rank q (rank_of s q + 1) (s\<lparr>links := h\<rparr>))
      else Inr (p, s))"
  by pat_completeness auto

lemma rank_of_set [simp]: "rank_of (set_rank p r s) q = (if q = p then r else rank_of s q)"
  by (simp add: rank_of_def set_rank_def)

lemma rank_of_links [simp]: "rank_of (s\<lparr>links := h\<rparr>) q = rank_of s q"
  by (simp add: rank_of_def)

termination coalesce
  by (relation "measure (\<lambda>(a, p, s). BUDDY_RANKNUM - 1 - rank_of s p)") auto

declare coalesce.simps [simp del]

definition page_free :: "nat \<Rightarrow> mmstate \<Rightarrow> mmstate res" where
  "page_free addr s =
     (let p = pa2page addr
      in if n_pages s \<le> p then Inl Fault
         else
           bindE (assertE (refcount (pagelist s p) = 0)) (\<lambda>_.
           bindE (assertE (rank_of s p < BUDDY_RANKNUM)) (\<lambda>_.
           bindE (assertE (check_node_outoflist (Pg p) (links s))) (\<lambda>_.
           bindE (get_pagearea s p) (\<lambda>a.
           bindE (coalesce a p s) (\<lambda>(p, s).
           bindE (list_add_head (Pg p) (Hd a (rank_of s p)) (links s)) (\<lambda>h.
           Inr (s\<lparr>links := h\<rparr>))))))))"

fun online_loop :: "nat \<Rightarrow> nat \<Rightarrow> mmstate \<Rightarrow> mmstate res" where
  "online_loop pa 0 s = Inr s"
| "online_loop pa (Suc n) s =
     (let p = pa2page pa
      in if n_pages s \<le> p then Inl Fault
         else bindE (page_free pa (s\<lparr>pagelist := (pagelist s)(p := \<lparr>buddy_rank = 0, refcount = 0\<rparr>)\<rparr>))
                (online_loop (pa + 4096) n))"

definition sysram_online :: "nat \<Rightarrow> nat \<Rightarrow> mmstate \<Rightarrow> mmstate res" where
  "sysram_online begin sz s =
     bindE (assertE (take_bit 12 begin = 0)) (\<lambda>_.
     bindE (assertE (take_bit 12 sz = 0)) (\<lambda>_.
     online_loop begin (drop_bit 12 sz) s))"

section \<open>Blocks\<close>

definition block :: "nat \<Rightarrow> nat \<Rightarrow> nat set" where
  "block p r = {p..<p + 2 ^ r}"

lemma xor_bit_even:
  assumes "2 ^ r dvd (p :: nat)"
  shows "p XOR 2 ^ r = (if even (p div 2 ^ r) then p + 2 ^ r else p - 2 ^ r)"
proof -
  obtain k where k: "p = 2 ^ r * k" using assms by blast
  have eq: "p XOR 2 ^ r = push_bit r (k XOR 1)"
    unfolding push_bit_xor by (simp add: k push_bit_eq_mult mult.commute)
  show ?thesis
  proof (cases "even k")
    case True
    then have "k XOR 1 = k + 1" using xor_one_eq [of k] by (simp del: One_nat_def)
    then show ?thesis using True eq by (simp add: k push_bit_eq_mult algebra_simps)
  next
    case False
    then have "k XOR 1 = k - 1" using xor_one_eq [of k] by (simp del: One_nat_def)
    then show ?thesis using False eq by (simp add: k push_bit_eq_mult algebra_simps)
  qed
qed

text \<open>The two halves of a block of rank \<open>r + 1\<close>.\<close>

lemma buddy_facts:
  assumes "2 ^ r dvd (p :: nat)"
  defines "b \<equiv> get_buddy_page p r"
  shows "b \<noteq> p" "2 ^ r dvd b" "2 ^ Suc r dvd min p b"
    "block p r \<inter> block b r = {}" "block p r \<union> block b r = block (min p b) (Suc r)"
proof -
  obtain k where k: "p = 2 ^ r * k" using assms by blast
  have b: "b = (if even k then p + 2 ^ r else p - 2 ^ r)"
    using xor_bit_even [OF assms(1)] by (simp add: b_def get_buddy_page_def k push_bit_eq_mult)
  have "b = 2 ^ r * (if even k then k + 1 else k - 1)"
    by (auto simp: b k algebra_simps)
  then show d: "2 ^ r dvd b" by simp
  have pos: "0 < (2::nat) ^ r" by simp
  have odd: "2 ^ r \<le> p" if "odd k" using that by (cases k) (auto simp: k)
  show "b \<noteq> p"
  proof (cases "even k")
    case True
    then show ?thesis using b pos by simp
  next
    case False
    then have "b = p - 2 ^ r" using b by simp
    then show ?thesis using pos odd [OF False] by linarith
  qed
  have m: "min p b = (if even k then p else p - 2 ^ r)" using b pos by auto
  show "2 ^ Suc r dvd min p b"
  proof (cases "even k")
    case True
    then show ?thesis using m by (auto simp: k elim!: evenE)
  next
    case False
    then have "even (k - 1)" by simp
    moreover have "min p b = 2 ^ r * (k - 1)" using m False by (simp add: k algebra_simps)
    ultimately show ?thesis by (auto elim!: evenE)
  qed
  show "block p r \<inter> block b r = {}" "block p r \<union> block b r = block (min p b) (Suc r)"
    using b m odd by (auto simp: block_def)
qed

lemma lower_half:
  assumes "2 ^ Suc r dvd (p :: nat)"
  shows "get_buddy_page p r = p + 2 ^ r" "2 ^ r dvd p"
proof -
  show d: "2 ^ r dvd p" using assms by (metis dvd_mult_right power_Suc)
  have "even (p div 2 ^ r)" using assms by (metis d dvd_div_iff_mult power_Suc power_not_zero zero_neq_numeral)
  then show "get_buddy_page p r = p + 2 ^ r"
    using xor_bit_even [OF d] by (simp add: get_buddy_page_def push_bit_eq_mult)
qed

text \<open>A buddy below the top rank stays in the same block of the top rank.\<close>

lemma buddy_in_range:
  assumes "2 ^ r dvd p" "r < t" "2 ^ t dvd n" "p < (n :: nat)"
  shows "get_buddy_page p r < n"
proof -
  define q where "q = p div 2 ^ t"
  have blk: "q * 2 ^ t \<le> p" "p < (q + 1) * 2 ^ t" by (simp_all add: q_def dividend_less_div_times [of _ p, simplified])
  have "(q + 1) * 2 ^ t \<le> n"
  proof -
    obtain m where m: "n = 2 ^ t * m" using assms(3) by blast
    have "q < m" using assms(4) m by (simp add: q_def less_mult_imp_div_less mult.commute)
    then have "(q + 1) * 2 ^ t \<le> m * 2 ^ t" by (intro mult_le_mono1) simp
    then show ?thesis using m by (simp add: mult.commute)
  qed
  moreover have "get_buddy_page p r < (q + 1) * 2 ^ t"
  proof -
    have "get_buddy_page p r div 2 ^ t = q"
    proof -
      have "(2::nat) ^ r < 2 ^ t" using assms(2) by (simp add: power_strict_increasing)
      then have "drop_bit t ((2::nat) ^ r) = 0" by (simp add: drop_bit_eq_div)
      then show ?thesis
        by (simp add: get_buddy_page_def q_def push_bit_eq_mult flip: drop_bit_eq_div)
    qed
    then show ?thesis using dividend_less_div_times [of "2 ^ t" "get_buddy_page p r"] by simp
  qed
  ultimately show ?thesis by simp
qed

section \<open>The invariant\<close>

definition heads :: "node set" where
  "heads = {Hd a r | a r. a < MMAREA_NUM \<and> r < BUDDY_RANKNUM}"

definition area_pages :: "mmstate \<Rightarrow> nat \<Rightarrow> nat set" where
  "area_pages s a = {p. area_begin s a \<le> page2pa p \<and> page2pa p < area_begin s a + area_size s a}"

text \<open>
  The memory map: every page of the machine is in the area \<^verbatim>\<open>get_pagearea\<close> finds for it, and
  the memory is a multiple of the greatest block, so that no buddy lies beyond the page list.
\<close>

definition areas_ok :: "mmstate \<Rightarrow> bool" where
  "areas_ok s \<longleftrightarrow> 2 ^ 14 dvd n_pages s \<and>
     (\<forall>p<n_pages s. \<exists>a<MMAREA_NUM. p \<in> area_pages s a) \<and>
     (\<forall>a<MMAREA_NUM. \<forall>p\<in>area_pages s a. p < n_pages s \<and> get_pagearea s p = Inr a)"

definition good :: "mmstate \<Rightarrow> nat \<Rightarrow> nat \<Rightarrow> nat \<Rightarrow> bool" where
  "good s a p r \<longleftrightarrow> 2 ^ r dvd p \<and> block p r \<subseteq> area_pages s a"

definition free_blocks :: "(node \<Rightarrow> node list) \<Rightarrow> (nat \<times> nat) set" where
  "free_blocks L = {(p, r). r < BUDDY_RANKNUM \<and> (\<exists>a<MMAREA_NUM. Pg p \<in> set (L (Hd a r)))}"

definition blk :: "nat \<times> nat \<Rightarrow> nat set" where
  "blk x = block (fst x) (snd x)"

definition disjoint_blocks :: "(nat \<times> nat) set \<Rightarrow> bool" where
  "disjoint_blocks B \<longleftrightarrow> (\<forall>x\<in>B. \<forall>y\<in>B. x \<noteq> y \<longrightarrow> blk x \<inter> blk y = {})"

definition pages :: "(nat \<times> nat) set \<Rightarrow> nat set" where
  "pages B = (\<Union>x\<in>B. blk x)"

text \<open>\<open>L\<close> are the free lists and \<open>A\<close> the blocks that have been handed out.\<close>

definition buddy_inv :: "mmstate \<Rightarrow> (node \<Rightarrow> node list) \<Rightarrow> (nat \<times> nat) set \<Rightarrow> bool" where
  "buddy_inv s L A \<longleftrightarrow>
     rings UNIV heads L (links s) \<and>
     (\<forall>h\<in>heads. set (L h) \<subseteq> range Pg) \<and>
     (\<forall>a<MMAREA_NUM. \<forall>r<BUDDY_RANKNUM. \<forall>p. Pg p \<in> set (L (Hd a r)) \<longrightarrow>
        rank_of s p = r \<and> good s a p r) \<and>
     (\<forall>(p, r)\<in>A. r < BUDDY_RANKNUM \<and> rank_of s p = r \<and> (\<exists>a<MMAREA_NUM. good s a p r) \<and>
        Pg p \<notin> members heads L) \<and>
     disjoint_blocks (A \<union> free_blocks L) \<and>
     (\<forall>p. refcount (pagelist s p) = 0) \<and> areas_ok s"

lemma heads_iff [simp]: "Hd a r \<in> heads \<longleftrightarrow> a < MMAREA_NUM \<and> r < BUDDY_RANKNUM" "Pg p \<notin> heads"
  by (auto simp: heads_def)

lemma blk_pair [simp]: "blk (p, r) = block p r"
  by (simp add: blk_def)

lemma in_block [simp]: "p \<in> block p r"
  by (simp add: block_def)

lemma members_heads:
  "x \<in> members heads L \<longleftrightarrow> (\<exists>a<MMAREA_NUM. \<exists>r<BUDDY_RANKNUM. x \<in> set (L (Hd a r)))"
  by (auto simp: members_def heads_def)

lemma free_iff_member: "(\<exists>r. (p, r) \<in> free_blocks L) \<longleftrightarrow> Pg p \<in> members heads L"
  by (auto simp: free_blocks_def members_heads)

text \<open>The fields of the state that the memory map depends on.\<close>

definition same_map :: "mmstate \<Rightarrow> mmstate \<Rightarrow> bool" where
  "same_map s t \<longleftrightarrow> n_pages t = n_pages s \<and> area_begin t = area_begin s \<and> area_size t = area_size s"

lemma same_map_simps [simp]:
  "same_map s (s\<lparr>links := h\<rparr>)" "same_map s (set_rank p r s)" "same_map s (s\<lparr>ram := m\<rparr>)" "same_map s s"
  by (simp_all add: same_map_def set_rank_def)

lemma same_map_trans: "same_map s t \<Longrightarrow> same_map t u \<Longrightarrow> same_map s u"
  by (simp add: same_map_def)

lemma same_map_area:
  assumes "same_map s t"
  shows "area_pages t a = area_pages s a" "get_pagearea t p = get_pagearea s p"
    "areas_ok t = areas_ok s" "good t a p r = good s a p r"
proof -
  have f: "find_area i n t pa = find_area i n s pa" for i n pa
    using assms by (induction n arbitrary: i) (auto simp: same_map_def)
  show ap: "area_pages t a = area_pages s a" for a using assms by (simp add: area_pages_def same_map_def)
  show ga: "get_pagearea t p = get_pagearea s p" for p by (simp add: get_pagearea_def f)
  show "areas_ok t = areas_ok s" using assms by (simp add: areas_ok_def ap ga same_map_def)
  show "good t a p r = good s a p r" by (simp add: good_def ap)
qed

lemma inv_facts:
  assumes "buddy_inv s L A"
  shows "rings UNIV heads L (links s)" "areas_ok s" "disjoint_blocks (A \<union> free_blocks L)"
    "\<And>p. refcount (pagelist s p) = 0"
    "\<And>p r. (p, r) \<in> A \<Longrightarrow> r < BUDDY_RANKNUM \<and> rank_of s p = r \<and> Pg p \<notin> members heads L"
    "\<And>p r. (p, r) \<in> A \<Longrightarrow> \<exists>a<MMAREA_NUM. good s a p r"
    "\<And>a r x. a < MMAREA_NUM \<Longrightarrow> r < BUDDY_RANKNUM \<Longrightarrow> x \<in> set (L (Hd a r)) \<Longrightarrow>
       \<exists>p. x = Pg p \<and> rank_of s p = r \<and> good s a p r"
proof -
  note i = assms [unfolded buddy_inv_def]
  show "rings UNIV heads L (links s)" "areas_ok s" "disjoint_blocks (A \<union> free_blocks L)"
    "\<And>p. refcount (pagelist s p) = 0"
    "\<And>p r. (p, r) \<in> A \<Longrightarrow> r < BUDDY_RANKNUM \<and> rank_of s p = r \<and> Pg p \<notin> members heads L"
    "\<And>p r. (p, r) \<in> A \<Longrightarrow> \<exists>a<MMAREA_NUM. good s a p r"
    using i by auto
  fix a r x assume a: "a < MMAREA_NUM" "r < BUDDY_RANKNUM" "x \<in> set (L (Hd a r))"
  then have "Hd a r \<in> heads" by simp
  then have "x \<in> range Pg" using i a(3) by blast
  then show "\<exists>p. x = Pg p \<and> rank_of s p = r \<and> good s a p r" using i a by auto
qed

lemma good_area: "areas_ok s \<Longrightarrow> good s a p r \<Longrightarrow> a < MMAREA_NUM \<Longrightarrow> p < n_pages s \<and> get_pagearea s p = Inr a"
  using in_block [of p r] unfolding areas_ok_def good_def by blast

section \<open>The four moves of the allocator\<close>

lemma disjoint_sub: "disjoint_blocks B \<Longrightarrow> C \<subseteq> B \<Longrightarrow> disjoint_blocks C"
  unfolding disjoint_blocks_def by blast

lemma members_cons: "h \<in> H \<Longrightarrow> members H (L(h := x # L h)) = insert x (members H L)"
  by (auto simp: members_def split: if_splits)

lemma members_less:
  assumes "h \<in> H" "set ys = set (L h) - {x}" "\<And>b. b \<in> H \<Longrightarrow> b \<noteq> h \<Longrightarrow> x \<notin> set (L b)"
  shows "members H (L(h := ys)) = members H L - {x}"
  using assms by (auto simp: members_def split: if_splits)

lemma buddy_invI:
  assumes "rings UNIV heads L (links s)" "areas_ok s" "disjoint_blocks (A \<union> free_blocks L)"
    "\<And>p. refcount (pagelist s p) = 0"
    "\<And>p r. (p, r) \<in> A \<Longrightarrow> r < BUDDY_RANKNUM \<and> rank_of s p = r \<and> Pg p \<notin> members heads L"
    "\<And>p r. (p, r) \<in> A \<Longrightarrow> \<exists>a<MMAREA_NUM. good s a p r"
    "\<And>a r x. a < MMAREA_NUM \<Longrightarrow> r < BUDDY_RANKNUM \<Longrightarrow> x \<in> set (L (Hd a r)) \<Longrightarrow>
       \<exists>p. x = Pg p \<and> rank_of s p = r \<and> good s a p r"
  shows "buddy_inv s L A"
proof -
  have "set (L h) \<subseteq> range Pg" if "h \<in> heads" for h
    using that assms(7) by (fastforce simp: heads_def)
  moreover have "rank_of s p = r \<and> good s a p r"
    if "a < MMAREA_NUM" "r < BUDDY_RANKNUM" "Pg p \<in> set (L (Hd a r))" for a r p
    using assms(7) [OF that] by auto
  moreover have "case x of (p, r) \<Rightarrow> r < BUDDY_RANKNUM \<and> rank_of s p = r \<and>
      (\<exists>a<MMAREA_NUM. good s a p r) \<and> Pg p \<notin> members heads L" if "x \<in> A" for x
    using assms(5,6) that by (cases x) auto
  ultimately show ?thesis using assms(1-4) unfolding buddy_inv_def by simp
qed

lemma free_blocks_upd:
  assumes "a < MMAREA_NUM" "r < BUDDY_RANKNUM"
  shows "free_blocks (L(Hd a r := Pg p # L (Hd a r))) = insert (p, r) (free_blocks L)"
  using assms by (auto simp: free_blocks_def)

lemma free_blocks_del:
  assumes "rings UNIV heads L h" "a < MMAREA_NUM" "r < BUDDY_RANKNUM" "Pg p \<in> set (L (Hd a r))"
    and "set ys = set (L (Hd a r)) - {Pg p}"
  shows "free_blocks (L(Hd a r := ys)) = free_blocks L - {(p, r)}"
    "members heads (L(Hd a r := ys)) = members heads L - {Pg p}"
    "\<And>x a' t. a' < MMAREA_NUM \<Longrightarrow> t < BUDDY_RANKNUM \<Longrightarrow>
       x \<in> set ((L(Hd a r := ys)) (Hd a' t)) \<longleftrightarrow> x \<in> set (L (Hd a' t)) \<and> x \<noteq> Pg p"
proof -
  have u: "Pg p \<notin> set (L (Hd a' r'))" if "a' < MMAREA_NUM" "r' < BUDDY_RANKNUM" "(a', r') \<noteq> (a, r)" for a' r'
    using rings_disjoint [OF assms(1) _ assms(4), of "Hd a' r'"] assms(2,3) that by auto
  show e: "x \<in> set ((L(Hd a r := ys)) (Hd a' t)) \<longleftrightarrow> x \<in> set (L (Hd a' t)) \<and> x \<noteq> Pg p"
    if "a' < MMAREA_NUM" "t < BUDDY_RANKNUM" for x a' t
    using u [OF that] assms(5) by (cases "(a', t) = (a, r)") auto
  have "(q, t) \<in> free_blocks (L(Hd a r := ys)) \<longleftrightarrow> (q, t) \<in> free_blocks L - {(p, r)}" for q t
  proof -
    have "(q, t) \<in> free_blocks (L(Hd a r := ys)) \<longleftrightarrow> (q, t) \<in> free_blocks L \<and> q \<noteq> p"
    proof -
      define L' where "L' = L(Hd a r := ys)"
      have "\<And>x a' t. a' < MMAREA_NUM \<Longrightarrow> t < BUDDY_RANKNUM \<Longrightarrow>
          x \<in> set (L' (Hd a' t)) \<longleftrightarrow> x \<in> set (L (Hd a' t)) \<and> x \<noteq> Pg p"
        unfolding L'_def by (rule e)
      then show ?thesis unfolding free_blocks_def L'_def [symmetric] by auto
    qed
    also have "\<dots> \<longleftrightarrow> (q, t) \<in> free_blocks L - {(p, r)}"
      using u unfolding free_blocks_def by auto
    finally show ?thesis .
  qed
  then show "free_blocks (L(Hd a r := ys)) = free_blocks L - {(p, r)}" by auto
  show "members heads (L(Hd a r := ys)) = members heads L - {Pg p}"
    using assms(2,3,5) u by (intro members_less) (auto simp: heads_def)
qed

text \<open>Taking a block off its free list.\<close>

lemma take_block:
  assumes inv: "buddy_inv s L A" and a: "a < MMAREA_NUM" "r < BUDDY_RANKNUM" "Pg p \<in> set (L (Hd a r))"
    and ys: "set ys = set (L (Hd a r)) - {Pg p}" and h: "rings UNIV heads (L(Hd a r := ys)) h"
  shows "buddy_inv (s\<lparr>links := h\<rparr>) (L(Hd a r := ys)) (insert (p, r) A)"
    "(p, r) \<in> free_blocks L" "(p, r) \<notin> A" "free_blocks (L(Hd a r := ys)) = free_blocks L - {(p, r)}"
proof -
  note f = inv_facts [OF inv]
  note d = free_blocks_del [OF f(1) a ys]
  show free: "(p, r) \<in> free_blocks L" using a by (auto simp: free_blocks_def)
  show "(p, r) \<notin> A" using f(5) [of p r] a by (auto simp: members_heads)
  show "free_blocks (L(Hd a r := ys)) = free_blocks L - {(p, r)}" by (rule d)
  have "insert (p, r) A \<union> free_blocks (L(Hd a r := ys)) = A \<union> free_blocks L"
    using free by (auto simp: d)
  moreover have "rank_of s p = r \<and> good s a p r" using f(7) [OF a] by auto
  ultimately show "buddy_inv (s\<lparr>links := h\<rparr>) (L(Hd a r := ys)) (insert (p, r) A)"
    using h f(2,3,4,5,6) f(7) a
    by (intro buddy_invI) (simp_all only: same_map_area [OF same_map_simps(1)] d rank_of_links, auto)
qed

text \<open>Putting a block on its free list.\<close>

lemma give_block:
  assumes inv: "buddy_inv s L A" and a: "a < MMAREA_NUM" "(p, r) \<in> A" "good s a p r"
    and h: "rings UNIV heads (L(Hd a r := Pg p # L (Hd a r))) h"
  shows "buddy_inv (s\<lparr>links := h\<rparr>) (L(Hd a r := Pg p # L (Hd a r))) (A - {(p, r)})"
    "free_blocks (L(Hd a r := Pg p # L (Hd a r))) = insert (p, r) (free_blocks L)"
proof -
  note f = inv_facts [OF inv]
  have r: "r < BUDDY_RANKNUM" "rank_of s p = r" "Pg p \<notin> members heads L" using f(5) [OF a(2)] by auto
  show u: "free_blocks (L(Hd a r := Pg p # L (Hd a r))) = insert (p, r) (free_blocks L)"
    by (rule free_blocks_upd [OF a(1) r(1)])
  have m: "members heads (L(Hd a r := Pg p # L (Hd a r))) = insert (Pg p) (members heads L)"
    using a(1) r(1) by (intro members_cons) simp
  have "A - {(p, r)} \<union> free_blocks (L(Hd a r := Pg p # L (Hd a r))) = A \<union> free_blocks L"
    using a(2) by (auto simp: u)
  moreover have "q \<noteq> p" if "(q, t) \<in> A - {(p, r)}" for q t using f(5) [of q t] r that by auto
  ultimately show "buddy_inv (s\<lparr>links := h\<rparr>) (L(Hd a r := Pg p # L (Hd a r))) (A - {(p, r)})"
    using h f a r
    by (intro buddy_invI) (simp_all add: same_map_area [OF same_map_simps(1)] m, auto split: if_splits)
qed

lemma disjoint_split:
  "disjoint_blocks B \<Longrightarrow> x \<in> B \<Longrightarrow> blk y \<union> blk z \<subseteq> blk x \<Longrightarrow> blk y \<inter> blk z = {} \<Longrightarrow>
     disjoint_blocks (insert y (insert z (B - {x})))"
  unfolding disjoint_blocks_def by (intro ballI impI) (elim insertE; blast)

lemma disjoint_merge:
  "disjoint_blocks B \<Longrightarrow> y \<in> B \<Longrightarrow> z \<in> B \<Longrightarrow> blk x \<subseteq> blk y \<union> blk z \<Longrightarrow>
     disjoint_blocks (insert x (B - {y, z}))"
  unfolding disjoint_blocks_def by (intro ballI impI) (elim insertE; blast)

lemma disjoint_point:
  "disjoint_blocks B \<Longrightarrow> x \<in> B \<Longrightarrow> y \<in> B \<Longrightarrow> p \<in> blk x \<Longrightarrow> p \<in> blk y \<Longrightarrow> x = y"
  unfolding disjoint_blocks_def by blast

text \<open>Changing the ranks of pages that head no other block.\<close>

lemma rerank:
  assumes inv: "buddy_inv s L A" and sub: "A' \<subseteq> A"
    and map: "same_map s t" "links t = links s" "\<And>p. refcount (pagelist t p) = 0"
    and keep: "\<And>q r. (q, r) \<in> A' \<union> free_blocks L \<Longrightarrow> rank_of t q = rank_of s q"
    and new: "\<And>q r. (q, r) \<in> N \<Longrightarrow> r < BUDDY_RANKNUM \<and> rank_of t q = r \<and> Pg q \<notin> members heads L"
      "\<And>q r. (q, r) \<in> N \<Longrightarrow> \<exists>a<MMAREA_NUM. good s a q r"
    and d: "disjoint_blocks (N \<union> A' \<union> free_blocks L)"
  shows "buddy_inv t L (N \<union> A')"
proof -
  note f = inv_facts [OF inv]
  note m = same_map_area [OF map(1)]
  show ?thesis
  proof (rule buddy_invI)
    show "rings UNIV heads L (links t)" "areas_ok t" "disjoint_blocks (N \<union> A' \<union> free_blocks L)"
      using f map d by (simp_all add: m)
    show "refcount (pagelist t p) = 0" for p by (rule map)
    fix q r assume q: "(q, r) \<in> N \<union> A'"
    show "r < BUDDY_RANKNUM \<and> rank_of t q = r \<and> Pg q \<notin> members heads L"
      using q f(5) [of q r] sub keep [of q r] new(1) [of q r] by auto
    show "\<exists>a<MMAREA_NUM. good t a q r"
      unfolding m using q f(6) [of q r] sub new(2) [of q r] by auto
  next
    fix a r x assume a: "a < MMAREA_NUM" "r < BUDDY_RANKNUM" "x \<in> set (L (Hd a r))"
    then obtain q where q: "x = Pg q" "rank_of s q = r" "good s a q r" using f(7) by blast
    then have "(q, r) \<in> free_blocks L" using a by (auto simp: free_blocks_def)
    then have "rank_of t q = r" using keep [of q r] q by simp
    then show "\<exists>p. x = Pg p \<and> rank_of t p = r \<and> good t a p r" using q by (auto simp: m)
  qed
qed

lemma split_block:
  assumes inv: "buddy_inv s L A" and p: "(p, Suc k) \<in> A"
  defines "b \<equiv> get_buddy_page p k"
  shows "b < n_pages s"
    "buddy_inv (set_rank b k (set_rank p k s)) L ({(p, k), (b, k)} \<union> (A - {(p, Suc k)}))"
    "good s a p (Suc k) \<Longrightarrow> good s a p k \<and> good s a b k"
    "block p k \<union> block b k = block p (Suc k)" "block p k \<inter> block b k = {}" "Pg b \<notin> members heads L"
proof -
  note f = inv_facts [OF inv]
  have k: "Suc k < BUDDY_RANKNUM" "Pg p \<notin> members heads L" using f(5) [OF p] by auto
  obtain a0 where a0: "a0 < MMAREA_NUM" "good s a0 p (Suc k)" using f(6) [OF p] by blast
  then have al: "2 ^ Suc k dvd p" by (simp add: good_def)
  have b: "b = p + 2 ^ k" "2 ^ k dvd p" using lower_half [OF al] by (simp_all add: b_def)
  note bf = buddy_facts [OF b(2), folded b_def]
  have min: "min p b = p" using b by simp
  show un: "block p k \<union> block b k = block p (Suc k)" "block p k \<inter> block b k = {}"
    using bf min by simp_all
  then have sub: "block p k \<subseteq> block p (Suc k)" "block b k \<subseteq> block p (Suc k)" by auto
  show g: "good s a p k \<and> good s a b k" if "good s a p (Suc k)" for a
    using that bf(2) b(2) sub unfolding good_def by blast
  have "good s a0 b k" using g [OF a0(2)] by simp
  then show "b < n_pages s" using good_area [OF f(2) _ a0(1)] by blast
  have inb: "p \<in> blk (p, Suc k)" "b \<in> blk (p, Suc k)" using sub in_block [of b k] by auto
  have nf: "(b, r) \<notin> free_blocks L" for r
  proof
    assume r: "(b, r) \<in> free_blocks L"
    then have "(b, r) = (p, Suc k)"
      using disjoint_point [OF f(3), of "(b, r)" "(p, Suc k)" b] p inb by auto
    then show False using bf(1) by simp
  qed
  then show nb: "Pg b \<notin> members heads L" using free_iff_member [of b L] by blast
  show "buddy_inv (set_rank b k (set_rank p k s)) L ({(p, k), (b, k)} \<union> (A - {(p, Suc k)}))"
  proof (rule rerank [OF inv])
    show "same_map s (set_rank b k (set_rank p k s))"
      using same_map_trans same_map_simps by blast
    show "links (set_rank b k (set_rank p k s)) = links s" by (simp add: set_rank_def)
    show "refcount (pagelist (set_rank b k (set_rank p k s)) q) = 0" for q
      using f(4) by (simp add: set_rank_def)
    show "rank_of (set_rank b k (set_rank p k s)) q = rank_of s q"
      if "(q, r) \<in> A - {(p, Suc k)} \<union> free_blocks L" for q r
    proof -
      have "(q, r) \<noteq> (p, Suc k)" using that k(2) free_iff_member [of p L] by auto
      then have "q \<noteq> p \<and> q \<noteq> b"
        using disjoint_point [OF f(3), of "(q, r)" "(p, Suc k)" q] that p inb by auto
      then show ?thesis by simp
    qed
    have fp: "(p, Suc k) \<notin> free_blocks L" using k(2) free_iff_member [of p L] by blast
    have "disjoint_blocks (insert (p, k) (insert (b, k) (A \<union> free_blocks L - {(p, Suc k)})))"
      by (rule disjoint_split [OF f(3)]) (use p un in auto)
    then show "disjoint_blocks ({(p, k), (b, k)} \<union> (A - {(p, Suc k)}) \<union> free_blocks L)"
      by (rule disjoint_sub) (use fp in auto)
    show "r < BUDDY_RANKNUM \<and> rank_of (set_rank b k (set_rank p k s)) q = r \<and> Pg q \<notin> members heads L"
      if "(q, r) \<in> {(p, k), (b, k)}" for q r
      using that k nb bf(1) by auto
    show "\<exists>a<MMAREA_NUM. good s a q r" if "(q, r) \<in> {(p, k), (b, k)}" for q r
      using that g [OF a0(2)] a0(1) by auto
  qed simp
qed

lemma merge_block:
  assumes inv: "buddy_inv s L A" and p: "(p, r) \<in> A" "(b, r) \<in> A" and b: "b = get_buddy_page p r"
    and r: "Suc r < BUDDY_RANKNUM" and a: "a < MMAREA_NUM" "good s a p r" "good s a b r"
  defines "q \<equiv> min p b"
  shows "buddy_inv (set_rank q (Suc r) s) L ({(q, Suc r)} \<union> (A - {(p, r), (b, r)}))"
    "good s a q (Suc r)" "block q (Suc r) = block p r \<union> block b r"
proof -
  note f = inv_facts [OF inv]
  have "2 ^ r dvd p" using a(2) by (simp add: good_def)
  note bf = buddy_facts [OF this, folded b]
  show un: "block q (Suc r) = block p r \<union> block b r" using bf by (simp add: q_def)
  show gq: "good s a q (Suc r)" using a bf un by (auto simp: good_def q_def)
  have q: "q = p \<or> q = b" by (auto simp: q_def min_def)
  show "buddy_inv (set_rank q (Suc r) s) L ({(q, Suc r)} \<union> (A - {(p, r), (b, r)}))"
  proof (rule rerank [OF inv])
    show "same_map s (set_rank q (Suc r) s)" by simp
    show "links (set_rank q (Suc r) s) = links s" by (simp add: set_rank_def)
    show "refcount (pagelist (set_rank q (Suc r) s) x) = 0" for x using f(4) by (simp add: set_rank_def)
    have nf: "(p, t) \<notin> free_blocks L" "(b, t) \<notin> free_blocks L" for t
      using f(5) [OF p(1)] f(5) [OF p(2)] free_iff_member [of p L] free_iff_member [of b L] by blast+
    show "rank_of (set_rank q (Suc r) s) x = rank_of s x"
      if "(x, t) \<in> A - {(p, r), (b, r)} \<union> free_blocks L" for x t
    proof -
      have "x \<noteq> p" "x \<noteq> b"
        using that p nf disjoint_point [OF f(3), of "(x, t)" "(p, r)" p]
          disjoint_point [OF f(3), of "(x, t)" "(b, r)" b] by auto
      then show ?thesis using q by auto
    qed
    have "disjoint_blocks (insert (q, Suc r) (A \<union> free_blocks L - {(p, r), (b, r)}))"
      by (rule disjoint_merge [OF f(3)]) (use p un in auto)
    then show "disjoint_blocks ({(q, Suc r)} \<union> (A - {(p, r), (b, r)}) \<union> free_blocks L)"
      by (rule disjoint_sub) (use nf in auto)
    show "t < BUDDY_RANKNUM \<and> rank_of (set_rank q (Suc r) s) x = t \<and> Pg x \<notin> members heads L"
      if "(x, t) \<in> {(q, Suc r)}" for x t
      using that r q f(5) [OF p(1)] f(5) [OF p(2)] by auto
    show "\<exists>a<MMAREA_NUM. good s a x t" if "(x, t) \<in> {(q, Suc r)}" for x t
      using that gq a(1) by auto
  qed simp
qed

section \<open>Allocation\<close>

lemma pages_simps [simp]: "pages (insert x B) = blk x \<union> pages B" "pages {} = {}"
  by (auto simp: pages_def)

lemma pages_minus: "disjoint_blocks B \<Longrightarrow> x \<in> B \<Longrightarrow> pages (B - {x}) = pages B - blk x"
  unfolding pages_def disjoint_blocks_def by blast

lemma free_disjoint: "buddy_inv s L A \<Longrightarrow> disjoint_blocks (free_blocks L)"
  by (rule disjoint_sub [OF inv_facts(3)]) auto

lemma free_apart: "buddy_inv s L A \<Longrightarrow> x \<in> A \<Longrightarrow> blk x \<inter> pages (free_blocks L) = {}"
proof -
  assume inv: "buddy_inv s L A" and x: "x \<in> A"
  have "y \<noteq> x" if "y \<in> free_blocks L" for y
  proof
    assume "y = x"
    then have "Pg (fst x) \<in> members heads L" using that free_iff_member [of "fst x" L] by (cases x) auto
    then show False using inv_facts(5) [OF inv, of "fst x" "snd x"] x by simp
  qed
  then show ?thesis
    using inv_facts(3) [OF inv] x unfolding pages_def disjoint_blocks_def by blast
qed

lemma split_loop_ok:
  "buddy_inv s L A \<Longrightarrow> (p, rank + d) \<in> A \<Longrightarrow> a < MMAREA_NUM \<Longrightarrow> good s a p (rank + d) \<Longrightarrow>
     \<exists>s' L'. split_loop d a p s = Inr s' \<and> buddy_inv s' L' (insert (p, rank) (A - {(p, rank + d)})) \<and>
       pages (free_blocks L') \<union> block p rank = pages (free_blocks L) \<union> block p (rank + d) \<and>
       good s' a p rank \<and> same_map s s' \<and> ram s' = ram s"
proof (induction d arbitrary: s L A)
  case 0
  then show ?case by (auto simp: insert_absorb)
next
  case (Suc d)
  define k where "k = rank + d"
  have p: "(p, Suc k) \<in> A" using Suc.prems(2) by (simp add: k_def)
  define b where "b = get_buddy_page p k"
  define s2 where "s2 = set_rank b k (set_rank p k s)"
  note sp = split_block [OF Suc.prems(1) p, folded b_def, folded s2_def]
  have rk: "rank_of s p - 1 = k" using inv_facts(5) [OF Suc.prems(1) p] by simp
  have k: "k < BUDDY_RANKNUM" using inv_facts(5) [OF Suc.prems(1) p] by simp
  have good: "good s a p k" "good s a b k" using sp(3) [of a] Suc.prems(4) by (simp_all add: k_def)
  have m2: "same_map s s2" unfolding s2_def using same_map_trans same_map_simps by blast
  have links2: "links s2 = links s" "ram s2 = ram s" by (simp_all add: s2_def set_rank_def)
  obtain h where h: "list_add_head (Pg b) (Hd a k) (links s2) = Inr h"
      "rings UNIV heads (L(Hd a k := Pg b # L (Hd a k))) h"
    using lh.add_head [OF inv_facts(1) [OF sp(2)], of "Hd a k" "Pg b"] Suc.prems(3) k sp(6) by auto
  define s3 where "s3 = s2\<lparr>links := h\<rparr>"
  define L3 where "L3 = L(Hd a k := Pg b # L (Hd a k))"
  have g2: "good s2 a b k" using good same_map_area(4) [OF m2] by simp
  note gv = give_block [OF sp(2) Suc.prems(3) _ g2 h(2), folded s3_def L3_def, simplified]
  have bA: "(b, k) \<notin> A"
  proof
    assume "(b, k) \<in> A"
    have "b \<in> block p (Suc k)" using sp(4) in_block [of b k] by blast
    with \<open>(b, k) \<in> A\<close> have "(b, k) = (p, Suc k)"
      using disjoint_point [OF inv_facts(3) [OF Suc.prems(1)], of "(b, k)" "(p, Suc k)" b] p by auto
    then show False by simp
  qed
  have pk: "(p, k) \<notin> A" using inv_facts(5) [OF Suc.prems(1), of p k] inv_facts(5) [OF Suc.prems(1) p] by auto
  have bp: "b \<noteq> p" using sp(5) in_block [of p k] in_block [of b k] by blast
  have A3: "{(p, k), (b, k)} \<union> (A - {(p, Suc k)}) - {(b, k)} = insert (p, k) (A - {(p, Suc k)})"
    using bA bp by auto
  have inv3: "buddy_inv s3 L3 (insert (p, k) (A - {(p, Suc k)}))" using gv(1) A3 by (simp add: insert_commute)
  have m3: "same_map s s3" using m2 same_map_trans same_map_simps by (simp add: s3_def same_map_def)
  have "good s3 a p (rank + d)" using good same_map_area(4) [OF m3] by (simp add: k_def)
  then obtain s' L' where r: "split_loop d a p s3 = Inr s'"
      "buddy_inv s' L' (insert (p, rank) (insert (p, k) (A - {(p, Suc k)}) - {(p, rank + d)}))"
      "pages (free_blocks L') \<union> block p rank = pages (free_blocks L3) \<union> block p (rank + d)"
      "good s' a p rank" "same_map s3 s'" "ram s' = ram s3"
    using Suc.IH [OF inv3 _ Suc.prems(3)] by (auto simp: k_def)
  have "insert (p, rank) (insert (p, k) (A - {(p, Suc k)}) - {(p, rank + d)}) = insert (p, rank) (A - {(p, rank + Suc d)})"
    using pk by (auto simp: k_def)
  moreover have "split_loop (Suc d) a p s = split_loop d a p s3"
    using h sp(1) rk m2 by (simp add: Let_def b_def s2_def s3_def same_map_def set_rank_def)
  moreover have "pages (free_blocks L') \<union> block p rank = pages (free_blocks L) \<union> block p (rank + Suc d)"
    using r(3) gv(2) sp(4) by (auto simp: k_def)
  moreover have "ram s3 = ram s" by (simp add: s3_def links2)
  ultimately show ?case using r same_map_trans [OF m3 r(5)] by auto
qed

lemma find_rank_ok:
  assumes "buddy_inv s L A" "a < MMAREA_NUM"
  shows "i + n \<le> BUDDY_RANKNUM \<Longrightarrow>
    (case find_rank s a i n of
       None \<Rightarrow> \<forall>r. i \<le> r \<and> r < i + n \<longrightarrow> L (Hd a r) = []
     | Some r \<Rightarrow> i \<le> r \<and> r < i + n \<and> L (Hd a r) \<noteq> [])"
proof (induction n arbitrary: i)
  case (Suc n)
  have e: "check_list_empty (Hd a i) (links s) \<longleftrightarrow> L (Hd a i) = []"
    using lh.is_empty [OF inv_facts(1) [OF assms(1)], of "Hd a i"] assms(2) Suc.prems by simp
  show ?case
  proof (cases "check_list_empty (Hd a i) (links s)")
    case True
    have "(\<forall>r. i \<le> r \<and> r < i + Suc n \<longrightarrow> P r) \<longleftrightarrow> P i \<and> (\<forall>r. i + 1 \<le> r \<and> r < i + 1 + n \<longrightarrow> P r)" for P
    proof safe
      fix r assume "P i" "\<forall>r. i + 1 \<le> r \<and> r < i + 1 + n \<longrightarrow> P r" "i \<le> r" "r < i + Suc n"
      then show "P r" by (cases "r = i") auto
    qed auto
    then show ?thesis using Suc.IH [of "i + 1"] Suc.prems e True by (auto split: option.splits)
  next
    case False
    then show ?thesis using e by simp
  qed
qed auto

text \<open>The result of \<^verbatim>\<open>page_alloc\<close>, with the blocks handed out and the free pages.\<close>

lemma page_alloc_ok:
  assumes inv: "buddy_inv s L A" and a: "a < MMAREA_NUM" and r: "rank < BUDDY_RANKNUM"
  shows "(\<exists>s'. page_alloc rank a zero s = Inr (None, s') \<and> s' = s \<and>
      (area_size s a = 0 \<or> (\<forall>t. rank \<le> t \<and> t < BUDDY_RANKNUM \<longrightarrow> L (Hd a t) = []))) \<or>
    (\<exists>p s' L'. page_alloc rank a zero s = Inr (Some (page2pa p), s') \<and>
      buddy_inv s' L' (insert (p, rank) A) \<and> (p, rank) \<notin> A \<and> good s' a p rank \<and>
      block p rank \<subseteq> pages (free_blocks L) \<and>
      pages (free_blocks L') = pages (free_blocks L) - block p rank \<and>
      (zero \<longrightarrow> ram s' = memset (of_nat (page2pa p)) 0 (2 ^ (rank + 12)) (ram s)))"
proof (cases "area_size s a = 0 \<or> find_rank s a rank (BUDDY_RANKNUM - rank) = None")
  case True
  then have "page_alloc rank a zero s = Inr (None, s)" using a by (auto simp: page_alloc_def)
  moreover have "area_size s a = 0 \<or> (\<forall>t. rank \<le> t \<and> t < BUDDY_RANKNUM \<longrightarrow> L (Hd a t) = [])"
    using True find_rank_ok [OF inv a, of rank "BUDDY_RANKNUM - rank"] r by (auto split: option.splits)
  ultimately show ?thesis by blast
next
  case False
  then obtain i where i: "find_rank s a rank (BUDDY_RANKNUM - rank) = Some i" by auto
  then have ib: "rank \<le> i" "i < BUDDY_RANKNUM" "L (Hd a i) \<noteq> []"
    using find_rank_ok [OF inv a, of rank "BUDDY_RANKNUM - rank"] r by auto
  then obtain x xs where L: "L (Hd a i) = x # xs" by (cases "L (Hd a i)") auto
  then obtain p where p: "x = Pg p" "rank_of s p = i" "good s a p i"
    using inv_facts(7) [OF inv a ib(2), of x] by auto
  have dist: "distinct (L (Hd a i))" using lh.list_distinct [OF inv_facts(1) [OF inv], of "Hd a i"] a ib by simp
  obtain h where h: "list_remove_head (Hd a i) (links s) = Inr (x, h)" "rings UNIV heads (L(Hd a i := xs)) h"
    using lh.remove_head [OF inv_facts(1) [OF inv] _ L] a ib by auto
  have pin: "Pg p \<in> set (L (Hd a i))" and xs: "set xs = set (L (Hd a i)) - {Pg p}"
    using dist by (auto simp: L p)
  define s1 where "s1 = s\<lparr>links := h\<rparr>"
  define L1 where "L1 = L(Hd a i := xs)"
  note tk = take_block [OF inv a ib(2) pin xs h(2), folded s1_def L1_def]
  have g1: "good s1 a p (rank + (i - rank))"
    using p(3) ib same_map_area(4) [OF same_map_simps(1)] by (simp add: s1_def)
  have in1: "(p, rank + (i - rank)) \<in> insert (p, i) A" using ib by simp
  obtain s2 L2 where s2: "split_loop (i - rank) a p s1 = Inr s2"
      "buddy_inv s2 L2 (insert (p, rank) (insert (p, i) A - {(p, rank + (i - rank))}))"
      "pages (free_blocks L2) \<union> block p rank = pages (free_blocks L1) \<union> block p (rank + (i - rank))"
      "good s2 a p rank" "ram s2 = ram s1"
    using split_loop_ok [OF tk(1) in1 a g1] by blast
  have A2: "insert (p, rank) (insert (p, i) A - {(p, rank + (i - rank))}) = insert (p, rank) A"
    using tk(3) ib by auto
  have fr: "pages (free_blocks L1) = pages (free_blocks L) - block p i"
    using tk(2,4) pages_minus [OF free_disjoint [OF inv] tk(2)] by simp
  have sub: "block p i \<subseteq> pages (free_blocks L)"
    using tk(2) by (auto simp: pages_def intro!: bexI [of _ "(p, i)"])
  have "block p rank \<subseteq> block p i" using ib by (auto simp: block_def intro: order_less_le_trans power_increasing)
  then have sub': "block p rank \<subseteq> pages (free_blocks L)" using sub by blast
  have "block p rank \<inter> pages (free_blocks L2) = {}"
    using free_apart [OF s2(2) [unfolded A2], of "(p, rank)"] by simp
  then have fin: "pages (free_blocks L2) = pages (free_blocks L) - block p rank"
    using s2(3) fr sub ib by auto
  have new: "(p, rank) \<notin> A"
  proof
    assume "(p, rank) \<in> A"
    then show False using inv_facts(5) [OF inv, of p rank] pin a ib by (auto simp: members_heads)
  qed
  define s3 where "s3 = (if zero then s2\<lparr>ram := memset (of_nat (page2pa p)) 0 (push_bit (rank + 12) 1) (ram s2)\<rparr> else s2)"
  have al: "page_alloc rank a zero s = Inr (Some (page2pa p), s3)"
    using a False i h(1) p s2(1) unfolding page_alloc_def s3_def s1_def by (simp add: Let_def)
  have m3: "same_map s2 s3" "links s3 = links s2" "pagelist s3 = pagelist s2"
    by (simp_all add: s3_def same_map_def)
  have "buddy_inv s3 L2 (insert (p, rank) A)"
    using s2(2) [unfolded A2] m3 same_map_area [OF m3(1)] by (simp add: buddy_inv_def rank_of_def)
  moreover have "good s3 a p rank" using s2(4) same_map_area(4) [OF m3(1)] by simp
  moreover have "zero \<longrightarrow> ram s3 = memset (of_nat (page2pa p)) 0 (2 ^ (rank + 12)) (ram s)"
    by (simp add: s3_def s2(5) s1_def push_bit_eq_mult)
  ultimately show ?thesis using al new sub' fin by blast
qed

section \<open>Freeing\<close>

lemma good_same_area:
  assumes "areas_ok s" "good s a p r" "a < MMAREA_NUM"
  shows "p < n_pages s" "get_pagearea s p = Inr a"
  using good_area [OF assms] by auto

lemma coalesce_ok:
  "buddy_inv s L A \<Longrightarrow> (p, r) \<in> A \<Longrightarrow> a < MMAREA_NUM \<Longrightarrow> good s a p r \<Longrightarrow>
     \<exists>q t s' L'. coalesce a p s = Inr (q, s') \<and> buddy_inv s' L' (insert (q, t) (A - {(p, r)})) \<and>
       (q, t) \<notin> A - {(p, r)} \<and> good s' a q t \<and> same_map s s' \<and> n_pages s' = n_pages s \<and>
       pages (free_blocks L') \<union> block q t = pages (free_blocks L) \<union> block p r"
proof (induction a p s arbitrary: L A r rule: coalesce.induct)
  case (1 a p s)
  note inv = 1(2) and pA = 1(3) and a = 1(4) and g = 1(5)
  note f = inv_facts [OF inv]
  have rk: "rank_of s p = r" "r < BUDDY_RANKNUM" using f(5) [OF pA] by auto
  define b where "b = get_buddy_page p r"
  have stop: ?case if "coalesce a p s = Inr (p, s)"
  proof -
    have "insert (p, r) (A - {(p, r)}) = A" using pA by auto
    then show ?thesis using that inv g by (intro exI [of _ p] exI [of _ r] exI [of _ s] exI [of _ L]) simp
  qed
  show ?case
  proof (cases "r < BUDDY_RANKNUM - 1")
    case False
    then show ?thesis by (intro stop) (simp add: coalesce.simps rk)
  next
    case True
    have bn: "b < n_pages s"
      unfolding b_def
      by (rule buddy_in_range [where t = 14])
         (use g True f(2) good_same_area(1) [OF f(2) g a] in \<open>auto simp: good_def areas_ok_def BUDDY_RANKNUM_def\<close>)
    show ?thesis
    proof (cases "check_node_outoflist (Pg b) (links s) \<or> rank_of s b \<noteq> r")
      case True
      then show ?thesis using bn by (intro stop) (auto simp: coalesce.simps [of a p] rk b_def [symmetric] Let_def)
    next
      case False
      then have "Pg b \<in> members heads L" using rings_outoflist_iff [OF f(1), of "Pg b"] by simp
      then obtain a' r' where m: "a' < MMAREA_NUM" "r' < BUDDY_RANKNUM" "Pg b \<in> set (L (Hd a' r'))"
        by (auto simp: members_heads)
      then have r': "r' = r" and g': "good s a' b r" using f(7) [OF m] False by auto
      have ga: "get_pagearea s b = Inr a'" by (rule good_same_area(2) [OF f(2) g' m(1)])
      show ?thesis
      proof (cases "a' = a")
        case False
        then show ?thesis using True ga \<open>\<not> (check_node_outoflist (Pg b) (links s) \<or> rank_of s b \<noteq> r)\<close>
          using bn by (intro stop) (auto simp: coalesce.simps [of a p] rk b_def [symmetric] Let_def)
      next
        case same: True
        have pin: "Pg b \<in> set (L (Hd a r))" using m r' same by simp
        have dist: "distinct (L (Hd a r))" using lh.list_distinct [OF f(1), of "Hd a r"] a rk by simp
        define ys where "ys = remove1 (Pg b) (L (Hd a r))"
        have ys: "set ys = set (L (Hd a r)) - {Pg b}" using dist by (simp add: ys_def)
        obtain h where h: "list_remove (Pg b) (links s) = Inr h" "rings UNIV heads (L(Hd a r := ys)) h"
          using lh.remove [OF f(1) _ pin] a rk by (auto simp: ys_def)
        define s1 where "s1 = s\<lparr>links := h\<rparr>"
        define L1 where "L1 = L(Hd a r := ys)"
        note tk = take_block [OF inv a rk(2) pin ys h(2), folded s1_def L1_def]
        define q where "q = min p b"
        have g1: "good s1 a p r" "good s1 a b r"
          using g g' same same_map_area(4) [OF same_map_simps(1)] by (simp_all add: s1_def)
        have pr: "Suc r < BUDDY_RANKNUM" using True by simp
        have pi: "(p, r) \<in> insert (b, r) A" "(b, r) \<in> insert (b, r) A" using pA by auto
        note mg = merge_block [OF tk(1) pi b_def pr a g1, folded q_def]
        define s2 where "s2 = set_rank q (Suc r) s1"
        have rq: "rank_of s1 q = r"
          using rk False by (auto simp: q_def min_def s1_def)
        have step: "coalesce a p s = coalesce a q s2"
          using True ga same False bn h(1) rk
          by (subst coalesce.simps)
             (auto simp: b_def [symmetric] Let_def s2_def s1_def rq [unfolded s1_def rank_of_links] q_def min_def not_le)
        have A2: "{(q, Suc r)} \<union> (insert (b, r) A - {(p, r), (b, r)}) = insert (q, Suc r) (A - {(p, r)})"
          using tk(3) by auto
        have inv2: "buddy_inv s2 L1 (insert (q, Suc r) (A - {(p, r)}))" using mg(1) A2 by (simp add: s2_def)
        have m2: "same_map s s2" by (simp add: s2_def s1_def same_map_def set_rank_def)
        have m12: "same_map s1 s2" by (simp add: s2_def)
        have g2: "good s2 a q (Suc r)" using mg(2) same_map_area(4) [OF m12] by simp
        have nq: "(q, Suc r) \<notin> A"
        proof
          assume qA: "(q, Suc r) \<in> A"
          have "q = p \<or> q = b" by (auto simp: q_def min_def)
          then show False
          proof
            assume "q = p"
            then show False using f(5) [OF qA] rk by simp
          next
            assume "q = b"
            then show False using f(5) [OF qA] pin a rk by (auto simp: members_heads)
          qed
        qed
        have IH: "\<exists>q' t s' L'. coalesce a q s2 = Inr (q', s') \<and>
            buddy_inv s' L' (insert (q', t) (insert (q, Suc r) (A - {(p, r)}) - {(q, Suc r)})) \<and>
            (q', t) \<notin> insert (q, Suc r) (A - {(p, r)}) - {(q, Suc r)} \<and> good s' a q' t \<and> same_map s2 s' \<and>
            n_pages s' = n_pages s2 \<and>
            pages (free_blocks L') \<union> block q' t = pages (free_blocks L1) \<union> block q (Suc r)"
        proof -
          have cond: "rank_of s p < BUDDY_RANKNUM - 1" "b = get_buddy_page p (rank_of s p)" "\<not> n_pages s \<le> b"
            "\<not> (check_node_outoflist (Pg b) (links s) \<or> rank_of s b \<noteq> rank_of s p)" "\<not> a \<noteq> a"
            using True rk bn False by (auto simp: b_def)
          have qd: "q = (if p < b then p else b)" by (simp add: q_def min_def)
          have s2d: "s2 = set_rank q (rank_of s q + 1) (s\<lparr>links := h\<rparr>)"
            using rq by (simp add: s2_def s1_def)
          show ?thesis
            using 1(1) [OF cond(1,2,3,4) ga [unfolded same] cond(5) h(1) qd, folded s2d, OF inv2 _ a g2] by blast
        qed
        have A3: "insert (q, Suc r) (A - {(p, r)}) - {(q, Suc r)} = A - {(p, r)}" using nq by auto
        have fr: "pages (free_blocks L1) \<union> block q (Suc r) = pages (free_blocks L) \<union> block p r"
        proof -
          have "pages (free_blocks L1) = pages (free_blocks L) - block b r"
            using pages_minus [OF free_disjoint [OF inv] tk(2)] tk(4) by simp
          moreover have "block b r \<subseteq> pages (free_blocks L)"
            using tk(2) by (auto simp: pages_def intro!: bexI [of _ "(b, r)"])
          ultimately show ?thesis using mg(3) by auto
        qed
        obtain q' t s' L' where r: "coalesce a q s2 = Inr (q', s')" "buddy_inv s' L' (insert (q', t) (A - {(p, r)}))"
            "(q', t) \<notin> A - {(p, r)}" "good s' a q' t" "same_map s2 s'"
            "pages (free_blocks L') \<union> block q' t = pages (free_blocks L) \<union> block p r"
          using IH unfolding A3 fr by blast
        have "same_map s s'" by (rule same_map_trans [OF m2 r(5)])
        then show ?thesis
          using r step by (intro exI [of _ q'] exI [of _ t] exI [of _ s'] exI [of _ L']) (simp add: same_map_def)
      qed
    qed
  qed
qed

lemma page_free_ok:
  assumes inv: "buddy_inv s L A" and p: "(p, r) \<in> A"
  shows "\<exists>s' L'. page_free (page2pa p) s = Inr s' \<and> buddy_inv s' L' (A - {(p, r)}) \<and>
    pages (free_blocks L') = pages (free_blocks L) \<union> block p r \<and> same_map s s'"
proof -
  note f = inv_facts [OF inv]
  obtain a where a: "a < MMAREA_NUM" "good s a p r" using f(6) [OF p] by blast
  note ga = good_same_area [OF f(2) a(2,1)]
  have pa: "pa2page (page2pa p) = p" by (simp add: pa2page_def page2pa_def drop_bit_eq_div)
  have out: "check_node_outoflist (Pg p) (links s)"
    using f(5) [OF p] rings_outoflist_iff [OF f(1), of "Pg p"] by simp
  obtain q t s1 L1 where c: "coalesce a p s = Inr (q, s1)" "buddy_inv s1 L1 (insert (q, t) (A - {(p, r)}))"
      "(q, t) \<notin> A - {(p, r)}" "good s1 a q t" "same_map s s1"
      "pages (free_blocks L1) \<union> block q t = pages (free_blocks L) \<union> block p r"
    using coalesce_ok [OF inv p a] by blast
  have qt: "rank_of s1 q = t" "t < BUDDY_RANKNUM" "Pg q \<notin> members heads L1" using inv_facts(5) [OF c(2)] by auto
  obtain h where h: "list_add_head (Pg q) (Hd a t) (links s1) = Inr h"
      "rings UNIV heads (L1(Hd a t := Pg q # L1 (Hd a t))) h"
    using lh.add_head [OF inv_facts(1) [OF c(2)], of "Hd a t" "Pg q"] a(1) qt by auto
  note gv = give_block [OF c(2) a(1) _ c(4) h(2)]
  have "page_free (page2pa p) s = Inr (s1\<lparr>links := h\<rparr>)"
    using ga f(4) f(5) [OF p] out c(1) h(1) qt by (simp add: page_free_def pa Let_def)
  moreover have "insert (q, t) (A - {(p, r)}) - {(q, t)} = A - {(p, r)}" using c(3) by auto
  moreover have "same_map s (s1\<lparr>links := h\<rparr>)" using c(5) by (simp add: same_map_def)
  moreover have "pages (free_blocks (L1(Hd a t := Pg q # L1 (Hd a t)))) = pages (free_blocks L) \<union> block p r"
    using gv(2) c(6) by auto
  ultimately show ?thesis using gv(1) by auto
qed

section \<open>The allocator as an interface\<close>

text \<open>
  What the clients of the allocator (tasks, slabs, page tables, network frames) rely on: \<open>ok s A
  F\<close> says that the blocks \<open>A\<close> are handed out and the pages \<open>F\<close> are free.
\<close>

locale page_source =
  fixes ok :: "'s \<Rightarrow> (nat \<times> nat) set \<Rightarrow> nat set \<Rightarrow> bool"
    and alloc :: "nat \<Rightarrow> nat \<Rightarrow> 's \<Rightarrow> (nat option \<times> 's) res"
    and release :: "nat \<Rightarrow> 's \<Rightarrow> 's res"
  assumes alloc: "ok s A F \<Longrightarrow> a < MMAREA_NUM \<Longrightarrow> r < BUDDY_RANKNUM \<Longrightarrow>
      (\<exists>s'. alloc r a s = Inr (None, s') \<and> ok s' A F) \<or>
      (\<exists>p s'. alloc r a s = Inr (Some (page2pa p), s') \<and> ok s' (insert (p, r) A) (F - block p r) \<and>
         block p r \<subseteq> F \<and> (p, r) \<notin> A)"
    and release: "ok s A F \<Longrightarrow> (p, r) \<in> A \<Longrightarrow>
      \<exists>s'. release (page2pa p) s = Inr s' \<and> ok s' (A - {(p, r)}) (F \<union> block p r)"
    and apart: "ok s A F \<Longrightarrow> x \<in> A \<Longrightarrow> y \<in> A \<Longrightarrow> x \<noteq> y \<Longrightarrow> blk x \<inter> blk y = {}"
begin

lemma alloc_cases:
  assumes "ok s A F" "a < MMAREA_NUM" "r < BUDDY_RANKNUM" "alloc r a s = Inr (res, s')"
  obtains "res = None" "ok s' A F"
  | p where "res = Some (page2pa p)" "ok s' (insert (p, r) A) (F - block p r)" "block p r \<subseteq> F" "(p, r) \<notin> A"
  using alloc [OF assms(1-3)] assms(4) by auto

text \<open>A block that is given back at once leaves the allocator as it was.\<close>

lemma alloc_release:
  assumes "ok s A F" "a < MMAREA_NUM" "r < BUDDY_RANKNUM" "alloc r a s = Inr (Some pa, s')"
  shows "\<exists>s''. release pa s' = Inr s'' \<and> ok s'' A F"
proof -
  obtain p where p: "pa = page2pa p" "ok s' (insert (p, r) A) (F - block p r)" "block p r \<subseteq> F" "(p, r) \<notin> A"
    by (rule alloc_cases [OF assms]) auto
  have "insert (p, r) A - {(p, r)} = A" "F - block p r \<union> block p r = F" using p(3,4) by auto
  then show ?thesis using release [OF p(2), of p r] p(1) by auto
qed

text \<open>Two blocks that are handed out one after the other do not overlap.\<close>

lemma alloc_twice:
  assumes "ok s A F" "a < MMAREA_NUM" "r < BUDDY_RANKNUM" "a' < MMAREA_NUM" "r' < BUDDY_RANKNUM"
    and "alloc r a s = Inr (Some pa, s1)" "alloc r' a' s1 = Inr (Some pb, s2)"
  shows "\<exists>p q. pa = page2pa p \<and> pb = page2pa q \<and> block p r \<inter> block q r' = {}"
proof -
  obtain p where p: "pa = page2pa p" "ok s1 (insert (p, r) A) (F - block p r)"
    by (rule alloc_cases [OF assms(1-3,6)]) auto
  obtain q where q: "pb = page2pa q" "block q r' \<subseteq> F - block p r"
    by (rule alloc_cases [OF p(2) assms(4,5,7)]) auto
  then show ?thesis using p by blast
qed

end

definition mem_ok :: "mmstate \<Rightarrow> (nat \<times> nat) set \<Rightarrow> nat set \<Rightarrow> bool" where
  "mem_ok s A F \<longleftrightarrow> (\<exists>L. buddy_inv s L A \<and> F = pages (free_blocks L))"

interpretation buddy: page_source mem_ok "\<lambda>r a. page_alloc r a zero" page_free for zero
proof unfold_locales
  fix s A F a r
  assume "mem_ok s A F" and a: "a < MMAREA_NUM" "r < BUDDY_RANKNUM"
  then obtain L where L: "buddy_inv s L A" "F = pages (free_blocks L)" by (auto simp: mem_ok_def)
  show "(\<exists>s'. page_alloc r a zero s = Inr (None, s') \<and> mem_ok s' A F) \<or>
      (\<exists>p s'. page_alloc r a zero s = Inr (Some (page2pa p), s') \<and> mem_ok s' (insert (p, r) A) (F - block p r) \<and>
         block p r \<subseteq> F \<and> (p, r) \<notin> A)"
    using page_alloc_ok [OF L(1) a, of zero] L unfolding mem_ok_def by metis
next
  fix s A F p r
  assume "mem_ok s A F" "(p, r) \<in> A"
  then show "\<exists>s'. page_free (page2pa p) s = Inr s' \<and> mem_ok s' (A - {(p, r)}) (F \<union> block p r)"
    using page_free_ok unfolding mem_ok_def by metis
next
  fix s A F x y
  assume "mem_ok s A F" "x \<in> A" "y \<in> A" "x \<noteq> y"
  then show "blk x \<inter> blk y = {}"
    using inv_facts(3) unfolding mem_ok_def disjoint_blocks_def by (metis UnI1)
qed

text \<open>A free page of the area is found; the memory map never changes.\<close>

lemma split_loop_map: "split_loop d a p s = Inr s' \<Longrightarrow> same_map s s' \<and> ram s' = ram s"
proof (induction d arbitrary: s)
  case (Suc d)
  define r where "r = rank_of s p - 1"
  define s2 where "s2 = set_rank (get_buddy_page p r) r (set_rank p r s)"
  obtain h where h: "split_loop d a p (s2\<lparr>links := h\<rparr>) = Inr s'"
    using Suc.prems
    by (auto simp: Let_def bindE_eq_Inr s2_def r_def split: if_splits)
  have "same_map s (s2\<lparr>links := h\<rparr>)" "ram (s2\<lparr>links := h\<rparr>) = ram s" by (simp_all add: s2_def same_map_def set_rank_def)
  then show ?case using Suc.IH [OF h] same_map_trans by metis
qed simp

lemma page_alloc_map:
  assumes al: "page_alloc rank a zero s = Inr (x, s')"
  shows "same_map s s' \<and> (\<not> zero \<longrightarrow> ram s' = ram s)"
proof (cases "area_size s a = 0 \<or> find_rank s a rank (BUDDY_RANKNUM - rank) = None")
  case True
  then show ?thesis using al by (auto simp: page_alloc_def bindE_eq_Inr split: if_splits)
next
  case False
  then obtain i where i: "find_rank s a rank (BUDDY_RANKNUM - rank) = Some i" "area_size s a \<noteq> 0" by auto
  then obtain nd h where h: "list_remove_head (Hd a i) (links s) = Inr (nd, h)"
    using al by (auto simp: page_alloc_def bindE_eq_Inr)
  obtain p where p: "nd = Pg p"
    using al i h by (cases nd) (auto simp: page_alloc_def bindE_eq_Inr)
  obtain t where t: "split_loop (rank_of s p - rank) a p (s\<lparr>links := h\<rparr>) = Inr t"
      "s' = (if zero then t\<lparr>ram := memset (of_nat (page2pa p)) 0 (push_bit (rank + 12) 1) (ram t)\<rparr> else t)"
    using al i h p by (auto simp: page_alloc_def bindE_eq_Inr Let_def)
  then show ?thesis using split_loop_map [OF t(1)] by (simp add: same_map_def)
qed

lemma free_area:
  assumes "mem_ok mm A F" "F \<inter> area_pages mm a \<noteq> {}" "a < MMAREA_NUM"
  shows "\<exists>p mm'. page_alloc 0 a zero mm = Inr (Some (page2pa p), mm') \<and>
    mem_ok mm' (insert (p, 0) A) (F - {p}) \<and> p \<in> F \<inter> area_pages mm a \<and> p \<notin> pages A \<and> same_map mm mm' \<and>
    (\<not> zero \<longrightarrow> ram mm' = ram mm)"
proof -
  obtain L where L: "buddy_inv mm L A" "F = pages (free_blocks L)" using assms(1) by (auto simp: mem_ok_def)
  obtain q where q: "q \<in> F" "q \<in> area_pages mm a" using assms(2) by blast
  have "area_size mm a \<noteq> 0" using q(2) by (auto simp: area_pages_def)
  moreover have "\<exists>t<BUDDY_RANKNUM. L (Hd a t) \<noteq> []"
  proof -
    obtain p t where pt: "(p, t) \<in> free_blocks L" "q \<in> block p t" using q(1) L(2) by (auto simp: pages_def)
    then obtain b where b: "b < MMAREA_NUM" "t < BUDDY_RANKNUM" "Pg p \<in> set (L (Hd b t))"
      by (auto simp: free_blocks_def)
    have "q \<in> area_pages mm b" using inv_facts(7) [OF L(1) b] pt(2) by (auto simp: good_def)
    then have "get_pagearea mm q = Inr b" "get_pagearea mm q = Inr a"
      using inv_facts(2) [OF L(1)] q(2) b(1) assms(3) unfolding areas_ok_def by blast+
    then have "b = a" by simp
    then show ?thesis using b by auto
  qed
  moreover have "0 < BUDDY_RANKNUM" by (simp add: BUDDY_RANKNUM_def)
  ultimately obtain p mm' L' where p: "page_alloc 0 a zero mm = Inr (Some (page2pa p), mm')"
      "buddy_inv mm' L' (insert (p, 0) A)" "good mm' a p 0" "block p 0 \<subseteq> F" "(p, 0) \<notin> A"
      "pages (free_blocks L') = F - block p 0"
    using page_alloc_ok [OF L(1) assms(3), of 0 zero] L(2) by auto
  have m: "same_map mm mm'" "\<not> zero \<longrightarrow> ram mm' = ram mm"
    using page_alloc_map [OF p(1)] by auto
  have bl: "block p 0 = {p}" by (auto simp: block_def)
  have "p \<in> area_pages mm a" using p(3) same_map_area(1) [OF m(1)] by (auto simp: good_def bl)
  moreover have "p \<notin> pages A"
    using free_apart [OF L(1)] p(4) L(2) bl by (fastforce simp: pages_def)
  moreover have "mem_ok mm' (insert (p, 0) A) (F - {p})" using p bl by (auto simp: mem_ok_def)
  moreover have "p \<in> F" using p(4) bl by simp
  ultimately show ?thesis using p(1) m by (intro exI [of _ p] exI [of _ mm']) simp
qed


lemma coalesce_ram: "coalesce a p s = Inr (q, s') \<Longrightarrow> ram s' = ram s"
proof (induction a p s rule: coalesce.induct)
  case (1 a p s)
  define b where "b = get_buddy_page p (rank_of s p)"
  consider "coalesce a p s = Inr (p, s)"
    | h where "rank_of s p < BUDDY_RANKNUM - 1" "\<not> n_pages s \<le> b"
      "\<not> (check_node_outoflist (Pg b) (links s) \<or> rank_of s b \<noteq> rank_of s p)"
      "get_pagearea s b = Inr a" "list_remove (Pg b) (links s) = Inr h"
    using 1(2) by (subst (asm) (1 2) coalesce.simps)
      (auto simp: coalesce.simps [of a p s] Let_def b_def split: if_splits sum.splits)
  then show ?case
  proof cases
    case 1
    then show ?thesis using \<open>coalesce a p s = Inr (q, s')\<close> by simp
  next
    case (2 h)
    define r where "r = (if p < b then p else b)"
    have "coalesce a r (set_rank r (rank_of s r + 1) (s\<lparr>links := h\<rparr>)) = Inr (q, s')"
      using 1(2) 2 by (subst (asm) coalesce.simps) (simp add: Let_def b_def [symmetric] r_def)
    then have "ram s' = ram (set_rank r (rank_of s r + 1) (s\<lparr>links := h\<rparr>))"
      using 1(1) [OF 2(1) refl, folded b_def, OF 2(2,3,4) _ 2(5) refl, folded r_def] by blast
    then show ?thesis by (simp add: set_rank_def)
  qed
qed

lemma page_free_ram: "page_free addr s = Inr s' \<Longrightarrow> ram s' = ram s"
  by (auto simp: page_free_def Let_def bindE_eq_Inr dest!: coalesce_ram split: if_splits)

section \<open>Bringing memory online\<close>

lemma online_page:
  assumes inv: "buddy_inv s L A" and p: "p < n_pages s" "p \<notin> pages (A \<union> free_blocks L)"
  shows "\<exists>s' L'. page_free (page2pa p) (s\<lparr>pagelist := (pagelist s)(p := \<lparr>buddy_rank = 0, refcount = 0\<rparr>)\<rparr>) = Inr s' \<and>
    buddy_inv s' L' A \<and> pages (free_blocks L') = insert p (pages (free_blocks L)) \<and> same_map s s'"
proof -
  note f = inv_facts [OF inv]
  define t where "t = s\<lparr>pagelist := (pagelist s)(p := \<lparr>buddy_rank = 0, refcount = 0\<rparr>)\<rparr>"
  have m: "same_map s t" by (simp add: t_def same_map_def)
  have np: "(p, r) \<notin> A \<union> free_blocks L" for r
    using p(2) in_block [of p r] by (auto simp: pages_def)
  have nm: "Pg p \<notin> members heads L" using np free_iff_member [of p L] by blast
  obtain a where a: "a < MMAREA_NUM" "p \<in> area_pages s a" using f(2) p(1) by (auto simp: areas_ok_def)
  have b1: "block p 0 = {p}" by (auto simp: block_def)
  have rk: "rank_of t q = (if q = p then 0 else rank_of s q)" for q by (simp add: t_def rank_of_def)
  have "buddy_inv t L ({(p, 0)} \<union> A)"
  proof (rule rerank [OF inv order_refl m])
    show "links t = links s" by (simp add: t_def)
    show "refcount (pagelist t q) = 0" for q using f(4) by (simp add: t_def)
    show "rank_of t q = rank_of s q" if "(q, r) \<in> A \<union> free_blocks L" for q r
      using that np by (auto simp: rk)
    show "r < BUDDY_RANKNUM \<and> rank_of t q = r \<and> Pg q \<notin> members heads L" if "(q, r) \<in> {(p, 0)}" for q r
      using that nm by (simp add: rk BUDDY_RANKNUM_def)
    show "\<exists>a<MMAREA_NUM. good s a q r" if "(q, r) \<in> {(p, 0)}" for q r
      using that a by (auto simp: good_def b1)
    have "p \<notin> blk x" if "x \<in> A \<union> free_blocks L" for x using p(2) that by (auto simp: pages_def)
    then show "disjoint_blocks ({(p, 0)} \<union> A \<union> free_blocks L)"
      using f(3) by (auto simp: disjoint_blocks_def b1)
  qed
  then obtain s' L' where "page_free (page2pa p) t = Inr s'" "buddy_inv s' L' ({(p, 0)} \<union> A - {(p, 0)})"
      "pages (free_blocks L') = pages (free_blocks L) \<union> block p 0" "same_map t s'"
    using page_free_ok [of t L "{(p, 0)} \<union> A" p 0] by auto
  moreover have "{(p, 0)} \<union> A - {(p, 0)} = A" using np by auto
  ultimately show ?thesis using same_map_trans [OF m] by (auto simp: t_def b1)
qed

lemma online_loop_ok:
  "buddy_inv s L A \<Longrightarrow> p + n \<le> n_pages s \<Longrightarrow> {p..<p + n} \<inter> pages (A \<union> free_blocks L) = {} \<Longrightarrow>
     \<exists>s' L'. online_loop (page2pa p) n s = Inr s' \<and> buddy_inv s' L' A \<and>
       pages (free_blocks L') = pages (free_blocks L) \<union> {p..<p + n} \<and> same_map s s'"
proof (induction n arbitrary: p s L)
  case 0
  then show ?case by auto
next
  case (Suc n)
  have pa: "pa2page (page2pa p) = p" "page2pa p + 4096 = page2pa (p + 1)"
    by (simp_all add: pa2page_def page2pa_def drop_bit_eq_div)
  have "p \<in> {p..<p + Suc n}" by simp
  then have "p \<notin> pages (A \<union> free_blocks L)" using Suc.prems(3) by blast
  then obtain s1 L1 where s1: "page_free (page2pa p) (s\<lparr>pagelist := (pagelist s)(p := \<lparr>buddy_rank = 0, refcount = 0\<rparr>)\<rparr>) = Inr s1"
      "buddy_inv s1 L1 A" "pages (free_blocks L1) = insert p (pages (free_blocks L))" "same_map s s1"
    using online_page [OF Suc.prems(1), of p] Suc.prems(2) by auto
  have un: "pages (A \<union> B) = pages A \<union> pages B" for B by (auto simp: pages_def)
  have "{p + 1..<p + 1 + n} \<inter> pages (A \<union> free_blocks L1) = {}"
  proof -
    have "{p + 1..<p + 1 + n} \<subseteq> {p..<p + Suc n} - {p}" by auto
    then show ?thesis using Suc.prems(3) s1(3) unfolding un by blast
  qed
  moreover have "p + 1 + n \<le> n_pages s1" using Suc.prems(2) s1(4) by (simp add: same_map_def)
  ultimately obtain s' L' where "online_loop (page2pa (p + 1)) n s1 = Inr s'" "buddy_inv s' L' A"
      "pages (free_blocks L') = pages (free_blocks L1) \<union> {p + 1..<p + 1 + n}" "same_map s1 s'"
    using Suc.IH [OF s1(2)] by blast
  moreover have "insert p (pages (free_blocks L)) \<union> {p + 1..<p + 1 + n} = pages (free_blocks L) \<union> {p..<p + Suc n}"
    by auto
  ultimately show ?case using s1 Suc.prems(2) pa same_map_trans [OF s1(4)] by (auto simp: Let_def)
qed

lemma sysram_online_ok:
  assumes "buddy_inv s L A" "p + n \<le> n_pages s" "{p..<p + n} \<inter> pages (A \<union> free_blocks L) = {}"
  shows "\<exists>s' L'. sysram_online (page2pa p) (page2pa n) s = Inr s' \<and> buddy_inv s' L' A \<and>
    pages (free_blocks L') = pages (free_blocks L) \<union> {p..<p + n} \<and> same_map s s'"
proof -
  have "take_bit 12 (page2pa p) = 0" "take_bit 12 (page2pa n) = 0" "drop_bit 12 (page2pa n) = n"
    by (simp_all add: page2pa_def take_bit_eq_mod drop_bit_eq_div)
  then show ?thesis using online_loop_ok [OF assms] by (simp add: sysram_online_def)
qed

section \<open>Properties\<close>

text \<open>
  C1: in a consistent allocator \<^verbatim>\<open>page_alloc\<close> never fails an assertion: it returns \<^verbatim>\<open>NULL\<close>, changing
  nothing, only when the area has no free block of the rank or above; otherwise it returns an
  aligned block of the area, exactly whose pages leave the free pages, and zeroes it on request.
\<close>

theorem page_alloc_correct:
  assumes "buddy_inv s L A" "a < MMAREA_NUM" "rank < BUDDY_RANKNUM"
  shows "(page_alloc rank a zero s = Inr (None, s) \<and>
      (area_size s a = 0 \<or> (\<forall>t. rank \<le> t \<and> t < BUDDY_RANKNUM \<longrightarrow> L (Hd a t) = []))) \<or>
    (\<exists>p s' L'. page_alloc rank a zero s = Inr (Some (page2pa p), s') \<and>
      buddy_inv s' L' (insert (p, rank) A) \<and> (p, rank) \<notin> A \<and> good s' a p rank \<and>
      block p rank \<subseteq> pages (free_blocks L) \<and>
      pages (free_blocks L') = pages (free_blocks L) - block p rank \<and>
      (zero \<longrightarrow> ram s' = memset (of_nat (page2pa p)) 0 (2 ^ (rank + 12)) (ram s)))"
  using page_alloc_ok [OF assms, of zero] by blast

text \<open>A machine of 64 MB in the area \<open>k\<close>, all of it handed out as one block.\<close>

definition mm_in :: "nat \<Rightarrow> mmstate" where
  "mm_in k = \<lparr>n_pages = 2 ^ 14, pagelist = (\<lambda>p. \<lparr>buddy_rank = 14, refcount = 0\<rparr>),
     links = (\<lambda>nd. case nd of Pg p \<Rightarrow> \<lparr>lprev = None, lnext = None\<rparr>
                            | Hd a r \<Rightarrow> if Hd a r \<in> heads then \<lparr>lprev = Some (Hd a r), lnext = Some (Hd a r)\<rparr>
                                         else \<lparr>lprev = None, lnext = None\<rparr>),
     area_begin = (\<lambda>a. 0), area_size = (\<lambda>a. if a = k then 2 ^ 26 else 0), ram = (\<lambda>x. 1)\<rparr>"

lemma mm_in_inv:
  assumes "k < MMAREA_NUM"
  shows "buddy_inv (mm_in k) (\<lambda>_. []) {(0, 14)}"
proof (rule buddy_invI)
  show "rings UNIV heads (\<lambda>_. []) (links (mm_in k))"
    by (auto simp: rings_def ring_def mm_in_def members_def check_node_outoflist_def
        check_node_inlist_def split: node.splits)
  have ap: "area_pages (mm_in k) a = (if a = k then {..<2 ^ 14} else {})" for a
    by (auto simp: area_pages_def mm_in_def page2pa_def)
  have "get_pagearea (mm_in k) p = Inr k" if "p < 2 ^ 14" for p
    using that assms by (auto simp: less_Suc_eq get_pagearea_def MMAREA_NUM_def numeral_3_eq_3 mm_in_def page2pa_def)
  moreover have "n_pages (mm_in k) = 2 ^ 14" by (simp add: mm_in_def)
  ultimately show "areas_ok (mm_in k)" using assms by (auto simp: areas_ok_def ap MMAREA_NUM_def split: if_splits)
  show "disjoint_blocks ({(0, 14)} \<union> free_blocks (\<lambda>_. []))" by (simp add: disjoint_blocks_def free_blocks_def)
  show "refcount (pagelist (mm_in k) p) = 0" for p by (simp add: mm_in_def)
  show "r < BUDDY_RANKNUM \<and> rank_of (mm_in k) p = r \<and> Pg p \<notin> members heads (\<lambda>_. [])" if "(p, r) \<in> {(0, 14)}" for p r
    using that by (simp add: BUDDY_RANKNUM_def rank_of_def mm_in_def members_def)
  show "\<exists>a<MMAREA_NUM. good (mm_in k) a p r" if "(p, r) \<in> {(0, 14)}" for p r
    using that assms by (intro exI [of _ k]) (auto simp: MMAREA_NUM_def good_def ap block_def)
qed simp

lemma mm_in_online:
  assumes "k < MMAREA_NUM"
  obtains s1 L1 where "page_free 0 (mm_in k) = Inr s1" "buddy_inv s1 L1 {}" "area_size s1 k \<noteq> 0"
    "\<not> (\<forall>t. 0 \<le> t \<and> t < BUDDY_RANKNUM \<longrightarrow> L1 (Hd k t) = [])"
proof -
  obtain s1 L1 where s1: "page_free (page2pa 0) (mm_in k) = Inr s1" "buddy_inv s1 L1 ({(0, 14)} - {(0, 14)})"
      "pages (free_blocks L1) = pages (free_blocks (\<lambda>_. [])) \<union> block 0 14" "same_map (mm_in k) s1"
    using page_free_ok [OF mm_in_inv [OF assms], of 0 14] by auto
  have "0 \<in> pages (free_blocks L1)" using s1(3) in_block [of 0 14] by simp
  then obtain q t where q: "(q, t) \<in> free_blocks L1" by (auto simp: pages_def)
  then obtain a where a: "a < MMAREA_NUM" "t < BUDDY_RANKNUM" "Pg q \<in> set (L1 (Hd a t))"
    by (auto simp: free_blocks_def)
  have sz: "area_size s1 k \<noteq> 0" "a \<noteq> k \<Longrightarrow> area_size s1 a = 0"
    using s1(4) by (simp_all add: same_map_def mm_in_def)
  have "q \<in> area_pages s1 a" using inv_facts(7) [OF s1(2) a] in_block [of q t] by (auto simp: good_def)
  then have "a = k" using sz(2) by (auto simp: area_pages_def)
  then have "\<not> (\<forall>t. 0 \<le> t \<and> t < BUDDY_RANKNUM \<longrightarrow> L1 (Hd k t) = [])" using a by auto
  then show ?thesis using that [of s1 L1] s1(1,2) sz(1) by (simp add: page2pa_def)
qed

definition mm0 :: mmstate where
  "mm0 = mm_in 0"

lemma mm0_inv: "buddy_inv mm0 (\<lambda>_. []) {(0, 14)}"
  unfolding mm0_def by (rule mm_in_inv) (simp add: MMAREA_NUM_def)

lemma mm0_online:
  obtains s1 L1 where "page_free 0 mm0 = Inr s1" "buddy_inv s1 L1 {}" "area_size s1 0 \<noteq> 0"
    "\<not> (\<forall>t. 0 \<le> t \<and> t < BUDDY_RANKNUM \<longrightarrow> L1 (Hd 0 t) = [])"
  unfolding mm0_def by (rule mm_in_online [of 0]) (simp_all add: MMAREA_NUM_def)

theorem page_alloc_correct_witness:
  "\<exists>s1 p s2. page_free 0 mm0 = Inr s1 \<and> page_alloc 0 0 True s1 = Inr (Some (page2pa p), s2)"
proof -
  obtain s1 L1 where s1: "page_free 0 mm0 = Inr s1" "buddy_inv s1 L1 {}" "area_size s1 0 \<noteq> 0"
    "\<not> (\<forall>t. 0 \<le> t \<and> t < BUDDY_RANKNUM \<longrightarrow> L1 (Hd 0 t) = [])"
    by (rule mm0_online)
  then show ?thesis
    using page_alloc_correct [OF s1(2), of 0 0 True]
    by (auto simp: MMAREA_NUM_def BUDDY_RANKNUM_def)
qed



text \<open>
  C29: \<^verbatim>\<open>sysram_online\<close> of a page-aligned range that the allocator does not know yet makes exactly
  the pages of the range free.
\<close>

theorem sysram_online_correct:
  assumes "buddy_inv s L A" "p + n \<le> n_pages s" "{p..<p + n} \<inter> pages (A \<union> free_blocks L) = {}"
  shows "\<exists>s' L'. sysram_online (page2pa p) (page2pa n) s = Inr s' \<and> buddy_inv s' L' A \<and>
    pages (free_blocks L') = pages (free_blocks L) \<union> {p..<p + n}"
  using sysram_online_ok [OF assms] by blast

theorem sysram_online_correct_witness:
  "\<exists>s' L'. sysram_online (page2pa 16) (page2pa 3) mm0 = Inr s' \<and> buddy_inv s' L' {} \<and>
    pages (free_blocks L') = pages (free_blocks (\<lambda>_. [])) \<union> {16..<16 + 3}"
proof -
  have "buddy_inv mm0 (\<lambda>_. []) {}"
    using mm0_inv by (simp add: buddy_inv_def disjoint_blocks_def free_blocks_def)
  then show ?thesis
    by (rule sysram_online_correct) (simp_all add: mm0_def mm_in_def free_blocks_def)
qed

text \<open>
  A block handed out by \<^verbatim>\<open>page_alloc\<close> and given back at once leaves the allocator with the
  same blocks handed out and the same free pages; two blocks handed out do not overlap.
\<close>

lemma page_alloc_free:
  assumes "mem_ok s A F" "a < MMAREA_NUM" "r < BUDDY_RANKNUM" "page_alloc r a zero s = Inr (Some pa, s')"
  shows "(\<exists>s''. page_free pa s' = Inr s'' \<and> mem_ok s'' A F) \<and>
    (\<forall>t b z pb s''. b < MMAREA_NUM \<and> t < BUDDY_RANKNUM \<and> page_alloc t b z s' = Inr (Some pb, s'') \<longrightarrow>
       (\<exists>p q. pa = page2pa p \<and> pb = page2pa q \<and> block p r \<inter> block q t = {}))"
proof (intro conjI allI impI)
  show "\<exists>s''. page_free pa s' = Inr s'' \<and> mem_ok s'' A F"
    by (rule buddy.alloc_release [OF assms])
next
  fix t b z pb s''
  assume n: "b < MMAREA_NUM \<and> t < BUDDY_RANKNUM \<and> page_alloc t b z s' = Inr (Some pb, s'')"
  obtain p where p: "pa = page2pa p" "mem_ok s' (insert (p, r) A) (F - block p r)"
    by (rule buddy.alloc_cases [OF assms]) auto
  obtain q where "pb = page2pa q" "block q t \<subseteq> F - block p r"
    using n by (elim conjE) (rule buddy.alloc_cases [OF p(2)], auto)
  then show "\<exists>p q. pa = page2pa p \<and> pb = page2pa q \<and> block p r \<inter> block q t = {}"
    using p(1) by blast
qed

text \<open>
  When the memory is not a multiple of the greatest block, the buddy of the last page can lie
  beyond the page list: \<^verbatim>\<open>page_free\<close> reads its descriptor all the same.
\<close>

lemma page_free_beyond:
  assumes "even p" "n_pages s = p + 1" "rank_of s p = 0" "refcount (pagelist s p) = 0"
    and "check_node_outoflist (Pg p) (links s)" "get_pagearea s p = Inr a"
  shows "page_free (page2pa p) s = Inl Fault"
proof -
  have "get_buddy_page p 0 = p + 1"
    using xor_bit_even [of 0 p] assms(1) by (simp add: get_buddy_page_def)
  moreover have "pa2page (page2pa p) = p" by (simp add: pa2page_def page2pa_def drop_bit_eq_div)
  ultimately show ?thesis
    using assms(2-) by (simp add: page_free_def Let_def BUDDY_RANKNUM_def coalesce.simps [of a p s])
qed

end
