(* ===== verification/Memmap.thy ===== *)
theory Memmap
  imports Sort Buddy
begin

text \<open>
  The memory map of \<^verbatim>\<open>mm/memory.c\<close>: the table of memory ranges and \<^verbatim>\<open>resoure_add_range\<close>, the
  memory areas, \<^verbatim>\<open>buddy_init\<close> of \<^verbatim>\<open>mm/page.c\<close>, and the part of \<^verbatim>\<open>mem_init\<close> that hands every
  idle range to the buddy allocator. A resource is the list of its first \<^verbatim>\<open>n_range\<close> entries.
\<close>

section \<open>The code\<close>

definition MM_NORMALMEM_RANGE :: u32 where "MM_NORMALMEM_RANGE = 256 * 1024 * 1024"
definition MM_HOLEAFTER_SYSRAM :: u32 where "MM_HOLEAFTER_SYSRAM = 4096"
definition MM_RANGERESOURCE_MAXNUM :: nat where "MM_RANGERESOURCE_MAXNUM = 16"
definition EXTENT_RAM_ADDR :: u32 where "EXTENT_RAM_ADDR = 0x100000"
definition RANGERESOURCE_TYPE_MASK :: u32 where "RANGERESOURCE_TYPE_MASK = 0x7"
definition RANGERESOURCE_TYPE_IDLE :: u32 where "RANGERESOURCE_TYPE_IDLE = 0"
definition RANGERESOURCE_TYPE_USED :: u32 where "RANGERESOURCE_TYPE_USED = 1"
definition RANGERESOURCE_TYPE_RESERVE :: u32 where "RANGERESOURCE_TYPE_RESERVE = 2"

record range_desc =
  r_begin :: u32
  r_size :: u32
  r_flag :: u32

type_synonym resource = "range_desc list"

definition rr_cmp :: "range_desc \<Rightarrow> range_desc \<Rightarrow> int" where
  "rr_cmp rda rdb = (if r_begin rda < r_begin rdb then - 1 else if r_begin rdb < r_begin rda then 1 else 0)"

definition is_idle :: "range_desc \<Rightarrow> bool" where
  "is_idle rd \<longleftrightarrow> r_flag rd AND RANGERESOURCE_TYPE_MASK = RANGERESOURCE_TYPE_IDLE"

fun find_range :: "u32 \<Rightarrow> u32 \<Rightarrow> resource \<Rightarrow> nat option" where
  "find_range beg sz [] = None"
| "find_range beg sz (rd # rds) =
     (if \<not> is_idle rd then map_option Suc (find_range beg sz rds)
      else if r_begin rd \<le> beg \<and> beg + sz \<le> r_begin rd + r_size rd then Some 0
      else map_option Suc (find_range beg sz rds))"

definition resoure_add_range :: "resource \<Rightarrow> u32 \<Rightarrow> u32 \<Rightarrow> u32 \<Rightarrow> int \<times> resource" where
  "resoure_add_range sr beg sz flag =
     (if MM_RANGERESOURCE_MAXNUM < length sr + 2 then (- 2, sr)
      else case find_range beg sz sr of
        None \<Rightarrow> (- 1, sr)
      | Some i \<Rightarrow>
          let cur_begin = ucast (r_begin (sr ! i)) :: u64;
              cur_size = r_size (sr ! i);
              rd = sr[i := \<lparr>r_begin = beg, r_size = sz, r_flag = flag\<rparr>];
              rd = (if cur_begin < ucast beg
                    then rd @ [\<lparr>r_begin = ucast cur_begin, r_size = ucast (ucast beg - cur_begin),
                                r_flag = RANGERESOURCE_TYPE_IDLE\<rparr>] else rd);
              rd = (if ucast (beg + sz) < cur_begin + ucast cur_size
                    then rd @ [\<lparr>r_begin = beg + sz,
                                r_size = ucast (cur_begin + ucast cur_size - ucast beg - ucast sz),
                                r_flag = RANGERESOURCE_TYPE_IDLE\<rparr>] else rd)
          in (0, sort rr_cmp rd))"

text \<open>The initial state of \<^verbatim>\<open>g_mmarea\<close> is static: the low megabyte, the other areas empty.\<close>

definition mmarea_init :: "u32 \<Rightarrow> mmstate \<Rightarrow> mmstate res" where
  "mmarea_init ram_size s =
     (let low = area_size s MMAREA_LOW1M
      in bindE (assertE (low < unat ram_size)) (\<lambda>_.
         let s = s\<lparr>area_begin := (area_begin s)(MMAREA_NORMAL := low),
                   area_size := (area_size s)(MMAREA_NORMAL :=
                     unat (if MM_NORMALMEM_RANGE < ram_size then MM_NORMALMEM_RANGE else ram_size) - low)\<rparr>;
             s = (if MM_NORMALMEM_RANGE < ram_size
                  then s\<lparr>area_begin := (area_begin s)(MMAREA_HIGHMM := unat MM_NORMALMEM_RANGE),
                         area_size := (area_size s)(MMAREA_HIGHMM := unat (ram_size - MM_NORMALMEM_RANGE))\<rparr>
                  else s)
         in Inr (s\<lparr>links := foldr (\<lambda>a h. foldr (\<lambda>r h. list_init (Hd a r) h) [0..<BUDDY_RANKNUM] h)
                              [0..<MMAREA_NUM] (links s)\<rparr>)))"

definition sizeof_page :: u32 where "sizeof_page = 16"

definition buddy_init :: "u32 \<Rightarrow> resource \<Rightarrow> mmstate \<Rightarrow> (resource \<times> mmstate) res" where
  "buddy_init ram_size sr s =
     (let n = ram_size div PAGE_SIZE;
          (ret, sr) = resoure_add_range sr EXTENT_RAM_ADDR (get_upper_range (n * sizeof_page) PAGE_SIZE)
                        RANGERESOURCE_TYPE_USED
      in bindE (assertE (ret = 0)) (\<lambda>_.
         Inr (sr, s\<lparr>n_pages := unat n,
                    pagelist := (\<lambda>p. if p < unat n then \<lparr>buddy_rank = 0, refcount = 0\<rparr> else pagelist s p),
                    links := (\<lambda>nd. case nd of Pg p \<Rightarrow> if p < unat n then \<lparr>lprev = None, lnext = None\<rparr> else links s nd
                                            | Hd a r \<Rightarrow> links s nd)\<rparr>)))"

fun online_ranges :: "resource \<Rightarrow> mmstate \<Rightarrow> mmstate res" where
  "online_ranges [] s = Inr s"
| "online_ranges (rd # rds) s =
     (if is_idle rd then bindE (sysram_online (unat (r_begin rd)) (unat (r_size rd)) s) (online_ranges rds)
      else online_ranges rds s)"

definition detect_ram :: "u16 \<Rightarrow> u16 \<Rightarrow> u32" where
  "detect_ram ax bx = get_lower_range (1024 * 1024 + ucast ax * 1024 + ucast bx * 1024 * 64) PAGE_SIZE"

definition add_or_die :: "u32 \<Rightarrow> u32 \<Rightarrow> u32 \<Rightarrow> resource \<Rightarrow> resource res" where
  "add_or_die beg sz flag sr =
     (let (ret, sr) = resoure_add_range sr beg sz flag in bindE (assertE (ret = 0)) (\<lambda>_. Inr sr))"

definition mem_init :: "u32 \<Rightarrow> u32 \<Rightarrow> mmstate \<Rightarrow> (resource \<times> mmstate) res" where
  "mem_init ram_size sys_end s =
     (let sr = [\<lparr>r_begin = 0, r_size = ram_size, r_flag = RANGERESOURCE_TYPE_IDLE\<rparr>]
      in bindE (add_or_die 0 (get_upper_range (sys_end + MM_HOLEAFTER_SYSRAM) PAGE_SIZE)
                  RANGERESOURCE_TYPE_USED sr) (\<lambda>sr.
         bindE (add_or_die 0xA0000 0x60000 RANGERESOURCE_TYPE_RESERVE sr) (\<lambda>sr.
         bindE (mmarea_init ram_size s) (\<lambda>s.
         bindE (buddy_init ram_size sr s) (\<lambda>(sr, s).
         bindE (online_ranges sr s) (\<lambda>s.
         Inr (sr, s)))))))"

section \<open>Tables of disjoint ranges\<close>

definition r_end :: "range_desc \<Rightarrow> nat" where
  "r_end rd = unat (r_begin rd) + unat (r_size rd)"

definition addrs :: "range_desc \<Rightarrow> nat set" where
  "addrs rd = {unat (r_begin rd)..<r_end rd}"

text \<open>Ranges do not overlap, and two idle ones do not even touch.\<close>

definition before :: "range_desc \<Rightarrow> range_desc \<Rightarrow> bool" where
  "before x y \<longleftrightarrow> r_end x \<le> unat (r_begin y) \<and> (is_idle x \<and> is_idle y \<longrightarrow> r_end x \<noteq> unat (r_begin y))"

definition range_ok :: "range_desc \<Rightarrow> bool" where
  "range_ok x \<longleftrightarrow> unat (r_begin x) < r_end x \<and> r_end x < 2 ^ 32"

definition resource_ok :: "resource \<Rightarrow> bool" where
  "resource_ok sr \<longleftrightarrow> (\<forall>x\<in>set sr. range_ok x) \<and> sorted_wrt before sr"

text \<open>The type of the range an address is in.\<close>

fun type_at :: "resource \<Rightarrow> nat \<Rightarrow> u32 option" where
  "type_at [] a = None"
| "type_at (x # xs) a = (if a \<in> addrs x then Some (r_flag x AND RANGERESOURCE_TYPE_MASK) else type_at xs a)"

subsection \<open>The sums in 64 bits\<close>

lemma unat_down: "unat (ucast (w :: u64) :: u32) = unat w mod 2 ^ 32"
  by (simp add: unsigned_ucast_eq take_bit_eq_mod)

lemma unat_up: "unat (ucast (w :: u32) :: u64) = unat w"
  by (rule unat_ucast_up) simp

lemma unat_up_add: "unat (ucast (p :: u32) + ucast (q :: u32) :: u64) = unat p + unat q"
  using unat_u32_lt [of p] unat_u32_lt [of q] by (simp add: unat_word_ariths unat_up)

lemma hole_before:
  fixes b c :: u32
  assumes "c \<le> b"
  shows "unat (ucast (ucast b - ucast c :: u64) :: u32) = unat b - unat c"
proof -
  have "unat (ucast b - ucast c :: u64) = unat b - unat c"
    using assms by (subst unat_sub) (simp_all add: word_le_nat_alt unat_up)
  then show ?thesis using unat_u32_lt [of b] by (simp add: unat_down)
qed

lemma hole_behind:
  fixes p q b s :: u32
  assumes "unat b + unat s \<le> unat p + unat q" "unat p \<le> unat b"
  shows "unat (ucast (ucast p + ucast q - ucast b - ucast s :: u64) :: u32) = unat p + unat q - unat b - unat s"
proof -
  have "unat (ucast p + ucast q - ucast b :: u64) = unat p + unat q - unat b"
    using assms by (subst unat_sub) (simp_all add: word_le_nat_alt unat_up unat_up_add)
  then have "unat (ucast p + ucast q - ucast b - ucast s :: u64) = unat p + unat q - unat b - unat s"
    using assms by (subst unat_sub) (simp_all add: word_le_nat_alt unat_up)
  then show ?thesis using unat_u32_lt [of q] assms(2) by (simp add: unat_down)
qed

subsection \<open>Sorting a table\<close>

lemma sorted_wrt_perm:
  assumes "mset xs = mset ys" "sorted_wrt P xs" and sym: "\<And>x y. P x y \<Longrightarrow> P y x"
  shows "sorted_wrt P ys"
  using assms(1,2)
proof (induction xs arbitrary: ys)
  case (Cons x xs)
  have "x \<in> set ys" using mset_eq_setD [OF Cons.prems(1)] by auto
  then obtain us vs where ys: "ys = us @ x # vs" using split_list by metis
  have m: "mset xs = mset (us @ vs)" using Cons.prems(1) ys by simp
  have st: "set xs = set us \<union> set vs" using mset_eq_setD [OF m] by simp
  then have "\<forall>u\<in>set us. P u x" using Cons.prems(2) by (auto intro: sym)
  moreover have "sorted_wrt P (us @ vs)" using Cons.IH [OF m] Cons.prems(2) by simp
  ultimately show ?case using Cons.prems(2) st by (simp add: ys sorted_wrt_append)
qed simp

interpretation rr: comparator rr_cmp
  by unfold_locales (auto simp: rr_cmp_def split: if_splits)

definition apart :: "range_desc \<Rightarrow> range_desc \<Rightarrow> bool" where
  "apart x y \<longleftrightarrow> before x y \<or> before y x"

lemma apart_sym: "apart x y \<Longrightarrow> apart y x"
  by (auto simp: apart_def)

lemma apart_addrs: "apart x y \<Longrightarrow> addrs x \<inter> addrs y = {}"
  by (auto simp: apart_def before_def addrs_def)

lemma apart_sub:
  assumes "apart x y" "unat (r_begin x) \<le> unat (r_begin z)" "r_end z \<le> r_end x" "is_idle x"
    "unat (r_begin z) < r_end z"
  shows "apart z y"
  using assms by (auto simp: apart_def before_def)

lemma resource_ok_sort:
  assumes "sorted_wrt apart rd" "\<And>x. x \<in> set rd \<Longrightarrow> range_ok x"
  shows "resource_ok (sort rr_cmp rd)"
proof -
  let ?t = "sort rr_cmp rd"
  have set: "set ?t = set rd" using mset_eq_setD [OF mset_sort] .
  have 1: "sorted_wrt apart ?t"
    by (rule sorted_wrt_perm [OF mset_sort [symmetric] assms(1)]) (rule apart_sym)
  have 2: "sorted_wrt (\<lambda>x y. rr_cmp x y \<le> 0) ?t" by (rule rr.sort_sorts)
  have "before (?t ! i) (?t ! j)" if "i < j" "j < length ?t" for i j
  proof -
    have "apart (?t ! i) (?t ! j)" "rr_cmp (?t ! i) (?t ! j) \<le> 0"
      using 1 2 that by (simp_all add: sorted_wrt_iff_nth_less)
    moreover have "?t ! i \<in> set rd" "?t ! j \<in> set rd"
      using that nth_mem [of _ ?t] unfolding set by auto
    ultimately show ?thesis using assms(2)
      by (force simp: apart_def before_def range_ok_def rr_cmp_def word_less_nat_alt split: if_splits)
  qed
  then show ?thesis using assms(2) by (simp add: resource_ok_def set sorted_wrt_iff_nth_less)
qed

lemma resource_apart:
  assumes "resource_ok sr" "x \<in> set sr" "y \<in> set sr" "x \<noteq> y"
  shows "apart x y"
proof -
  obtain i j where "i < length sr" "x = sr ! i" "j < length sr" "y = sr ! j"
    using assms by (auto simp: in_set_conv_nth)
  then show ?thesis
    using assms(1,4) unfolding resource_ok_def sorted_wrt_iff_nth_less apart_def
    by (metis linorder_neqE_nat)
qed

lemma type_at_in:
  assumes "\<And>y. y \<in> set sr \<Longrightarrow> a \<in> addrs y \<Longrightarrow> y = x" "x \<in> set sr" "a \<in> addrs x"
  shows "type_at sr a = Some (r_flag x AND RANGERESOURCE_TYPE_MASK)"
  using assms
proof (induction sr)
  case (Cons z zs)
  show ?case
  proof (cases "a \<in> addrs z")
    case True
    then have "z = x" using Cons.prems(1) [of z] by simp
    then show ?thesis using True by simp
  next
    case False
    then have "x \<in> set zs" using Cons.prems(2,3) by auto
    then show ?thesis using False Cons.IH Cons.prems by simp
  qed
qed simp

lemma type_at_out: "(\<And>y. y \<in> set sr \<Longrightarrow> a \<notin> addrs y) \<Longrightarrow> type_at sr a = None"
  by (induction sr) auto

lemma type_at_mem: "type_at sr a = Some f \<Longrightarrow> \<exists>x\<in>set sr. a \<in> addrs x \<and> r_flag x AND RANGERESOURCE_TYPE_MASK = f"
  by (induction sr) (auto split: if_splits)

lemma type_at_resource:
  assumes "resource_ok sr"
  shows "type_at sr a = Some f \<longleftrightarrow> (\<exists>x\<in>set sr. a \<in> addrs x \<and> r_flag x AND RANGERESOURCE_TYPE_MASK = f)"
proof
  assume "\<exists>x\<in>set sr. a \<in> addrs x \<and> r_flag x AND RANGERESOURCE_TYPE_MASK = f"
  then obtain x where x: "x \<in> set sr" "a \<in> addrs x" "r_flag x AND RANGERESOURCE_TYPE_MASK = f" by blast
  have "y = x" if "y \<in> set sr" "a \<in> addrs y" for y
    using resource_apart [OF assms x(1) that(1)] apart_addrs x(2) that(2) by blast
  then show "type_at sr a = Some f" using type_at_in x by metis
qed (rule type_at_mem)

lemma find_range_Some:
  "find_range b s sr = Some i \<Longrightarrow> i < length sr \<and> is_idle (sr ! i) \<and> r_begin (sr ! i) \<le> b \<and>
     b + s \<le> r_begin (sr ! i) + r_size (sr ! i)"
  by (induction sr arbitrary: i) (auto split: if_splits)

lemma find_range_None:
  "find_range b s sr = None \<longleftrightarrow> (\<forall>x\<in>set sr. \<not> (is_idle x \<and> r_begin x \<le> b \<and> b + s \<le> r_begin x + r_size x))"
  by (induction sr) auto

lemma fits_nat:
  assumes "range_ok x" "unat b + unat s < 2 ^ 32"
  shows "b + s \<le> r_begin x + r_size x \<longleftrightarrow> unat b + unat s \<le> r_end x"
  using assms by (simp add: range_ok_def r_end_def word_le_nat_alt unat_add_no_wrap)

lemma idle_flag [simp]: "is_idle \<lparr>r_begin = b, r_size = s, r_flag = RANGERESOURCE_TYPE_IDLE\<rparr>"
  by (simp add: is_idle_def RANGERESOURCE_TYPE_IDLE_def)

subsection \<open>Adding a range\<close>

lemma type_at_idle: "type_at sr a = Some RANGERESOURCE_TYPE_IDLE \<Longrightarrow> \<exists>x\<in>set sr. a \<in> addrs x \<and> is_idle x"
  by (drule type_at_mem) (auto simp: is_idle_def)

lemma idle_covered:
  assumes ok: "resource_ok sr" and s: "0 < s" and all: "\<And>a. b \<le> a \<Longrightarrow> a < b + s \<Longrightarrow> type_at sr a = Some RANGERESOURCE_TYPE_IDLE"
  shows "\<exists>x\<in>set sr. is_idle x \<and> unat (r_begin x) \<le> b \<and> b + s \<le> r_end x"
proof -
  obtain x where x: "x \<in> set sr" "b \<in> addrs x" "is_idle x" using all [of b] s type_at_idle by fastforce
  have "b + s \<le> r_end x"
  proof (rule ccontr)
    assume n: "\<not> b + s \<le> r_end x"
    obtain y where y: "y \<in> set sr" "r_end x \<in> addrs y" "is_idle y"
      using all [of "r_end x"] n x(2) type_at_idle by (fastforce simp: addrs_def)
    have "y \<noteq> x" using y(2) by (auto simp: addrs_def)
    then show False using resource_apart [OF ok x(1) y(1)] x y by (auto simp: apart_def before_def addrs_def)
  qed
  then show ?thesis using x by (auto simp: addrs_def)
qed

lemma add_range_pieces:
  assumes ok: "resource_ok (us @ x # vs)" and x: "is_idle x" "unat (r_begin x) \<le> b" "b + s \<le> r_end x" and s: "0 < s"
    and n: "unat (r_begin n) = b" "unat (r_size n) = s" "\<not> is_idle n"
    and H: "H = [] \<and> unat (r_begin x) = b \<or>
      (\<exists>h. H = [h] \<and> unat (r_begin h) = unat (r_begin x) \<and> r_end h = b \<and> is_idle h \<and> unat (r_begin x) < b)"
    and K: "K = [] \<and> r_end x = b + s \<or>
      (\<exists>h. K = [h] \<and> unat (r_begin h) = b + s \<and> r_end h = r_end x \<and> is_idle h \<and> b + s < r_end x)"
  defines "sr' \<equiv> sort rr_cmp (us @ n # vs @ H @ K)"
  shows "resource_ok sr'"
    "type_at sr' a = (if b \<le> a \<and> a < b + s then Some (r_flag n AND RANGERESOURCE_TYPE_MASK) else type_at (us @ x # vs) a)"
proof -
  have xok: "range_ok x" and rest: "\<forall>y\<in>set (us @ vs). range_ok y" using ok by (auto simp: resource_ok_def)
  have re: "r_end n = b + s" by (simp add: r_end_def n)
  have xy: "apart x y" if "y \<in> set (us @ vs)" for y
    using ok that by (auto simp: resource_ok_def sorted_wrt_append apart_def)
  have inner: "unat (r_begin x) \<le> unat (r_begin z) \<and> r_end z \<le> r_end x \<and> unat (r_begin z) < r_end z"
    if "z \<in> set (H @ n # K)" for z
    using that H K x(2,3) s n re by auto
  have "sorted_wrt apart (us @ vs)"
  proof (rule sorted_wrt_mono_rel)
    show "sorted_wrt before (us @ vs)" using ok by (auto simp: resource_ok_def sorted_wrt_append)
  qed (simp add: apart_def)
  moreover have "sorted_wrt apart (H @ n # K)"
    using H K n re s by (auto simp: apart_def before_def)
  moreover have "apart z y" if "z \<in> set (H @ n # K)" "y \<in> set (us @ vs)" for z y
    using apart_sub [OF xy [OF that(2)]] inner [OF that(1)] x(1) by blast
  ultimately have "sorted_wrt apart ((H @ n # K) @ us @ vs)"
    unfolding sorted_wrt_append [of _ "H @ n # K"] by blast
  then have "sorted_wrt apart (us @ n # vs @ H @ K)"
    by (rule sorted_wrt_perm [rotated]) (auto intro: apart_sym)
  moreover have "range_ok z" if "z \<in> set (us @ n # vs @ H @ K)" for z
    using that rest inner [of z] xok by (auto simp: range_ok_def)
  ultimately show ok': "resource_ok sr'" unfolding sr'_def by (rule resource_ok_sort)
  have set: "set sr' = set us \<union> set vs \<union> set (H @ n # K)"
    unfolding sr'_def by (subst mset_eq_setD [OF mset_sort]) auto
  show "type_at sr' a = (if b \<le> a \<and> a < b + s then Some (r_flag n AND RANGERESOURCE_TYPE_MASK) else type_at (us @ x # vs) a)"
  proof (cases "b \<le> a \<and> a < b + s")
    case True
    then have "a \<in> addrs n" by (simp add: addrs_def n re)
    then show ?thesis using True type_at_resource [OF ok'] set by auto
  next
    case False
    have "(\<exists>z\<in>set (H @ n # K). a \<in> addrs z \<and> r_flag z AND RANGERESOURCE_TYPE_MASK = g) \<longleftrightarrow>
        a \<in> addrs x \<and> r_flag x AND RANGERESOURCE_TYPE_MASK = g" for g
      using False H K x n(1,2) re by (auto simp: addrs_def is_idle_def)
    then have "type_at sr' a = Some g \<longleftrightarrow> type_at (us @ x # vs) a = Some g" for g
      using type_at_resource [OF ok'] type_at_resource [OF ok] set by (auto simp: bex_Un)
    then show ?thesis using False by (metis not_Some_eq)
  qed
qed


lemma down_up: "(ucast (ucast (w :: u32) :: u64) :: u32) = w"
  using unat_u32_lt [of w] by (simp add: word_unat_eq_iff unat_down unat_up)

text \<open>
  What \<^verbatim>\<open>resoure_add_range\<close> does to a table of disjoint ranges when a nonempty range of a type
  that is not idle is added: it succeeds exactly when the table has room and all the range is idle.
\<close>

lemma resoure_add_range_ok:
  assumes ok: "resource_ok sr" and sz: "0 < sz" "unat beg + unat sz < 2 ^ 32"
    and f: "flag AND RANGERESOURCE_TYPE_MASK \<noteq> RANGERESOURCE_TYPE_IDLE"
    and room: "length sr + 2 \<le> MM_RANGERESOURCE_MAXNUM"
    and all: "\<And>a. unat beg \<le> a \<Longrightarrow> a < unat beg + unat sz \<Longrightarrow> type_at sr a = Some RANGERESOURCE_TYPE_IDLE"
  shows "\<exists>sr'. resoure_add_range sr beg sz flag = (0, sr') \<and> resource_ok sr' \<and> length sr' \<le> length sr + 2 \<and>
    (\<forall>a. type_at sr' a = (if unat beg \<le> a \<and> a < unat beg + unat sz then Some (flag AND RANGERESOURCE_TYPE_MASK)
                           else type_at sr a))"
proof -
  have sz0: "0 < unat sz" using sz(1) by (simp add: unat_gt_0)
  obtain y where y: "y \<in> set sr" "is_idle y" "unat (r_begin y) \<le> unat beg" "unat beg + unat sz \<le> r_end y"
    using idle_covered [OF ok sz0] all by blast
  have "\<exists>i. find_range beg sz sr = Some i"
  proof (rule ccontr)
    assume "\<nexists>i. find_range beg sz sr = Some i"
    then have "find_range beg sz sr = None" by simp
    moreover have "range_ok y" using ok y(1) by (simp add: resource_ok_def)
    then have "beg + sz \<le> r_begin y + r_size y" using fits_nat [OF _ sz(2)] y(4) by blast
    ultimately show False
      using y(1-3) by (simp add: find_range_None word_le_nat_alt)
  qed
  then obtain i where i: "find_range beg sz sr = Some i" by blast
  define x where "x = sr ! i"
  define us where "us = take i sr"
  define vs where "vs = drop (Suc i) sr"
  have il: "i < length sr" and idle: "is_idle x" and bx: "r_begin x \<le> beg" and fit: "beg + sz \<le> r_begin x + r_size x"
    using find_range_Some [OF i] by (simp_all add: x_def)
  have sr: "sr = us @ x # vs" using il by (simp add: us_def vs_def x_def id_take_nth_drop)
  have rx: "range_ok x" using ok by (simp add: sr resource_ok_def)
  have fit': "unat beg + unat sz \<le> r_end x" using fit fits_nat [OF rx sz(2)] by simp
  have bx': "unat (r_begin x) \<le> unat beg" using bx by (simp add: word_le_nat_alt)
  define n where "n = \<lparr>r_begin = beg, r_size = sz, r_flag = flag\<rparr>"
  define H where "H = (if (ucast (r_begin x) :: u64) < ucast beg
      then [\<lparr>r_begin = r_begin x, r_size = ucast (ucast beg - ucast (r_begin x) :: u64), r_flag = RANGERESOURCE_TYPE_IDLE\<rparr>]
      else [])"
  define K where "K = (if (ucast (beg + sz) :: u64) < ucast (r_begin x) + ucast (r_size x)
      then [\<lparr>r_begin = beg + sz, r_size = ucast (ucast (r_begin x) + ucast (r_size x) - ucast beg - ucast sz :: u64),
             r_flag = RANGERESOURCE_TYPE_IDLE\<rparr>] else [])"
  have bs: "unat (beg + sz) = unat beg + unat sz" using sz(2) by (simp add: unat_add_no_wrap)
  have upd: "sr[i := n] = us @ n # vs" using il by (simp add: us_def vs_def upd_conv_take_nth_drop)
  have res: "resoure_add_range sr beg sz flag = (0, sort rr_cmp (us @ n # vs @ H @ K))"
    using room i unfolding resoure_add_range_def
    by (simp add: Let_def upd flip: x_def n_def) (simp add: H_def K_def down_up)
  have n_eq: "unat (r_begin n) = unat beg" "unat (r_size n) = unat sz" "\<not> is_idle n"
    using f by (simp_all add: n_def is_idle_def)
  have H: "H = [] \<and> unat (r_begin x) = unat beg \<or>
      (\<exists>h. H = [h] \<and> unat (r_begin h) = unat (r_begin x) \<and> r_end h = unat beg \<and> is_idle h \<and> unat (r_begin x) < unat beg)"
    using bx bx' hole_before [OF bx] by (auto simp: H_def word_less_nat_alt unat_up r_end_def)
  have K: "K = [] \<and> r_end x = unat beg + unat sz \<or>
      (\<exists>h. K = [h] \<and> unat (r_begin h) = unat beg + unat sz \<and> r_end h = r_end x \<and> is_idle h \<and> unat beg + unat sz < r_end x)"
    using fit' bs hole_behind [of beg sz "r_begin x" "r_size x"] bx'
    by (auto simp: K_def word_less_nat_alt unat_up unat_up_add r_end_def)
  note pieces = add_range_pieces [OF ok [unfolded sr] idle bx' fit' sz0 n_eq H K]
  have len: "length H \<le> 1" "length K \<le> 1" by (simp_all add: H_def K_def)
  show ?thesis
    using pieces res len by (intro exI [of _ "sort rr_cmp (us @ n # vs @ H @ K)"]) (simp add: sr n_def)
qed


lemma resoure_add_range_fail:
  assumes ok: "resource_ok sr" and sz: "unat beg + unat sz < 2 ^ 32"
    and a: "unat beg \<le> a" "a < unat beg + unat sz" "type_at sr a \<noteq> Some RANGERESOURCE_TYPE_IDLE"
  shows "resoure_add_range sr beg sz flag =
    (if MM_RANGERESOURCE_MAXNUM < length sr + 2 then - 2 else - 1, sr)"
proof -
  have "\<not> (is_idle x \<and> r_begin x \<le> beg \<and> beg + sz \<le> r_begin x + r_size x)" if x: "x \<in> set sr" for x
  proof
    assume f: "is_idle x \<and> r_begin x \<le> beg \<and> beg + sz \<le> r_begin x + r_size x"
    have "range_ok x" using ok x by (simp add: resource_ok_def)
    then have "unat beg + unat sz \<le> r_end x" using f fits_nat [OF _ sz] by blast
    then have "a \<in> addrs x" using f a by (simp add: addrs_def word_le_nat_alt)
    then have "type_at sr a = Some RANGERESOURCE_TYPE_IDLE"
      using type_at_resource [OF ok] x f by (auto simp: is_idle_def)
    then show False using a(3) by simp
  qed
  then have "find_range beg sz sr = None" by (simp add: find_range_None)
  then show ?thesis by (simp add: resoure_add_range_def)
qed

section \<open>Handing the idle ranges to the allocator\<close>

lemma page2pa_simps: "page2pa p < page2pa q \<longleftrightarrow> p < q" "page2pa p \<le> page2pa q \<longleftrightarrow> p \<le> q"
  "page2pa (p + q) = page2pa p + page2pa q"
  by (simp_all add: page2pa_def)

definition idle_pages :: "resource \<Rightarrow> nat set" where
  "idle_pages sr = {p. \<exists>x\<in>set sr. is_idle x \<and> page2pa p \<in> addrs x}"

lemma idle_pages_simps [simp]:
  "idle_pages [] = {}"
  "idle_pages (x # xs) = (if is_idle x then {p. page2pa p \<in> addrs x} \<union> idle_pages xs else idle_pages xs)"
  by (auto simp: idle_pages_def)

definition aligned :: "range_desc \<Rightarrow> bool" where
  "aligned x \<longleftrightarrow> (\<exists>p n. unat (r_begin x) = page2pa p \<and> unat (r_size x) = page2pa n)"

lemma online_ranges_ok:
  "sorted_wrt before sr \<Longrightarrow> (\<And>x. x \<in> set sr \<Longrightarrow> is_idle x \<Longrightarrow> aligned x \<and> r_end x \<le> page2pa (n_pages s)) \<Longrightarrow>
   buddy_inv s L A \<Longrightarrow> idle_pages sr \<inter> pages (A \<union> free_blocks L) = {} \<Longrightarrow>
     \<exists>s' L'. online_ranges sr s = Inr s' \<and> buddy_inv s' L' A \<and>
       pages (free_blocks L') = pages (free_blocks L) \<union> idle_pages sr \<and> same_map s s'"
proof (induction sr arbitrary: s L)
  case Nil
  then show ?case by auto
next
  case (Cons x sr)
  show ?case
  proof (cases "is_idle x")
    case False
    have "\<exists>s' L'. online_ranges sr s = Inr s' \<and> buddy_inv s' L' A \<and>
       pages (free_blocks L') = pages (free_blocks L) \<union> idle_pages sr \<and> same_map s s'"
    proof (rule Cons.IH)
      show "aligned y \<and> r_end y \<le> page2pa (n_pages s)" if "y \<in> set sr" "is_idle y" for y
        using Cons.prems(2) [of y] that by simp
    qed (use Cons.prems False in auto)
    then show ?thesis using False by simp
  next
    case True
    then have "aligned x" "r_end x \<le> page2pa (n_pages s)" using Cons.prems(2) by auto
    then obtain p n where pn: "unat (r_begin x) = page2pa p" "unat (r_size x) = page2pa n"
      "r_end x = page2pa (p + n)" by (auto simp: aligned_def r_end_def page2pa_simps)
    have le: "p + n \<le> n_pages s" using \<open>r_end x \<le> _\<close> pn(3) by (simp add: page2pa_def)
    have ad: "{q. page2pa q \<in> addrs x} = {p..<p + n}"
      by (simp add: addrs_def pn page2pa_simps atLeastLessThan_def lessThan_def atLeast_def Collect_conj_eq del: page2pa_simps(3))
    have "{p..<p + n} \<inter> pages (A \<union> free_blocks L) = {}" using Cons.prems(4) True ad by auto
    then obtain s1 L1 where s1: "sysram_online (page2pa p) (page2pa n) s = Inr s1" "buddy_inv s1 L1 A"
        "pages (free_blocks L1) = pages (free_blocks L) \<union> {p..<p + n}" "same_map s s1"
      using sysram_online_ok [OF Cons.prems(3) le] by blast
    have np: "n_pages s1 = n_pages s" using s1(4) by (simp add: same_map_def)
    have "q \<notin> idle_pages sr" if "q \<in> {p..<p + n}" for q
    proof
      assume "q \<in> idle_pages sr"
      then obtain y where y: "y \<in> set sr" "is_idle y" "page2pa q \<in> addrs y" by (auto simp: idle_pages_def)
      have "before x y" using Cons.prems(1) y(1) by simp
      moreover have "page2pa q < page2pa (p + n)" using that by (simp add: page2pa_def)
      ultimately show False using y(3) pn(3) by (simp add: before_def addrs_def)
    qed
    moreover have un: "pages (A \<union> B) = pages A \<union> pages B" for B by (auto simp: pages_def)
    ultimately have "idle_pages sr \<inter> pages (A \<union> free_blocks L1) = {}"
      using Cons.prems(4) True s1(3) by (auto simp: un)
    moreover have "aligned y \<and> r_end y \<le> page2pa (n_pages s1)" if "y \<in> set sr" "is_idle y" for y
      using Cons.prems(2) [of y] that np by simp
    moreover have "sorted_wrt before sr" using Cons.prems(1) by simp
    ultimately obtain s' L' where "online_ranges sr s1 = Inr s'" "buddy_inv s' L' A"
        "pages (free_blocks L') = pages (free_blocks L1) \<union> idle_pages sr" "same_map s1 s'"
      using Cons.IH [OF _ _ s1(2)] by blast
    then show ?thesis using True s1 pn ad same_map_trans by (auto simp: Un_assoc)
  qed
qed

lemma idle_aligned:
  assumes ok: "resource_ok sr" and x: "x \<in> set sr" "is_idle x"
    and pg: "\<And>a. type_at sr a = Some RANGERESOURCE_TYPE_IDLE \<longleftrightarrow> type_at sr (page2pa (pa2page a)) = Some RANGERESOURCE_TYPE_IDLE"
  shows "aligned x"
proof -
  define idl where "idl a \<longleftrightarrow> type_at sr a = Some RANGERESOURCE_TYPE_IDLE" for a
  have same: "idl a \<longleftrightarrow> idl b" if "a div 4096 = b div 4096" for a b
    using pg [of a] pg [of b] that by (simp add: idl_def pa2page_def drop_bit_eq_div)
  have inx: "idl a" if "a \<in> addrs x" for a
    using type_at_resource [OF ok] x that by (auto simp: idl_def is_idle_def)
  have ne: "unat (r_begin x) < r_end x" using ok x(1) by (simp add: resource_ok_def range_ok_def)
  have out: "\<not> idl a" if "a + 1 = unat (r_begin x) \<or> a = r_end x" for a
  proof
    assume "idl a"
    then obtain y where y: "y \<in> set sr" "a \<in> addrs y" "is_idle y" using type_at_idle by (auto simp: idl_def)
    have "y \<noteq> x" using y(2) that by (auto simp: addrs_def)
    then show False using resource_apart [OF ok x(1) y(1)] x(2) y that ne
      by (auto simp: apart_def before_def addrs_def)
  qed
  have "4096 dvd unat (r_begin x)"
  proof (rule ccontr)
    assume n: "\<not> 4096 dvd unat (r_begin x)"
    then have "0 < unat (r_begin x)" by (metis dvd_0_right gr0I)
    then obtain a where a: "unat (r_begin x) = Suc a" using gr0_implies_Suc by blast
    have "Suc a div 4096 = a div 4096" using n unfolding a by (simp add: div_Suc dvd_eq_mod_eq_0)
    then show False using same [of a "Suc a"] inx [of "Suc a"] out [of a] a ne by (simp add: addrs_def)
  qed
  moreover have "4096 dvd r_end x"
  proof (rule ccontr)
    assume n: "\<not> 4096 dvd r_end x"
    obtain a where a: "r_end x = Suc a" using ne gr0_implies_Suc [of "r_end x"] by auto
    have "Suc a div 4096 = a div 4096" using n unfolding a by (simp add: div_Suc dvd_eq_mod_eq_0)
    then show False using same [of a "Suc a"] inx [of a] out [of "Suc a"] a ne by (simp add: addrs_def)
  qed
  ultimately have "4096 dvd unat (r_size x)" by (simp add: r_end_def dvd_add_right_iff)
  with \<open>4096 dvd unat (r_begin x)\<close> show ?thesis
    by (auto simp: aligned_def page2pa_def dvd_def mult.commute)
qed


section \<open>Setting up the memory\<close>

text \<open>The state the kernel image starts with: only the low megabyte is described.\<close>

definition mm_boot :: "mem \<Rightarrow> mmstate" where
  "mm_boot m = \<lparr>n_pages = 0, pagelist = (\<lambda>_. \<lparr>buddy_rank = 0, refcount = 0\<rparr>),
     links = (\<lambda>_. \<lparr>lprev = None, lnext = None\<rparr>), area_begin = (\<lambda>_. 0),
     area_size = (\<lambda>a. if a = MMAREA_LOW1M then 2 ^ 20 else 0), ram = m\<rparr>"

definition empty_lists :: "node lstore" where
  "empty_lists = (\<lambda>nd. if nd \<in> heads then \<lparr>lprev = Some nd, lnext = Some nd\<rparr> else \<lparr>lprev = None, lnext = None\<rparr>)"

lemma init_lists: "foldr (\<lambda>a h. foldr (\<lambda>r h. list_init (Hd a r) h) [0..<BUDDY_RANKNUM] h) [0..<MMAREA_NUM]
    (\<lambda>_. \<lparr>lprev = None, lnext = None\<rparr>) = empty_lists"
proof -
  have 1: "foldr (\<lambda>r h. list_init (Hd a r) h) rs h nd =
      (if \<exists>r\<in>set rs. nd = Hd a r then \<lparr>lprev = Some nd, lnext = Some nd\<rparr> else h nd)" for a rs h nd
    by (induction rs) (auto simp: list_init_def)
  have 2: "foldr (\<lambda>a h. foldr (\<lambda>r h. list_init (Hd a r) h) rs h) as h nd =
      (if \<exists>a\<in>set as. \<exists>r\<in>set rs. nd = Hd a r then \<lparr>lprev = Some nd, lnext = Some nd\<rparr> else h nd)" for as rs h nd
    by (induction as) (auto simp: 1)
  show ?thesis by (rule ext) (auto simp: 2 empty_lists_def heads_def Bex_def)
qed

lemma empty_lists_rings: "rings UNIV heads (\<lambda>_. []) empty_lists"
  by (auto simp: rings_def ring_def members_def empty_lists_def check_node_outoflist_def check_node_inlist_def)

lemma area_consts: "MMAREA_LOW1M = 0" "MMAREA_NORMAL = 1" "MMAREA_HIGHMM = 2" "MMAREA_NUM = 3"
  by (simp_all add: MMAREA_LOW1M_def MMAREA_NORMAL_def MMAREA_HIGHMM_def MMAREA_NUM_def)

text \<open>The state \<^verbatim>\<open>mmarea_init\<close> and \<^verbatim>\<open>buddy_init\<close> leave behind.\<close>

lemma areas_init:
  assumes "2 ^ 14 dvd n" "0 < n" "n \<le> 2 ^ 20"
    and "n_pages s = n" "area_begin s 0 = 0" "area_size s 0 = 2 ^ 20" "area_begin s 1 = 2 ^ 20"
    and "area_size s 1 = min (2 ^ 28) (page2pa n) - 2 ^ 20"
    and "area_begin s 2 = (if 2 ^ 28 < page2pa n then 2 ^ 28 else 0)"
    and "area_size s 2 = page2pa n - 2 ^ 28"
  shows "areas_ok s"
proof -
  have n: "2 ^ 14 \<le> n" using assms(1,2) by (rule dvd_imp_le)
  have get: "get_pagearea s p = Inr (if p < 2 ^ 8 then 0 else if p < 2 ^ 16 then 1 else 2)" if "p < n" for p
  proof -
    have "get_pagearea s p =
      (if area_size s 0 \<noteq> 0 \<and> area_begin s 0 \<le> page2pa p \<and> page2pa p < area_begin s 0 + area_size s 0 then Inr 0
       else if area_size s 1 \<noteq> 0 \<and> area_begin s 1 \<le> page2pa p \<and> page2pa p < area_begin s 1 + area_size s 1 then Inr 1
       else if area_size s 2 \<noteq> 0 \<and> area_begin s 2 \<le> page2pa p \<and> page2pa p < area_begin s 2 + area_size s 2 then Inr 2
       else Inl Die)"
      by (simp add: get_pagearea_def MMAREA_NUM_def numeral_3_eq_3 numeral_2_eq_2)
    then show ?thesis
      using that n assms(4-) by (auto simp: page2pa_def)
  qed
  have ap: "p \<in> area_pages s a \<longleftrightarrow> p < n \<and> a = (if p < 2 ^ 8 then 0 else if p < 2 ^ 16 then 1 else 2)" if "a < 3" for p a
  proof -
    from that consider "a = 0" | "a = 1" | "a = 2" by linarith
    then show ?thesis using n assms(4-) by cases (auto simp: area_pages_def page2pa_def)
  qed
  show ?thesis
    unfolding areas_ok_def MMAREA_NUM_def assms(4)
  proof (intro conjI allI impI ballI)
    fix p assume "p < n"
    then show "\<exists>a<3. p \<in> area_pages s a"
      by (intro exI [of _ "if p < 2 ^ 8 then 0 else if p < 2 ^ 16 then 1 else 2 :: nat"]) (simp add: ap)
  qed (use assms(1) get ap in auto)
qed


lemma buddy_init_inv:
  assumes "areas_ok s" "links s = empty_lists" "\<And>p. refcount (pagelist s p) = 0"
  shows "buddy_inv s (\<lambda>_. []) {}"
  using assms empty_lists_rings
  by (auto simp: buddy_inv_def disjoint_blocks_def free_blocks_def)

lemma add_or_die_ok:
  assumes "resource_ok sr" "0 < sz" "unat beg + unat sz < 2 ^ 32"
    and "flag AND RANGERESOURCE_TYPE_MASK \<noteq> RANGERESOURCE_TYPE_IDLE" "length sr + 2 \<le> MM_RANGERESOURCE_MAXNUM"
    and "\<And>a. unat beg \<le> a \<Longrightarrow> a < unat beg + unat sz \<Longrightarrow> type_at sr a = Some RANGERESOURCE_TYPE_IDLE"
  obtains sr' where "resoure_add_range sr beg sz flag = (0, sr')" "add_or_die beg sz flag sr = Inr sr'"
    "resource_ok sr'" "length sr' \<le> length sr + 2"
    "\<And>a. type_at sr' a = (if unat beg \<le> a \<and> a < unat beg + unat sz then Some (flag AND RANGERESOURCE_TYPE_MASK)
                           else type_at sr a)"
  using resoure_add_range_ok [OF assms] that by (fastforce simp: add_or_die_def)

definition sys_top :: "u32 \<Rightarrow> u32" where
  "sys_top sys_end = get_upper_range (sys_end + MM_HOLEAFTER_SYSRAM) PAGE_SIZE"

lemma sys_top_bounds:
  assumes "unat sys_end + 4096 \<le> 0xA0000"
  shows "unat (sys_top sys_end) \<le> 0xA0000" "4096 dvd unat (sys_top sys_end)" "0 < sys_top sys_end"
proof -
  have u: "unat (sys_end + 4096) = unat sys_end + 4096" using assms by (simp add: unat_add_no_wrap)
  have "unat (sys_top sys_end) = (unat sys_end + 4096 + 4095) div 4096 * 4096"
    using get_upper_range_unat [of 12 "sys_end + 4096"] assms
    by (simp add: sys_top_def MM_HOLEAFTER_SYSRAM_def PAGE_SIZE_eq u)
  then show "unat (sys_top sys_end) \<le> 0xA0000" "4096 dvd unat (sys_top sys_end)" "0 < sys_top sys_end"
    using assms by (auto simp: word_less_nat_alt)
qed

lemma type_consts: "RANGERESOURCE_TYPE_USED AND RANGERESOURCE_TYPE_MASK = 1"
  "RANGERESOURCE_TYPE_RESERVE AND RANGERESOURCE_TYPE_MASK = 2"
  "RANGERESOURCE_TYPE_IDLE = 0" "MM_RANGERESOURCE_MAXNUM = 16" "RANGERESOURCE_TYPE_IDLE AND RANGERESOURCE_TYPE_MASK = 0"
  by (simp_all add: RANGERESOURCE_TYPE_USED_def RANGERESOURCE_TYPE_MASK_def RANGERESOURCE_TYPE_RESERVE_def
      RANGERESOURCE_TYPE_IDLE_def MM_RANGERESOURCE_MAXNUM_def)

lemma mem_ranges:
  assumes n: "unat ram_size = page2pa n" "2 ^ 14 dvd n" "0 < n" and sys: "unat sys_end + 4096 \<le> 0xA0000"
  obtains sa sr sr' where
    "add_or_die 0 (sys_top sys_end) RANGERESOURCE_TYPE_USED
        [\<lparr>r_begin = 0, r_size = ram_size, r_flag = RANGERESOURCE_TYPE_IDLE\<rparr>] = Inr sa"
    "add_or_die 0xA0000 0x60000 RANGERESOURCE_TYPE_RESERVE sa = Inr sr"
    "resoure_add_range sr EXTENT_RAM_ADDR (of_nat (n * 16)) RANGERESOURCE_TYPE_USED = (0, sr')"
    "resource_ok sr'"
    "\<And>a. type_at sr' a =
      (if a < unat (sys_top sys_end) \<or> 2 ^ 20 \<le> a \<and> a < 2 ^ 20 + n * 16 then Some RANGERESOURCE_TYPE_USED
       else if 0xA0000 \<le> a \<and> a < 2 ^ 20 then Some RANGERESOURCE_TYPE_RESERVE
       else if a < unat ram_size then Some RANGERESOURCE_TYPE_IDLE else None)"
proof -
  have n14: "2 ^ 14 \<le> n" using n(2,3) by (rule dvd_imp_le)
  have nlt: "n < 2 ^ 20" using unat_u32_lt [of ram_size] n(1) by (simp add: page2pa_def)
  let ?sr = "[\<lparr>r_begin = 0, r_size = ram_size, r_flag = RANGERESOURCE_TYPE_IDLE\<rparr>]"
  note top = sys_top_bounds [OF sys]
  have ram: "2 ^ 26 \<le> unat ram_size" using n14 n(1) by (simp add: page2pa_def)
  have ok: "resource_ok ?sr" using unat_u32_lt [of ram_size] ram by (simp add: resource_ok_def range_ok_def r_end_def)
  have ty: "type_at ?sr a = (if a < unat ram_size then Some RANGERESOURCE_TYPE_IDLE else None)" for a
    by (simp add: addrs_def r_end_def type_consts)
  obtain sr1 where s1: "add_or_die 0 (sys_top sys_end) RANGERESOURCE_TYPE_USED ?sr = Inr sr1"
      "resource_ok sr1" "length sr1 \<le> 3"
      "\<And>a. type_at sr1 a = (if a < unat (sys_top sys_end) then Some 1 else type_at ?sr a)"
    by (rule add_or_die_ok [OF ok, of "sys_top sys_end" 0 RANGERESOURCE_TYPE_USED])
      (use top ram in \<open>auto simp: type_consts unat_gt_0 addrs_def r_end_def\<close>)
  obtain sr2 where s2: "add_or_die 0xA0000 0x60000 RANGERESOURCE_TYPE_RESERVE sr1 = Inr sr2"
      "resource_ok sr2" "length sr2 \<le> 5"
      "\<And>a. type_at sr2 a = (if 0xA0000 \<le> a \<and> a < 2 ^ 20 then Some 2 else type_at sr1 a)"
    by (rule add_or_die_ok [OF s1(2), of "0x60000" "0xA0000" RANGERESOURCE_TYPE_RESERVE])
      (use top ram s1(3,4) ty in \<open>auto simp: type_consts\<close>)
  have n16: "unat (of_nat (n * 16) :: u32) = n * 16" using nlt by (intro unat_of_nat_small) simp
  obtain sr3 where s3: "resoure_add_range sr2 EXTENT_RAM_ADDR (of_nat (n * 16)) RANGERESOURCE_TYPE_USED = (0, sr3)"
      "resource_ok sr3"
      "\<And>a. type_at sr3 a = (if 2 ^ 20 \<le> a \<and> a < 2 ^ 20 + n * 16 then Some 1 else type_at sr2 a)"
  proof (rule add_or_die_ok [OF s2(2), of "of_nat (n * 16)" EXTENT_RAM_ADDR RANGERESOURCE_TYPE_USED])
    show "(0 :: u32) < of_nat (n * 16)" unfolding word_less_nat_alt n16 using n(3) by simp
    show "type_at sr2 a = Some RANGERESOURCE_TYPE_IDLE"
      if "unat EXTENT_RAM_ADDR \<le> a" "a < unat EXTENT_RAM_ADDR + unat (of_nat (n * 16) :: u32)" for a
      using that top n14 n(1) s1(4) s2(4) ty n16 by (simp add: EXTENT_RAM_ADDR_def page2pa_def)
  qed (use s2(3) n16 nlt in \<open>auto simp: type_consts EXTENT_RAM_ADDR_def\<close>)
  show ?thesis
  proof (rule that [OF s1(1) s2(1) s3(1,2)])
    show "type_at sr3 a =
      (if a < unat (sys_top sys_end) \<or> 2 ^ 20 \<le> a \<and> a < 2 ^ 20 + n * 16 then Some RANGERESOURCE_TYPE_USED
       else if 0xA0000 \<le> a \<and> a < 2 ^ 20 then Some RANGERESOURCE_TYPE_RESERVE
       else if a < unat ram_size then Some RANGERESOURCE_TYPE_IDLE else None)" for a
      using top unfolding s3(3) s2(4) s1(4) ty
      by (auto simp: RANGERESOURCE_TYPE_USED_def RANGERESOURCE_TYPE_RESERVE_def)
  qed
qed


lemma mmarea_init_boot:
  assumes n: "unat ram_size = page2pa n" "2 ^ 14 \<le> n"
  shows "\<exists>s. mmarea_init ram_size (mm_boot m) = Inr s \<and> links s = empty_lists \<and>
    pagelist s = (\<lambda>_. \<lparr>buddy_rank = 0, refcount = 0\<rparr>) \<and>
    area_begin s 0 = 0 \<and> area_size s 0 = 2 ^ 20 \<and> area_begin s 1 = 2 ^ 20 \<and>
    area_size s 1 = min (2 ^ 28) (page2pa n) - 2 ^ 20 \<and>
    area_begin s 2 = (if 2 ^ 28 < page2pa n then 2 ^ 28 else 0) \<and> area_size s 2 = page2pa n - 2 ^ 28"
proof -
  have c: "MM_NORMALMEM_RANGE < ram_size \<longleftrightarrow> 2 ^ 28 < page2pa n" "unat MM_NORMALMEM_RANGE = 2 ^ 28"
    by (simp_all add: MM_NORMALMEM_RANGE_def word_less_nat_alt n)
  have d: "unat (ram_size - MM_NORMALMEM_RANGE) = page2pa n - 2 ^ 28" if "2 ^ 28 < page2pa n"
    using that c n by (subst unat_sub) (auto simp: word_le_nat_alt)
  have lt: "2 ^ 20 < page2pa n" using n(2) by (simp add: page2pa_def)
  show ?thesis
    using init_lists c d lt
    by (auto simp: mmarea_init_def mm_boot_def Let_def area_consts n)
qed

lemma buddy_init_eq:
  assumes n: "unat ram_size = page2pa n" "2 ^ 14 dvd n" and s: "links s = empty_lists"
    "pagelist s = (\<lambda>_. \<lparr>buddy_rank = 0, refcount = 0\<rparr>)"
    and r: "resoure_add_range sr0 EXTENT_RAM_ADDR (of_nat (n * 16)) RANGERESOURCE_TYPE_USED = (0, sr)"
  shows "\<exists>t. buddy_init ram_size sr0 s = Inr (sr, t) \<and> n_pages t = n \<and> links t = empty_lists \<and>
      pagelist t = pagelist s \<and> area_begin t = area_begin s \<and> area_size t = area_size s"
proof -
  have nlt: "n < 2 ^ 20" using unat_u32_lt [of ram_size] n(1) by (simp add: page2pa_def)
  have u: "unat (ram_size div PAGE_SIZE) = n" by (simp add: unat_div_distrib n(1) page2pa_def PAGE_SIZE_eq)
  have u16: "unat (ram_size div PAGE_SIZE * sizeof_page) = n * 16"
    using nlt u by (simp add: unat_word_ariths sizeof_page_def)
  have "unat (get_upper_range (ram_size div PAGE_SIZE * sizeof_page) PAGE_SIZE) = n * 16"
  proof -
    obtain k where "n = 2 ^ 14 * k" using n(2) by blast
    then show ?thesis
      using get_upper_range_unat [of 12 "ram_size div PAGE_SIZE * sizeof_page"] u16 nlt by (simp add: PAGE_SIZE_eq)
  qed
  then have g: "get_upper_range (ram_size div PAGE_SIZE * sizeof_page) PAGE_SIZE = of_nat (n * 16)"
    by (rule word_of_unat)
  have l: "(\<lambda>nd. case nd of Pg p \<Rightarrow> if p < n then \<lparr>lprev = None, lnext = None\<rparr> else empty_lists nd
      | Hd a r \<Rightarrow> empty_lists nd) = empty_lists"
    by (rule ext) (auto simp: empty_lists_def split: node.splits)
  show ?thesis unfolding buddy_init_def Let_def u g r s by (simp add: l)
qed

section \<open>Properties\<close>

text \<open>
  C15: on a table of disjoint ranges, \<^verbatim>\<open>resoure_add_range\<close> of a nonempty range of a type other
  than idle succeeds exactly when the table has room for two more entries and the whole range is
  idle; then the range gets the type and nothing else changes. Otherwise it reports which of the
  two failed and leaves the table alone. Either way the table stays sorted and disjoint.
\<close>

theorem resoure_add_range_correct:
  assumes "resource_ok sr" "0 < sz" "unat beg + unat sz < 2 ^ 32"
    and "flag AND RANGERESOURCE_TYPE_MASK \<noteq> RANGERESOURCE_TYPE_IDLE"
    and "resoure_add_range sr beg sz flag = (ret, sr')"
  shows "resource_ok sr' \<and>
    (ret = 0 \<longleftrightarrow> length sr + 2 \<le> MM_RANGERESOURCE_MAXNUM \<and>
      (\<forall>a. unat beg \<le> a \<and> a < unat beg + unat sz \<longrightarrow> type_at sr a = Some RANGERESOURCE_TYPE_IDLE)) \<and>
    (if ret = 0 then \<forall>a. type_at sr' a =
        (if unat beg \<le> a \<and> a < unat beg + unat sz then Some (flag AND RANGERESOURCE_TYPE_MASK) else type_at sr a)
     else sr' = sr \<and> ret = (if MM_RANGERESOURCE_MAXNUM < length sr + 2 then - 2 else - 1))"
proof (cases "\<forall>a. unat beg \<le> a \<and> a < unat beg + unat sz \<longrightarrow> type_at sr a = Some RANGERESOURCE_TYPE_IDLE")
  case True
  show ?thesis
  proof (cases "length sr + 2 \<le> MM_RANGERESOURCE_MAXNUM")
    case room: True
    show ?thesis using resoure_add_range_ok [OF assms(1-4) room] True room assms(5) by auto
  next
    case False
    then show ?thesis using assms(1,5) by (auto simp: resoure_add_range_def)
  qed
next
  case False
  then obtain a where "unat beg \<le> a" "a < unat beg + unat sz" "type_at sr a \<noteq> Some RANGERESOURCE_TYPE_IDLE" by blast
  then have "(ret, sr') = (if MM_RANGERESOURCE_MAXNUM < length sr + 2 then - 2 else - 1, sr)"
    using resoure_add_range_fail [OF assms(1,3)] assms(5) by metis
  then show ?thesis using assms(1) False by (auto split: if_splits)
qed

theorem resoure_add_range_correct_witness:
  "resoure_add_range [\<lparr>r_begin = 0, r_size = 0x1000000, r_flag = 0\<rparr>] 0xA0000 0x60000 2 =
     (0, [\<lparr>r_begin = 0, r_size = 0xA0000, r_flag = 0\<rparr>, \<lparr>r_begin = 0xA0000, r_size = 0x60000, r_flag = 2\<rparr>,
          \<lparr>r_begin = 0x100000, r_size = 0xF00000, r_flag = 0\<rparr>]) \<and>
   resource_ok [\<lparr>r_begin = 0, r_size = 0xA0000, r_flag = 0\<rparr>, \<lparr>r_begin = 0xA0000, r_size = 0x60000, r_flag = 2\<rparr>,
          \<lparr>r_begin = 0x100000, r_size = 0xF00000, r_flag = 0\<rparr>]"
proof -
  have r: "resoure_add_range [\<lparr>r_begin = 0, r_size = 0x1000000, r_flag = 0\<rparr>] 0xA0000 0x60000 2 =
     (0, [\<lparr>r_begin = 0, r_size = 0xA0000, r_flag = 0\<rparr>, \<lparr>r_begin = 0xA0000, r_size = 0x60000, r_flag = 2\<rparr>,
          \<lparr>r_begin = 0x100000, r_size = 0xF00000, r_flag = 0\<rparr>])"
    by code_simp
  have "resource_ok [\<lparr>r_begin = 0, r_size = 0x1000000, r_flag = 0\<rparr>]"
    by (simp add: resource_ok_def range_ok_def r_end_def)
  from resoure_add_range_correct [OF this _ _ _ r] show ?thesis
    using r by (simp add: RANGERESOURCE_TYPE_MASK_def RANGERESOURCE_TYPE_IDLE_def)
qed




end
