(* ===== verification/Kbd.thy ===== *)
theory Kbd
  imports Func
begin

text \<open>
  The keyboard of \<^verbatim>\<open>io/kbd.c\<close>: the controller handshake, the scan code interpreter of the
  interrupt handler with its shift and caps lock states, and the ring buffer between the handler
  and \<^verbatim>\<open>kbd_get_char\<close>. The ports and the effect of waiting on the semaphore are parameters.
\<close>

section \<open>The code\<close>

definition KBD_RAWINPUTBUFF_SIZE :: nat where "KBD_RAWINPUTBUFF_SIZE = 256"
definition KBD_SCANCODE_LEFTSHIFT :: u8 where "KBD_SCANCODE_LEFTSHIFT = 0x2A"
definition KBD_SCANCODE_RIGHTSHIFT :: u8 where "KBD_SCANCODE_RIGHTSHIFT = 0x36"
definition KBD_SCANCODE_CAP :: u8 where "KBD_SCANCODE_CAP = 0x3A"

definition keys :: "string \<Rightarrow> u8 list" where
  "keys s = map chr s"

definition kbd_shiftup_map :: "u8 list" where
  "kbd_shiftup_map =
     [0, 0] @ keys ''1234567890-='' @ [8, 9] @
     keys ''qwertyuiop[]'' @ [10, 0] @ keys ''asdfghjkl;'' @ [0x27, 0x60, 0, 0x5C] @
     keys ''zxcvbnm,./'' @ [0, 0, 0, 0x20] @ replicate 70 0"

definition kbd_shiftdown_map :: "u8 list" where
  "kbd_shiftdown_map =
     [0, 0] @ keys ''!@#$%^&*()_+'' @ [8, 9] @
     keys ''QWERTYUIOP{}'' @ [10, 0] @ keys ''ASDFGHJKL:'' @ [0x22, 0x7E, 0, 0x7C] @
     keys ''ZXCVBNM<>?'' @ [0, 0, 0, 0x20] @ replicate 70 0"

text \<open>The handshake: \<open>inb\<close> reads a port of the controller, whose state is \<open>d\<close>.\<close>

definition PORT_KBD_CMD :: u16 where "PORT_KBD_CMD = 0x60"
definition PORT_KBD_CONTROL_CMD :: u16 where "PORT_KBD_CONTROL_CMD = 0x64"
definition KBDCTRL_CMD_OUTPORT_R :: u8 where "KBDCTRL_CMD_OUTPORT_R = 0xD0"
definition KBDCTRL_CMD_OUTPORT_W :: u8 where "KBDCTRL_CMD_OUTPORT_W = 0xD1"
definition MAX_8042_LOOPS :: nat where "MAX_8042_LOOPS = 100000"
definition MAX_8042_FF :: nat where "MAX_8042_FF = 32"

fun empty_8042_loop :: "(u16 \<Rightarrow> 'd \<Rightarrow> u8 \<times> 'd) \<Rightarrow> nat \<Rightarrow> nat \<Rightarrow> 'd \<Rightarrow> int \<times> 'd" where
  "empty_8042_loop inb 0 ffs d = (- 1, d)"
| "empty_8042_loop inb (Suc loops) ffs d =
     (let (status, d) = inb PORT_KBD_CONTROL_CMD d;
          ffs' = (if status = 0xff then ffs - 1 else ffs)
      in if status = 0xff \<and> ffs' = 0 then (- 1, d)
         else if status AND 1 \<noteq> 0 then empty_8042_loop inb loops ffs' (snd (inb PORT_KBD_CMD d))
         else if status AND 2 = 0 then (0, d)
         else empty_8042_loop inb loops ffs' d)"

definition empty_8042 :: "(u16 \<Rightarrow> 'd \<Rightarrow> u8 \<times> 'd) \<Rightarrow> 'd \<Rightarrow> int \<times> 'd" where
  "empty_8042 inb d = empty_8042_loop inb MAX_8042_LOOPS MAX_8042_FF d"

definition kbdctrl_outport_r :: "(u16 \<Rightarrow> 'd \<Rightarrow> u8 \<times> 'd) \<Rightarrow> (u8 \<Rightarrow> u16 \<Rightarrow> 'd \<Rightarrow> 'd) \<Rightarrow> 'd \<Rightarrow> u8 \<times> 'd" where
  "kbdctrl_outport_r inb outb d = inb PORT_KBD_CMD (outb KBDCTRL_CMD_OUTPORT_R PORT_KBD_CONTROL_CMD d)"

definition kbdctrl_outport_w :: "(u16 \<Rightarrow> 'd \<Rightarrow> u8 \<times> 'd) \<Rightarrow> (u8 \<Rightarrow> u16 \<Rightarrow> 'd \<Rightarrow> 'd) \<Rightarrow> u8 \<Rightarrow> 'd \<Rightarrow> 'd" where
  "kbdctrl_outport_w inb outb cmd d =
     (let d = snd (empty_8042 inb d);
          d = outb KBDCTRL_CMD_OUTPORT_W PORT_KBD_CONTROL_CMD d;
          d = snd (empty_8042 inb d)
      in outb cmd PORT_KBD_CMD d)"

definition cmd_reboot_opfunc :: "(u16 \<Rightarrow> 'd \<Rightarrow> u8 \<times> 'd) \<Rightarrow> (u8 \<Rightarrow> u16 \<Rightarrow> 'd \<Rightarrow> 'd) \<Rightarrow> 'd \<Rightarrow> 'd" where
  "cmd_reboot_opfunc inb outb d =
     (let (outport_cmd, d) = kbdctrl_outport_r inb outb d
      in kbdctrl_outport_w inb outb (outport_cmd AND 0xFE) d)"

record kbd =
  buff :: "u8 list"
  readpos :: nat
  writepos :: nat
  state_cap :: bool
  state_shift :: bool

text \<open>The second result says whether the semaphore is signalled.\<close>

definition kbd_rawbuff_insert :: "u8 \<Rightarrow> kbd \<Rightarrow> kbd \<times> bool" where
  "kbd_rawbuff_insert v k =
     (if (writepos k + 1) mod KBD_RAWINPUTBUFF_SIZE = readpos k then (k, False)
      else (k\<lparr>buff := (buff k)[writepos k := v], writepos := (writepos k + 1) mod KBD_RAWINPUTBUFF_SIZE\<rparr>, True))"

definition kbd_get_char :: "(kbd \<Rightarrow> kbd) \<Rightarrow> kbd \<Rightarrow> (u8 \<times> kbd) res" where
  "kbd_get_char sem_wait k =
     (let k = (if writepos k = readpos k then sem_wait k else k)
      in bindE (assertE (writepos k \<noteq> readpos k)) (\<lambda>_.
         Inr (buff k ! readpos k, k\<lparr>readpos := (readpos k + 1) mod KBD_RAWINPUTBUFF_SIZE\<rparr>)))"

definition caps :: "u8 \<Rightarrow> u8" where
  "caps ch = (if chr CHR ''a'' \<le> ch \<and> ch \<le> chr CHR ''z'' then ch + (chr CHR ''A'' - chr CHR ''a'')
              else if chr CHR ''A'' \<le> ch \<and> ch \<le> chr CHR ''Z'' then ch - (chr CHR ''A'' - chr CHR ''a'')
              else ch)"

definition kbd_int :: "u8 \<Rightarrow> kbd \<Rightarrow> kbd \<times> bool" where
  "kbd_int scancode k =
     (let key = scancode AND NOT 0x80; up = scancode AND 0x80 \<noteq> 0
      in if key = KBD_SCANCODE_LEFTSHIFT \<or> key = KBD_SCANCODE_RIGHTSHIFT then
           (k\<lparr>state_shift := \<not> up\<rparr>, False)
         else if key = KBD_SCANCODE_CAP then
           (if up then k else k\<lparr>state_cap := \<not> state_cap k\<rparr>, False)
         else if \<not> up then
           (let ch = (if state_shift k then kbd_shiftdown_map else kbd_shiftup_map) ! unat key
            in if ch = 0 then (k, False)
               else kbd_rawbuff_insert (if state_cap k then caps ch else ch) k)
         else (k, False))"

definition kbd_init :: "u8 list \<Rightarrow> kbd" where
  "kbd_init b = \<lparr>buff = b, readpos = 0, writepos = 0, state_cap = False, state_shift = False\<rparr>"

section \<open>The ring buffer is a queue\<close>

definition kbd_ok :: "kbd \<Rightarrow> bool" where
  "kbd_ok k \<longleftrightarrow> length (buff k) = 256 \<and> readpos k < 256 \<and> writepos k < 256"

definition kbd_count :: "kbd \<Rightarrow> nat" where
  "kbd_count k = (writepos k + 256 - readpos k) mod 256"

definition kbd_queue :: "kbd \<Rightarrow> u8 list" where
  "kbd_queue k = map (\<lambda>i. buff k ! ((readpos k + i) mod 256)) [0..<kbd_count k]"

lemma length_kbd_queue [simp]: "length (kbd_queue k) = kbd_count k"
  by (simp add: kbd_queue_def)

lemma kbd_count_eq:
  "readpos k < 256 \<Longrightarrow> writepos k < 256 \<Longrightarrow>
     kbd_count k = (if readpos k \<le> writepos k then writepos k - readpos k else writepos k + 256 - readpos k)"
  by (simp add: kbd_count_def mod_if)

lemma wrap_pos: "p < 256 \<Longrightarrow> n \<le> 256 \<Longrightarrow> (p + n) mod 256 = (if p + n < 256 then p + n else p + n - 256)" for p :: nat
  by (simp add: mod_if)

lemma kbd_insert_ok:
  assumes k: "kbd_ok k"
  shows "kbd_ok (fst (kbd_rawbuff_insert v k))"
    "kbd_queue (fst (kbd_rawbuff_insert v k)) = (if length (kbd_queue k) < 255 then kbd_queue k @ [v] else kbd_queue k)"
    "snd (kbd_rawbuff_insert v k) \<longleftrightarrow> length (kbd_queue k) < 255"
proof -
  let ?r = "readpos k" and ?w = "writepos k"
  have b: "?r < 256" "?w < 256" "length (buff k) = 256" using k by (simp_all add: kbd_ok_def)
  have full: "(?w + 1) mod 256 = ?r \<longleftrightarrow> \<not> kbd_count k < 255"
    using b(1,2) wrap_pos [of ?w 1] by (auto simp: kbd_count_eq)
  show "kbd_ok (fst (kbd_rawbuff_insert v k))"
    using b by (simp add: kbd_ok_def kbd_rawbuff_insert_def KBD_RAWINPUTBUFF_SIZE_def)
  show "snd (kbd_rawbuff_insert v k) \<longleftrightarrow> length (kbd_queue k) < 255"
    using full by (simp add: kbd_rawbuff_insert_def KBD_RAWINPUTBUFF_SIZE_def)
  show "kbd_queue (fst (kbd_rawbuff_insert v k)) = (if length (kbd_queue k) < 255 then kbd_queue k @ [v] else kbd_queue k)"
  proof (cases "kbd_count k < 255")
    case True
    let ?k = "k\<lparr>buff := (buff k)[?w := v], writepos := (?w + 1) mod 256\<rparr>"
    have c: "kbd_count ?k = Suc (kbd_count k)" "(?r + kbd_count k) mod 256 = ?w"
      using True b(1,2) wrap_pos [of ?w 1] wrap_pos [of ?r "kbd_count k"]
      by (auto simp: kbd_count_eq split: if_splits)
    have old: "?w \<noteq> (?r + i) mod 256" if "i < kbd_count k" for i
      using that True b(1,2) wrap_pos [of ?r i] by (auto simp: kbd_count_eq split: if_splits)
    have "map (\<lambda>i. buff ?k ! ((?r + i) mod 256)) [0..<kbd_count k] = kbd_queue k"
      using old by (auto simp: kbd_queue_def nth_list_update_neq)
    then have "kbd_queue ?k = kbd_queue k @ [v]"
      using c b by (simp add: kbd_queue_def)
    then show ?thesis using True full by (simp add: kbd_rawbuff_insert_def KBD_RAWINPUTBUFF_SIZE_def)
  next
    case False
    then show ?thesis using full by (simp add: kbd_rawbuff_insert_def KBD_RAWINPUTBUFF_SIZE_def)
  qed
qed

lemma kbd_get_ok:
  assumes k: "kbd_ok k" and q: "kbd_queue k = c # cs"
  shows "\<exists>k'. kbd_get_char wt k = Inr (c, k') \<and> kbd_ok k' \<and> kbd_queue k' = cs \<and>
    state_cap k' = state_cap k \<and> state_shift k' = state_shift k"
proof -
  let ?r = "readpos k" and ?w = "writepos k"
  have b: "?r < 256" "?w < 256" "length (buff k) = 256" using k by (simp_all add: kbd_ok_def)
  have n: "kbd_count k = Suc (length cs)" using q length_kbd_queue [of k] by simp
  then have ne: "?w \<noteq> ?r" by (auto simp: kbd_count_def)
  let ?k = "k\<lparr>readpos := (?r + 1) mod 256\<rparr>"
  have c: "kbd_count ?k = length cs"
  proof -
    have "kbd_count ?k = kbd_count k - 1"
      using b(1,2) ne wrap_pos [of ?r 1] by (simp add: kbd_count_eq split: if_splits)
    then show ?thesis using n by simp
  qed
  have hd: "c = buff k ! ?r"
  proof -
    have "kbd_queue k ! 0 = buff k ! ?r"
      unfolding kbd_queue_def n using b(1) by (simp del: upt_Suc)
    then show ?thesis using q by simp
  qed
  have "kbd_queue ?k = cs"
  proof (rule nth_equalityI)
    fix i assume i: "i < length (kbd_queue ?k)"
    then have il: "i < length cs" using c by simp
    have "cs ! i = kbd_queue k ! Suc i" using q by simp
    also have "\<dots> = buff k ! ((?r + Suc i) mod 256)"
      using n il by (simp add: kbd_queue_def del: upt_Suc)
    also have "(?r + Suc i) mod 256 = ((?r + 1) mod 256 + i) mod 256" by (simp add: mod_add_left_eq)
    finally show "kbd_queue ?k ! i = cs ! i" using i c by (simp add: kbd_queue_def)
  qed (simp add: c [simplified])
  then show ?thesis using ne b hd by (simp add: kbd_get_char_def KBD_RAWINPUTBUFF_SIZE_def kbd_ok_def)
qed

section \<open>The queue as an interface\<close>

text \<open>What a reader of characters relies on.\<close>

fun get_chars :: "('s \<Rightarrow> ('c \<times> 's) res) \<Rightarrow> nat \<Rightarrow> 's \<Rightarrow> ('c list \<times> 's) res" where
  "get_chars get 0 s = Inr ([], s)"
| "get_chars get (Suc n) s =
     bindE (get s) (\<lambda>(c, s). bindE (get_chars get n s) (\<lambda>(cs, s). Inr (c # cs, s)))"

locale char_queue =
  fixes ok :: "'s \<Rightarrow> bool"
    and contents :: "'s \<Rightarrow> 'c list"
    and cap :: nat
    and ins :: "'c \<Rightarrow> 's \<Rightarrow> 's"
    and get :: "'s \<Rightarrow> ('c \<times> 's) res"
  assumes ins: "ok s \<Longrightarrow> ok (ins c s) \<and>
      contents (ins c s) = (if length (contents s) < cap then contents s @ [c] else contents s)"
    and get: "ok s \<Longrightarrow> contents s = c # cs \<Longrightarrow> \<exists>s'. get s = Inr (c, s') \<and> ok s' \<and> contents s' = cs"
begin

lemma ins_all:
  "ok s \<Longrightarrow> length (contents s) + length cs \<le> cap \<Longrightarrow>
     ok (fold ins cs s) \<and> contents (fold ins cs s) = contents s @ cs"
  by (induction cs arbitrary: s) (simp_all add: ins)

lemma get_all:
  "ok s \<Longrightarrow> contents s = cs @ ds \<Longrightarrow>
     \<exists>s'. get_chars get (length cs) s = Inr (cs, s') \<and> ok s' \<and> contents s' = ds"
proof (induction cs arbitrary: s)
  case (Cons c cs)
  obtain s1 where "get s = Inr (c, s1)" "ok s1" "contents s1 = cs @ ds"
    using get [OF Cons.prems(1)] Cons.prems(2) by auto
  then show ?case using Cons.IH [of s1] by auto
qed simp

lemma fifo:
  assumes "ok s" "contents s = []" "length cs \<le> cap"
  shows "\<exists>s'. get_chars get (length cs) (fold ins cs s) = Inr (cs, s') \<and> ok s' \<and> contents s' = []"
  using ins_all [of s cs] get_all [of "fold ins cs s" cs "[]"] assms by simp

end

interpretation kbd: char_queue kbd_ok kbd_queue 255 "\<lambda>c k. fst (kbd_rawbuff_insert c k)" "kbd_get_char wt" for wt
  using kbd_insert_ok kbd_get_ok by unfold_locales blast+

section \<open>Typing\<close>

text \<open>The key of a character that needs no shift, and the key that has it with shift.\<close>

fun key_pos :: "u8 \<Rightarrow> nat \<Rightarrow> u8 list \<Rightarrow> nat option" where
  "key_pos c i [] = None"
| "key_pos c i (x # xs) = (if x = c then Some i else key_pos c (Suc i) xs)"

lemma key_pos_nth: "key_pos c i xs = Some j \<Longrightarrow> i \<le> j \<and> j < i + length xs \<and> xs ! (j - i) = c"
  by (induction xs arbitrary: i) (force simp: nth_Cons' split: if_splits)+

lemma key_pos_replicate [simp]: "key_pos c i (replicate n x) = (if 0 < n \<and> x = c then Some i else None)"
  by (induction n arbitrary: i) auto

text \<open>The scan codes of a key press and release, with shift held down where it is needed.\<close>

definition type_char :: "u8 \<Rightarrow> u8 list option" where
  "type_char c = (if c = 0 then None
     else case key_pos c 0 kbd_shiftup_map of
            Some i \<Rightarrow> Some [of_nat i, of_nat i OR 0x80]
          | None \<Rightarrow> (case key_pos c 0 kbd_shiftdown_map of
                      Some i \<Rightarrow> Some [KBD_SCANCODE_LEFTSHIFT, of_nat i, of_nat i OR 0x80, KBD_SCANCODE_LEFTSHIFT OR 0x80]
                    | None \<Rightarrow> None))"

lemma length_maps [simp]: "length kbd_shiftup_map = 128" "length kbd_shiftdown_map = 128"
  by (simp_all add: kbd_shiftup_map_def kbd_shiftdown_map_def keys_def)

text \<open>No key of the maps is a shift or caps lock key.\<close>

lemma special_keys:
  "i \<in> {0x2A, 0x36, 0x3A} \<Longrightarrow> kbd_shiftup_map ! i = 0 \<and> kbd_shiftdown_map ! i = 0"
  by (auto simp: kbd_shiftup_map_def kbd_shiftdown_map_def keys_def)

lemma top_bit:
  fixes x y :: u8
  assumes y: "\<And>n. n < 8 \<Longrightarrow> bit y n \<longleftrightarrow> n = 7"
  shows "\<not> bit x 7 \<Longrightarrow> x AND y = 0" "\<not> bit x 7 \<Longrightarrow> x AND NOT y = x"
    "(x OR y) AND y \<noteq> 0" "(x OR y) AND NOT y = x AND NOT y"
proof -
  show "\<not> bit x 7 \<Longrightarrow> x AND y = 0" by (rule bit_word_eqI) (auto simp: y bit_and_iff)
  show "\<not> bit x 7 \<Longrightarrow> x AND NOT y = x" "(x OR y) AND NOT y = x AND NOT y"
    by (rule bit_word_eqI, auto simp: y bit_and_iff bit_or_iff bit_not_iff)+
  have "bit ((x OR y) AND y) 7" by (simp add: y bit_and_iff bit_or_iff)
  then show "(x OR y) AND y \<noteq> 0" by auto
qed

lemma bit_0x80: "bit (0x80 :: u8) n \<longleftrightarrow> n = 7"
  using bit_exp_iff [of 7 n, where ?'a = u8] by auto

lemmas high_bit = top_bit [OF bit_0x80]

lemma key_bits:
  assumes "i < 128"
  shows "(of_nat i :: u8) AND 0x80 = 0" "unat ((of_nat i :: u8) AND NOT 0x80) = i"
    "(of_nat i OR 0x80 :: u8) AND 0x80 \<noteq> 0" "(of_nat i OR 0x80 :: u8) AND NOT 0x80 = of_nat i AND NOT 0x80"
proof -
  have u: "unat (of_nat i :: u8) = i" using assms by (intro unat_of_nat_small) simp
  have "\<not> bit i 7" using assms by (simp add: bit_iff_odd)
  then have b: "\<not> bit (of_nat i :: u8) 7" by (simp add: bit_of_nat_iff)
  show "(of_nat i :: u8) AND 0x80 = 0" "unat ((of_nat i :: u8) AND NOT 0x80) = i"
    using high_bit(1,2) [OF b] u by simp_all
qed (rule high_bit)+

lemma kbd_int_plain:
  assumes i: "i < 128" and c: "(if state_shift k then kbd_shiftdown_map else kbd_shiftup_map) ! i = c" "c \<noteq> 0"
    and cap: "\<not> state_cap k"
  shows "fst (kbd_int (of_nat i) k) = fst (kbd_rawbuff_insert c k)" "fst (kbd_int (of_nat i OR 0x80) k) = k"
proof -
  have u: "unat (of_nat i :: u8) = i" using i by (intro unat_of_nat_small) simp
  have key: "(of_nat i :: u8) AND NOT 0x80 = of_nat i"
    using key_bits(2) [OF i] u by (simp add: word_unat_eq_iff)
  have ns: "of_nat i \<noteq> (0x2A :: u8)" "of_nat i \<noteq> (0x36 :: u8)" "of_nat i \<noteq> (0x3A :: u8)"
    using special_keys [of i] c u by (auto split: if_splits)
  show "fst (kbd_int (of_nat i) k) = fst (kbd_rawbuff_insert c k)" "fst (kbd_int (of_nat i OR 0x80) k) = k"
    using ns c cap key key_bits [OF i] u
    by (simp_all add: kbd_int_def Let_def KBD_SCANCODE_LEFTSHIFT_def KBD_SCANCODE_RIGHTSHIFT_def
        KBD_SCANCODE_CAP_def)
qed

lemma kbd_int_shift:
  "fst (kbd_int KBD_SCANCODE_LEFTSHIFT k) = k\<lparr>state_shift := True\<rparr>"
  "fst (kbd_int (KBD_SCANCODE_LEFTSHIFT OR 0x80) k) = k\<lparr>state_shift := False\<rparr>"
  by (simp_all add: kbd_int_def Let_def KBD_SCANCODE_LEFTSHIFT_def)

definition idle_keys :: "kbd \<Rightarrow> bool" where
  "idle_keys k \<longleftrightarrow> \<not> state_shift k \<and> \<not> state_cap k"

lemma insert_keys [simp]:
  "state_shift (fst (kbd_rawbuff_insert v k)) = state_shift k" "state_cap (fst (kbd_rawbuff_insert v k)) = state_cap k"
  "fst (kbd_rawbuff_insert v (k\<lparr>state_shift := b\<rparr>)) = (fst (kbd_rawbuff_insert v k))\<lparr>state_shift := b\<rparr>"
  by (simp_all add: kbd_rawbuff_insert_def)

lemma type_char_inserts:
  assumes "type_char c = Some codes" "idle_keys k"
  shows "fold (\<lambda>sc k. fst (kbd_int sc k)) codes k = fst (kbd_rawbuff_insert c k)" "idle_keys (fst (kbd_rawbuff_insert c k))"
proof -
  have c0: "c \<noteq> 0" using assms(1) by (auto simp: type_char_def split: if_splits)
  have idle: "\<not> state_shift k" "\<not> state_cap k" using assms(2) by (simp_all add: idle_keys_def)
  show "idle_keys (fst (kbd_rawbuff_insert c k))" using idle by (simp add: idle_keys_def)
  show "fold (\<lambda>sc k. fst (kbd_int sc k)) codes k = fst (kbd_rawbuff_insert c k)"
  proof (cases "key_pos c 0 kbd_shiftup_map")
    case (Some i)
    then have i: "i < 128" "kbd_shiftup_map ! i = c" using key_pos_nth [of c 0] by fastforce+
    have codes: "codes = [of_nat i, of_nat i OR 0x80]" using assms(1) Some c0 by (simp add: type_char_def)
    let ?k = "fst (kbd_rawbuff_insert c k)"
    have "fst (kbd_int (of_nat i) k) = ?k" using kbd_int_plain(1) [of i k c] i c0 idle by simp
    moreover have "fst (kbd_int (of_nat i OR 0x80) ?k) = ?k" using kbd_int_plain(2) [of i ?k c] i c0 idle by simp
    ultimately show ?thesis by (simp add: codes)
  next
    case None
    then obtain i where si: "key_pos c 0 kbd_shiftdown_map = Some i"
      "codes = [KBD_SCANCODE_LEFTSHIFT, of_nat i, of_nat i OR 0x80, KBD_SCANCODE_LEFTSHIFT OR 0x80]"
      using assms(1) c0 by (auto simp: type_char_def split: option.splits)
    then have i: "i < 128" "kbd_shiftdown_map ! i = c" using key_pos_nth [of c 0] by fastforce+
    let ?s = "k\<lparr>state_shift := True\<rparr>"
    let ?k = "fst (kbd_rawbuff_insert c ?s)"
    have "fst (kbd_int (of_nat i) ?s) = ?k" using kbd_int_plain(1) [of i ?s c] i c0 idle by simp
    moreover have "fst (kbd_int (of_nat i OR 0x80) ?k) = ?k" using kbd_int_plain(2) [of i ?k c] i c0 idle by simp
    moreover have "k\<lparr>state_shift := False\<rparr> = k" using idle by simp
    ultimately show ?thesis by (simp add: si(2) kbd_int_shift del: insert_keys(3)) (simp add: idle)
  qed
qed

lemma type_text_inserts:
  "list_all2 (\<lambda>c codes. type_char c = Some codes) cs codess \<Longrightarrow> idle_keys k \<Longrightarrow>
     fold (\<lambda>sc k. fst (kbd_int sc k)) (concat codess) k = fold (\<lambda>c k. fst (kbd_rawbuff_insert c k)) cs k"
proof (induction cs codess arbitrary: k rule: list_all2_induct)
  case (Cons c cs codes codess)
  then show ?case using type_char_inserts [of c codes k] by simp
qed simp

section \<open>Properties\<close>

text \<open>
  C25: typing a text of at most 255 characters, with the shift key where a character needs it,
  and reading as many characters gives the text, in order and without loss, and leaves the
  buffer empty.
\<close>

theorem kbd_type_read:
  assumes "list_all2 (\<lambda>c codes. type_char c = Some codes) cs codess" "length cs \<le> 255"
    and "kbd_ok k" "kbd_queue k = []" "idle_keys k"
  shows "\<exists>k'. get_chars (kbd_get_char wt) (length cs) (fold (\<lambda>sc k. fst (kbd_int sc k)) (concat codess) k) = Inr (cs, k') \<and>
    kbd_ok k' \<and> kbd_queue k' = []"
  using kbd.fifo [OF assms(3,4,2), of wt] type_text_inserts [OF assms(1,5)] by simp

theorem kbd_type_read_witness:
  "\<exists>k'. get_chars (kbd_get_char id) 3 (fold (\<lambda>sc k. fst (kbd_int sc k))
      [0x23, 0xA3, 0x2A, 0x17, 0x97, 0xAA, 0x2A, 0x02, 0x82, 0xAA] (kbd_init (replicate 256 0))) =
      Inr (keys ''hI!'', k')"
proof -
  have "list_all2 (\<lambda>c codes. type_char c = Some codes) (keys ''hI!'')
      [[0x23, 0xA3], [0x2A, 0x17, 0x97, 0xAA], [0x2A, 0x02, 0x82, 0xAA]]"
    by (simp add: keys_def type_char_def kbd_shiftup_map_def kbd_shiftdown_map_def chr_def KBD_SCANCODE_LEFTSHIFT_def)
  then obtain k' where "get_chars (kbd_get_char id) (length (keys ''hI!''))
      (fold (\<lambda>sc k. fst (kbd_int sc k)) (concat [[0x23, 0xA3], [0x2A, 0x17, 0x97, 0xAA], [0x2A, 0x02, 0x82, 0xAA]])
        (kbd_init (replicate 256 0))) = Inr (keys ''hI!'', k')"
    using kbd_type_read [of "keys ''hI!''" "[[0x23, 0xA3], [0x2A, 0x17, 0x97, 0xAA], [0x2A, 0x02, 0x82, 0xAA]]"
        "kbd_init (replicate 256 0)" id]
    by (auto simp: keys_def kbd_ok_def kbd_init_def kbd_queue_def kbd_count_def idle_keys_def)
  moreover have "length (keys ''hI!'') = 3" by (simp add: keys_def)
  ultimately show ?thesis by auto
qed

end
