(* ===== verification/Cmdlist.thy ===== *)
theory Cmdlist
  imports Kbd
begin

text \<open>
  The command line of \<^verbatim>\<open>core/cmdlist.c\<close>: the line editor of \<^verbatim>\<open>cmd_loop\<close> with backspace and tab
  completion, and \<^verbatim>\<open>cmd_parse_impl\<close>, which splits the line and calls the command. The characters
  are those \<^verbatim>\<open>kbd_get_char\<close> returns; a call of a command is an event. A store outside the line
  buffer or the argument vector is a \<open>Fault\<close>.
\<close>

section \<open>The code\<close>

record command =
  cmd_name :: cstr
  has_func :: bool

datatype cmd_event = CmdEmpty | CmdUnknown | CmdNoFunc | CmdCall nat "u8 list list"

record cmdline =
  cmdBuff :: "u8 list"
  pos :: nat

definition cmd_start :: cmdline where
  "cmd_start = \<lparr>cmdBuff = replicate 256 0, pos = 0\<rparr>"

fun find_cmd :: "command list \<Rightarrow> cstr \<Rightarrow> nat option" where
  "find_cmd [] argv0 = None"
| "find_cmd (cmd # cmds) argv0 =
     (if strlen argv0 \<noteq> strlen (cmd_name cmd) then map_option Suc (find_cmd cmds argv0)
      else if memcmp (take (unat (strlen argv0)) argv0) (take (unat (strlen argv0)) (cmd_name cmd)) = 0 then Some 0
      else map_option Suc (find_cmd cmds argv0))"

definition cmd_parse_impl :: "command list \<Rightarrow> cstr \<Rightarrow> cmd_event res" where
  "cmd_parse_impl cmds cmd =
     (if 0 \<notin> set cmd then Inl Fault
      else let parsed = parse_str_by_inteflag [chr CHR '' '', 10] cmd;
               argv = argv_strings parsed
           in if 16 < length argv then Inl Fault
              else if argv = [] then Inr CmdEmpty
              else case find_cmd cmds (hd argv) of
                     None \<Rightarrow> Inr CmdUnknown
                   | Some i \<Rightarrow> Inr (if has_func (cmds ! i) then CmdCall i argv else CmdNoFunc))"

definition put_bytes :: "nat \<Rightarrow> u8 list \<Rightarrow> u8 list \<Rightarrow> u8 list res" where
  "put_bytes at bs buf =
     (if at + length bs \<le> length buf then Inr (take at buf @ bs @ drop (at + length bs) buf) else Inl Fault)"

fun complete :: "command list \<Rightarrow> cmdline \<Rightarrow> cmdline res" where
  "complete [] c = Inr c"
| "complete (cmd # cmds) c =
     (let name = cmd_name cmd; cmdlen = unat (strlen name)
      in if cmdlen < pos c then complete cmds c
         else if memcmp (take (pos c) (cmdBuff c)) (take (pos c) name) = 0 then
           bindE (put_bytes (pos c) (take (cmdlen - pos c) (drop (pos c) name)) (cmdBuff c)) (\<lambda>b.
           bindE (put_bytes cmdlen [chr CHR '' ''] b) (\<lambda>b.
           Inr \<lparr>cmdBuff = b, pos = cmdlen + 1\<rparr>))
         else complete cmds c)"

definition cmd_char :: "command list \<Rightarrow> u8 \<Rightarrow> cmdline \<Rightarrow> cmdline res" where
  "cmd_char cmds getch c =
     (if getch = 8 then
        (if pos c \<noteq> 0 then
           bindE (put_bytes (pos c) [0] (cmdBuff c)) (\<lambda>b. Inr \<lparr>cmdBuff = b, pos = pos c - 1\<rparr>)
         else Inr c)
      else if getch = 9 then complete cmds c
      else bindE (put_bytes (pos c) [getch] (cmdBuff c)) (\<lambda>b. Inr \<lparr>cmdBuff = b, pos = pos c + 1\<rparr>))"

text \<open>\<^verbatim>\<open>cmd_loop\<close> on the characters that arrive.\<close>

fun cmd_loop :: "command list \<Rightarrow> u8 list \<Rightarrow> cmdline \<Rightarrow> (cmd_event list \<times> cmdline) res" where
  "cmd_loop cmds [] c = Inr ([], c)"
| "cmd_loop cmds (getch # chars) c =
     bindE (cmd_char cmds getch c) (\<lambda>c.
     if getch = 10 then
       bindE (cmd_parse_impl cmds (cmdBuff c)) (\<lambda>e.
       bindE (cmd_loop cmds chars cmd_start) (\<lambda>(es, c). Inr (e # es, c)))
     else cmd_loop cmds chars c)"

section \<open>What the user sees\<close>

text \<open>The text on the line after a character, and the effect of a whole line.\<close>

definition edit :: "command list \<Rightarrow> u8 \<Rightarrow> u8 list \<Rightarrow> u8 list" where
  "edit cmds ch t =
     (if ch = 8 then butlast t
      else if ch = 9 then
        (case List.find (\<lambda>n. \<exists>r. n = t @ r) (map cmd_name cmds) of None \<Rightarrow> t | Some n \<Rightarrow> n @ [chr CHR '' ''])
      else t @ [ch])"

fun first_index :: "'a \<Rightarrow> 'a list \<Rightarrow> nat option" where
  "first_index x [] = None"
| "first_index x (y # ys) = (if x = y then Some 0 else map_option Suc (first_index x ys))"

definition run_words :: "command list \<Rightarrow> u8 list list \<Rightarrow> cmd_event" where
  "run_words cmds ws =
     (case ws of
        [] \<Rightarrow> CmdEmpty
      | w # _ \<Rightarrow> (case first_index w (map cmd_name cmds) of
                   None \<Rightarrow> CmdUnknown
                 | Some i \<Rightarrow> if has_func (cmds ! i) then CmdCall i ws else CmdNoFunc))"

definition words :: "u8 list \<Rightarrow> u8 list list" where
  "words t = tokens [chr CHR '' '', 10] t"

fun shell :: "command list \<Rightarrow> u8 list \<Rightarrow> u8 list \<Rightarrow> cmd_event list \<times> u8 list" where
  "shell cmds [] t = ([], t)"
| "shell cmds (ch # chs) t =
     (let t = edit cmds ch t
      in if ch = 10 then (let (es, u) = shell cmds chs [] in (run_words cmds (words t) # es, u))
         else shell cmds chs t)"

text \<open>No line gets longer than the buffer and its NUL, none has more than 16 words.\<close>

fun fits :: "command list \<Rightarrow> u8 list \<Rightarrow> u8 list \<Rightarrow> bool" where
  "fits cmds [] t = True"
| "fits cmds (ch # chs) t \<longleftrightarrow>
     (let t = edit cmds ch t
      in ch \<noteq> 0 \<and> length t \<le> 255 \<and>
         (if ch = 10 then length (words t) \<le> 16 \<and> fits cmds chs [] else fits cmds chs t))"

definition names_ok :: "command list \<Rightarrow> bool" where
  "names_ok cmds \<longleftrightarrow> (\<forall>c\<in>set cmds. 0 \<notin> set (cmd_name c) \<and> length (cmd_name c) < 2 ^ 16)"

section \<open>The line buffer holds the text\<close>

definition holds :: "cmdline \<Rightarrow> u8 list \<Rightarrow> bool" where
  "holds c t \<longleftrightarrow> pos c = length t \<and> length t \<le> 255 \<and> 0 \<notin> set t \<and>
     (\<exists>x. cmdBuff c = t @ x # replicate (255 - length t) 0)"

lemma holds_start: "holds cmd_start []"
proof -
  have "replicate 256 0 = (0 :: u8) # replicate 255 0" by (simp flip: replicate_Suc)
  then show ?thesis by (simp add: holds_def cmd_start_def)
qed

lemma strlen_name: "0 \<notin> set n \<Longrightarrow> length n < 2 ^ 16 \<Longrightarrow> unat (strlen n) = length n"
  by (simp add: strlen_text text_of_nul_free unat_of_nat_small)

lemma put_bytes_text:
  assumes b: "b = t @ x # replicate (255 - length t) 0" and n: "length t + length r \<le> 255" "r \<noteq> []"
  shows "put_bytes (length t) r b = Inr ((t @ r) @ 0 # replicate (255 - length (t @ r)) 0)"
proof -
  have "drop (length r - 1) (replicate (255 - length t) (0 :: u8)) = replicate (256 - (length t + length r)) 0"
    using n by (cases r) auto
  moreover have "256 - (length t + length r) = Suc (255 - length (t @ r))" using n by simp
  ultimately show ?thesis using n by (cases r) (simp_all add: b put_bytes_def)
qed

lemma complete_holds:
  assumes "names_ok cmds" "holds c t" "length (edit cmds 9 t) \<le> 255"
  shows "\<exists>c'. complete cmds c = Inr c' \<and> holds c' (edit cmds 9 t)"
  using assms(1,3)
proof (induction cmds)
  case Nil
  then show ?case using assms(2) by (simp add: edit_def)
next
  case (Cons cmd cmds)
  let ?n = "cmd_name cmd"
  have n: "0 \<notin> set ?n" "length ?n < 2 ^ 16" using Cons.prems(1) by (simp_all add: names_ok_def)
  obtain x where b: "pos c = length t" "length t \<le> 255" "0 \<notin> set t" "cmdBuff c = t @ x # replicate (255 - length t) 0"
    using assms(2) by (auto simp: holds_def)
  have len: "unat (strlen ?n) = length ?n" using n by (rule strlen_name)
  have pre: "take (pos c) (cmdBuff c) = t" by (simp add: b)
  show ?case
  proof (cases "\<exists>r. ?n = t @ r")
    case True
    then obtain r where r: "?n = t @ r" by blast
    then have e: "edit (cmd # cmds) 9 t = t @ r @ [chr CHR '' '']" by (simp add: edit_def)
    have l: "length t + length (r @ [chr CHR '' '']) \<le> 255" using Cons.prems(2) by (simp add: e)
    have sp: "chr CHR '' '' \<noteq> 0" by (simp add: chr_def)
    have mc: "memcmp t t = 0" by (simp add: memcmp_zero_iff)
    show ?thesis
    proof (cases "r = []")
      case True
      have "put_bytes (length t) [] (cmdBuff c) = Inr (cmdBuff c)" using b(2,4) by (simp add: put_bytes_def)
      moreover have "put_bytes (length t) [chr CHR '' ''] (cmdBuff c) =
          Inr ((t @ [chr CHR '' '']) @ 0 # replicate (255 - length (t @ [chr CHR '' ''])) 0)"
        using l by (intro put_bytes_text [OF b(4)]) (simp_all add: True)
      ultimately show ?thesis
        using True r e len b(1,3) pre l mc sp by (auto simp: Let_def holds_def)
    next
      case False
      let ?b = "(t @ r) @ 0 # replicate (255 - length (t @ r)) 0"
      have "put_bytes (length t) r (cmdBuff c) = Inr ?b"
        using l False by (intro put_bytes_text [OF b(4)]) simp_all
      moreover have "put_bytes (length (t @ r)) [chr CHR '' ''] ?b =
          Inr (((t @ r) @ [chr CHR '' '']) @ 0 # replicate (255 - length ((t @ r) @ [chr CHR '' ''])) 0)"
        using l by (intro put_bytes_text [OF refl]) simp_all
      ultimately show ?thesis
        using r e len b(1,3) pre l mc sp n(1) by (auto simp: Let_def holds_def)
    qed
  next
    case False
    then have e: "edit (cmd # cmds) 9 t = edit cmds 9 t" by (simp add: edit_def)
    have no: "\<not> (pos c \<le> length ?n \<and> memcmp t (take (pos c) ?n) = 0)"
    proof
      assume a: "pos c \<le> length ?n \<and> memcmp t (take (pos c) ?n) = 0"
      then have "t = take (pos c) ?n" using memcmp_zero_iff [of t "take (pos c) ?n"] by (simp add: b(1))
      then show False using False append_take_drop_id [of "pos c" ?n] by metis
    qed
    have "names_ok cmds" using Cons.prems(1) by (simp add: names_ok_def)
    then show ?thesis using Cons.IH Cons.prems(2) no pre e len by (auto simp: Let_def)
  qed
qed

lemma cmd_char_holds:
  assumes "names_ok cmds" "holds c t" "length (edit cmds ch t) \<le> 255" "ch \<noteq> 0"
  shows "\<exists>c'. cmd_char cmds ch c = Inr c' \<and> holds c' (edit cmds ch t) \<and>
    (ch \<noteq> 8 \<and> ch \<noteq> 9 \<longrightarrow> cmdBuff c' = (t @ [ch]) @ 0 # replicate (255 - length (t @ [ch])) 0)"
proof -
  obtain x where b: "pos c = length t" "length t \<le> 255" "0 \<notin> set t" "cmdBuff c = t @ x # replicate (255 - length t) 0"
    using assms(2) by (auto simp: holds_def)
  consider "ch = 8" | "ch = 9" | "ch \<noteq> 8" "ch \<noteq> 9" by blast
  then show ?thesis
  proof cases
    case 1
    show ?thesis
    proof (cases t rule: rev_cases)
      case Nil
      then show ?thesis using 1 assms(2) b(1) by (simp add: cmd_char_def edit_def)
    next
      case (snoc u y)
      have "put_bytes (length t) [0] (cmdBuff c) = Inr (t @ 0 # replicate (255 - length t) 0)"
        using b(2) by (simp add: put_bytes_def b(4))
      moreover have "0 # replicate (255 - length t) 0 = replicate (255 - length u) (0 :: u8)"
        using b(2) snoc by (simp flip: replicate_Suc add: Suc_diff_le)
      ultimately show ?thesis using 1 b snoc by (auto simp: cmd_char_def edit_def holds_def)
    qed
  next
    case 2
    then show ?thesis using complete_holds [OF assms(1,2)] assms(3) by (simp add: cmd_char_def)
  next
    case 3
    then have e: "edit cmds ch t = t @ [ch]" by (simp add: edit_def)
    have "put_bytes (length t) [ch] (cmdBuff c) = Inr ((t @ [ch]) @ 0 # replicate (255 - length (t @ [ch])) 0)"
      using assms(3) by (intro put_bytes_text [OF b(4)]) (simp_all add: e)
    then show ?thesis using 3 b assms(3,4) by (auto simp: cmd_char_def e holds_def)
  qed
qed

lemma parse_loop_nul:
  "0 \<notin> set s \<Longrightarrow> parse_loop seps p flag (s @ 0 # r) = (fst (parse_loop seps p flag s) @ 0 # r, snd (parse_loop seps p flag s))"
  by (induction s arbitrary: p flag) (auto simp: Let_def split_def)

lemma parse_loop_bound: "q \<in> set (snd (parse_loop seps p flag s)) \<Longrightarrow> q < p + length s"
  by (induction s arbitrary: p flag) (force simp: Let_def split_def split: if_splits)+

lemma text_of_append_nul: "text_of (s @ 0 # r) = text_of s"
  by (induction s) auto

lemma argv_nul:
  assumes "0 \<notin> set s"
  shows "argv_strings (parse_str_by_inteflag seps (s @ 0 # r)) = tokens seps s"
proof -
  have l: "length (fst (parse_loop seps 0 False s)) = length s"
    using parse_length [of seps s] by (simp add: parse_str_by_inteflag_def)
  have "text_of (drop q (fst (parse_loop seps 0 False s) @ 0 # r)) = text_of (drop q (fst (parse_loop seps 0 False s)))"
    if "q \<in> set (snd (parse_loop seps 0 False s))" for q
    using parse_loop_bound [OF that] l by (simp add: text_of_append_nul)
  then have "argv_strings (parse_str_by_inteflag seps (s @ 0 # r)) = argv_strings (parse_str_by_inteflag seps s)"
    using parse_loop_nul [OF assms, of seps 0 False r] by (simp add: argv_strings_def parse_str_by_inteflag_def)
  then show ?thesis using parse_tokens [OF assms] by simp
qed

lemma tokens_set: "w \<in> set (tokens seps s) \<Longrightarrow> set w \<subseteq> set s \<and> length w \<le> length s \<and> w \<noteq> []"
proof (induction seps s rule: tokens.induct)
  case (3 c seps s)
  have "set (takeWhile (\<lambda>c. \<not> isinteflag c seps) s) \<subseteq> set s" by (auto dest: set_takeWhileD)
  moreover have "set (dropWhile (\<lambda>c. \<not> isinteflag c seps) s) \<subseteq> set s" by (auto dest: set_dropWhileD)
  ultimately show ?case
    using 3 length_takeWhile_le [of "\<lambda>c. \<not> isinteflag c seps" s] length_dropWhile_le [of "\<lambda>c. \<not> isinteflag c seps" s]
    by fastforce
qed auto

lemma find_cmd_index:
  assumes "names_ok cmds" "0 \<notin> set w" "length w < 2 ^ 16"
  shows "find_cmd cmds w = first_index w (map cmd_name cmds)"
  using assms(1)
proof (induction cmds)
  case (Cons cmd cmds)
  have n: "0 \<notin> set (cmd_name cmd)" "length (cmd_name cmd) < 2 ^ 16" "names_ok cmds"
    using Cons.prems by (simp_all add: names_ok_def)
  have "strlen w = strlen (cmd_name cmd) \<longleftrightarrow> length w = length (cmd_name cmd)"
    using strlen_name [OF assms(2,3)] strlen_name [OF n(1,2)] by (metis word_unat_eq_iff)
  then show ?case
    using Cons.IH [OF n(3)] strlen_name [OF assms(2,3)] memcmp_zero_iff [of w "cmd_name cmd"] by auto
qed simp

lemma cmd_parse_words:
  assumes "names_ok cmds" "0 \<notin> set t" "length t \<le> 255" "length (words t) \<le> 16"
  shows "cmd_parse_impl cmds (t @ 0 # r) = Inr (run_words cmds (words t))"
proof -
  have argv: "argv_strings (parse_str_by_inteflag [chr CHR '' '', 10] (t @ 0 # r)) = words t"
    using argv_nul [OF assms(2)] by (simp add: words_def)
  show ?thesis
  proof (cases "words t")
    case Nil
    then show ?thesis using argv by (simp add: cmd_parse_impl_def run_words_def)
  next
    case (Cons w ws)
    have "w \<in> set (tokens [chr CHR '' '', 10] t)" using Cons by (simp add: words_def)
    then have "set w \<subseteq> set t" "length w \<le> length t" using tokens_set by blast+
    then have "find_cmd cmds w = first_index w (map cmd_name cmds)"
      using assms by (intro find_cmd_index) auto
    then show ?thesis using argv Cons assms(4) by (simp add: cmd_parse_impl_def run_words_def split: option.splits)
  qed
qed

lemma cmd_loop_shell:
  "names_ok cmds \<Longrightarrow> holds c t \<Longrightarrow> fits cmds chs t \<Longrightarrow>
     \<exists>c'. cmd_loop cmds chs c = Inr (fst (shell cmds chs t), c') \<and> holds c' (snd (shell cmds chs t))"
proof (induction chs arbitrary: c t)
  case (Cons ch chs)
  let ?t = "edit cmds ch t"
  have f: "ch \<noteq> 0" "length ?t \<le> 255" using Cons.prems(3) by (simp_all add: Let_def)
  obtain c1 where c1: "cmd_char cmds ch c = Inr c1" "holds c1 ?t"
      "ch \<noteq> 8 \<and> ch \<noteq> 9 \<longrightarrow> cmdBuff c1 = (t @ [ch]) @ 0 # replicate (255 - length (t @ [ch])) 0"
    using cmd_char_holds [OF Cons.prems(1,2) f(2,1)] by blast
  show ?case
  proof (cases "ch = 10")
    case True
    have e: "?t = t @ [ch]" using True by (simp add: edit_def)
    have "0 \<notin> set ?t" using c1(2) by (simp add: holds_def)
    moreover have "length (words ?t) \<le> 16" "fits cmds chs []" using Cons.prems(3) True by (simp_all add: Let_def)
    ultimately have "cmd_parse_impl cmds (cmdBuff c1) = Inr (run_words cmds (words ?t))"
      using cmd_parse_words [OF Cons.prems(1) _ f(2)] c1(3) e True by auto
    then show ?thesis
      using Cons.IH [OF Cons.prems(1) holds_start] \<open>fits cmds chs []\<close> c1(1) True by (auto simp: Let_def split_def)
  next
    case False
    then show ?thesis using Cons.IH [OF Cons.prems(1) c1(2)] Cons.prems(3) c1(1) by (simp add: Let_def)
  qed
qed simp

section \<open>Properties\<close>

text \<open>
  C26: as long as no line outgrows the buffer and none has more than 16 words, the command loop
  behaves like the plain editor: backspace takes back a character, tab completes to the first
  command with the text as a prefix, and each line calls the first command that has its first
  word as its name, with the words of the line.
\<close>

theorem cmd_loop_refines:
  assumes "names_ok cmds" "fits cmds chs []"
  shows "\<exists>c. cmd_loop cmds chs cmd_start = Inr (fst (shell cmds chs []), c) \<and> holds c (snd (shell cmds chs []))"
  using cmd_loop_shell [OF assms(1) holds_start assms(2)] .

theorem cmd_loop_refines_witness:
  "\<exists>c. cmd_loop [\<lparr>cmd_name = keys ''help'', has_func = True\<rparr>, \<lparr>cmd_name = keys ''ps'', has_func = True\<rparr>]
      (keys ''px'' @ [8, 9] @ keys ''-a'' @ [10]) cmd_start = Inr ([CmdCall 1 [keys ''ps'', keys ''-a'']], c)"
proof -
  let ?cmds = "[\<lparr>cmd_name = keys ''help'', has_func = True\<rparr>, \<lparr>cmd_name = keys ''ps'', has_func = True\<rparr>]"
  let ?chs = "keys ''px'' @ [8, 9] @ keys ''-a'' @ [10]"
  have "names_ok ?cmds" by (simp add: names_ok_def keys_def chr_def)
  moreover have "fits ?cmds ?chs []" by (simp add: keys_def chr_def edit_def words_def isinteflag_def)
  moreover have "fst (shell ?cmds ?chs []) = [CmdCall 1 [keys ''ps'', keys ''-a'']]"
    by (simp add: keys_def chr_def edit_def words_def isinteflag_def run_words_def)
  ultimately show ?thesis using cmd_loop_refines [of ?cmds ?chs] by auto
qed

text \<open>
  The loop has no bound check: 256 characters without a newline fill the buffer and the next one
  is stored behind it.
\<close>

lemma cmd_char_overflow:
  "length (cmdBuff c) = 256 \<Longrightarrow> pos c = 256 \<Longrightarrow> ch \<noteq> 8 \<Longrightarrow> ch \<noteq> 9 \<Longrightarrow> cmd_char cmds ch c = Inl Fault"
  by (simp add: cmd_char_def put_bytes_def)

end
