(* ===== verification/Sched.thy ===== *)
theory Sched
  imports ListHead
begin

text \<open>
  The scheduler of \<^verbatim>\<open>core/task.c\<close>: the queues of tasks, dynamic priorities and time slices, the
  clock tick, waiting and waking. A task is a number; its list nodes \<^verbatim>\<open>q\<close> and \<^verbatim>\<open>wait.q\<close> and the heads
  of the queues are the nodes of one link store. A context switch is the change of \<open>current\<close>. The
  walks of the queues have fuel.
\<close>

section \<open>The code\<close>

datatype qnode = Q nat | Wt nat | Running | Backup | Waiting | Stopped | Exited | WQ nat

datatype task_state = STATE_RUNNING | STATE_WAIT | STATE_STOP | STATE_EXIT

datatype wakeup_reason = WU_REASON_TIMEOUT | WU_REASON_WAKEUP

record task =
  t_state :: task_state
  t_pid :: nat
  t_needsched :: bool
  t_pri :: int
  t_pri_init :: int
  t_slice :: u32
  t_slice_init :: u32
  t_total_tick :: u32
  t_wq :: "nat option"
  t_wu_r :: wakeup_reason
  t_timeout :: u32

record kernel =
  tasks :: "nat \<Rightarrow> task"
  links :: "qnode lstore"
  current :: nat
  freepid :: nat

definition HZ :: u32 where "HZ = 100"
definition TIMEOUT_INFINIT :: u32 where "TIMEOUT_INFINIT = 0xFFFFFFFF"

definition upd_task :: "nat \<Rightarrow> (task \<Rightarrow> task) \<Rightarrow> kernel \<Rightarrow> kernel" where
  "upd_task t f s = s\<lparr>tasks := (tasks s)(t := f (tasks s t))\<rparr>"

definition task_pri_comp :: "(nat \<Rightarrow> task) \<Rightarrow> qnode \<Rightarrow> qnode \<Rightarrow> int" where
  "task_pri_comp ts a b =
     (case (a, b) of
        (Q x, Q y) \<Rightarrow> (if t_pri (ts x) < t_pri (ts y) then - 1 else if t_pri (ts x) = t_pri (ts y) then 0 else 1)
      | _ \<Rightarrow> 0)"

definition task_schedinfo_modify :: "nat \<Rightarrow> kernel \<Rightarrow> kernel res" where
  "task_schedinfo_modify t s =
     (let r = tasks s t
      in if t_slice_init r = 0 then Inl Fault
         else let nice = (t_slice_init r - t_slice r) * 10 div t_slice_init r;
                  sl = 20 + 5 * nice
              in Inr (upd_task t (\<lambda>r. r\<lparr>t_pri := sint (word_of_int (t_pri_init r) + nice - 5 :: u32),
                                       t_slice := sl, t_slice_init := sl\<rparr>) s))"

fun modify_all :: "qnode list \<Rightarrow> kernel \<Rightarrow> kernel res" where
  "modify_all [] s = Inr s"
| "modify_all (Q t # ps) s = bindE (task_schedinfo_modify t s) (modify_all ps)"
| "modify_all (_ # ps) s = Inl Fault"

text \<open>Swapping an empty running queue with the backup queue, pointer by pointer.\<close>

definition swap_queues :: "qnode lstore \<Rightarrow> qnode lstore res" where
  "swap_queues h =
     bindE (write_next (Some Running) (lnext (h Backup)) h) (\<lambda>h.
     bindE (write_prev (lnext (h Backup)) (Some Running) h) (\<lambda>h.
     bindE (write_prev (Some Running) (lprev (h Backup)) h) (\<lambda>h.
     bindE (write_next (lprev (h Backup)) (Some Running) h) (\<lambda>h.
     Inr (list_init Backup h)))))"

definition getnexttask :: "nat \<Rightarrow> kernel \<Rightarrow> (nat \<times> kernel) res" where
  "getnexttask fuel s =
     bindE (if check_list_empty Running (links s) then
              bindE (swap_queues (links s)) (\<lambda>h.
              bindE (list_walk fuel h Waiting (lnext (h Waiting))) (\<lambda>ps.
              modify_all ps (s\<lparr>links := h\<rparr>)))
            else Inr s) (\<lambda>s.
     (case lnext (links s Running) of
        Some (Q t) \<Rightarrow> Inr (t, s)
      | _ \<Rightarrow> Inl Fault))"

definition schedule :: "nat \<Rightarrow> kernel \<Rightarrow> kernel res" where
  "schedule fuel s = bindE (getnexttask fuel s) (\<lambda>(n, s). Inr (s\<lparr>current := n\<rparr>))"

definition tail_sched :: "nat \<Rightarrow> kernel \<Rightarrow> kernel res" where
  "tail_sched fuel s =
     (if t_needsched (tasks s (current s))
      then schedule fuel (upd_task (current s) (\<lambda>r. r\<lparr>t_needsched := False\<rparr>) s)
      else Inr s)"

definition exit_task :: "nat \<Rightarrow> kernel \<Rightarrow> kernel res" where
  "exit_task fuel s =
     bindE (list_remove (Q (current s)) (links s)) (\<lambda>h.
     bindE (list_add_head (Q (current s)) Exited h) (\<lambda>h.
     schedule fuel (s\<lparr>links := h\<rparr>)))"

text \<open>The task structure is fresh from the cache and so all zero when it is queued.\<close>

definition zero_task :: task where
  "zero_task = \<lparr>t_state = STATE_RUNNING, t_pid = 0, t_needsched = False, t_pri = 0, t_pri_init = 0, t_slice = 0,
     t_slice_init = 0, t_total_tick = 0, t_wq = None, t_wu_r = WU_REASON_TIMEOUT, t_timeout = 0\<rparr>"

definition kernel_thread :: "nat \<Rightarrow> nat \<Rightarrow> kernel \<Rightarrow> kernel res" where
  "kernel_thread fuel t s =
     (let s = upd_task t (\<lambda>_. zero_task\<lparr>t_state := STATE_WAIT, t_pid := freepid s\<rparr>) s;
          s = s\<lparr>freepid := freepid s + 1\<rparr>
      in bindE (list_add_comp fuel (task_pri_comp (tasks s)) (Q t) Running (links s)) (\<lambda>h.
         let c = tasks s (current s)
         in Inr (upd_task t (\<lambda>r. r\<lparr>t_pri := t_pri c, t_pri_init := t_pri_init c, t_slice := t_slice c,
                                 t_slice_init := t_slice_init c\<rparr>) (s\<lparr>links := h\<rparr>))))"

definition sched_init :: "nat \<Rightarrow> nat \<Rightarrow> kernel \<Rightarrow> kernel res" where
  "sched_init fuel t s =
     (let s = upd_task t (\<lambda>_. zero_task\<lparr>t_pid := freepid s, t_pri_init := 100, t_slice := 1, t_slice_init := 1\<rparr>) s;
          s = s\<lparr>freepid := freepid s + 1, current := t\<rparr>
      in bindE (task_schedinfo_modify t s) (\<lambda>s.
         bindE (list_add_comp fuel (task_pri_comp (tasks s)) (Q t) Running (links s)) (\<lambda>h.
         Inr (s\<lparr>links := h\<rparr>))))"

definition wakeup_task :: "nat \<Rightarrow> nat \<Rightarrow> wakeup_reason \<Rightarrow> kernel \<Rightarrow> kernel res" where
  "wakeup_task fuel t r s =
     bindE (list_remove (Q t) (links s)) (\<lambda>h.
     bindE (list_add_comp fuel (task_pri_comp (tasks s)) (Q t) Running h) (\<lambda>h.
     bindE (list_remove (Wt t) h) (\<lambda>h.
     Inr (upd_task (current s) (\<lambda>c. c\<lparr>t_needsched := True\<rparr>)
           (upd_task t (\<lambda>x. x\<lparr>t_state := STATE_RUNNING, t_wu_r := r\<rparr>) (s\<lparr>links := h\<rparr>))))))"

text \<open>\<^verbatim>\<open>wait_task\<close> up to its call of \<^verbatim>\<open>schedule\<close>, and as a whole.\<close>

definition wait_enqueue :: "nat \<Rightarrow> nat \<Rightarrow> u32 \<Rightarrow> kernel \<Rightarrow> kernel res" where
  "wait_enqueue t q tmo s =
     bindE (assertE (t_pid (tasks s t) \<noteq> 0)) (\<lambda>_.
     bindE (list_remove (Q t) (links s)) (\<lambda>h.
     bindE (list_add_tail (Q t) Waiting h) (\<lambda>h.
     bindE (list_add_tail (Wt t) (WQ q) h) (\<lambda>h.
     Inr (upd_task t (\<lambda>x. x\<lparr>t_state := STATE_WAIT,
                          t_timeout := (if tmo = TIMEOUT_INFINIT then tmo else tmo * HZ div 1000),
                          t_wq := Some q\<rparr>) (s\<lparr>links := h\<rparr>))))))"

definition wait_task :: "nat \<Rightarrow> nat \<Rightarrow> nat \<Rightarrow> u32 \<Rightarrow> kernel \<Rightarrow> kernel res" where
  "wait_task fuel t q tmo s = bindE (wait_enqueue t q tmo s) (schedule fuel)"

text \<open>The walk of \<^verbatim>\<open>systick\<close> over the waiting tasks reads each link after the body.\<close>

definition tick_one :: "nat \<Rightarrow> nat \<Rightarrow> kernel \<Rightarrow> kernel res" where
  "tick_one fuel t s =
     (if t_timeout (tasks s t) = TIMEOUT_INFINIT then Inr s
      else bindE (if t_timeout (tasks s t) = 0 then wakeup_task fuel t WU_REASON_TIMEOUT s else Inr s) (\<lambda>s.
           Inr (upd_task t (\<lambda>x. x\<lparr>t_timeout := t_timeout x - 1\<rparr>) s)))"

fun tick_walk :: "nat \<Rightarrow> nat \<Rightarrow> qnode option \<Rightarrow> kernel \<Rightarrow> kernel res" where
  "tick_walk fuel 0 p s = Inl Stuck"
| "tick_walk fuel (Suc n) p s =
     (case p of
        Some Waiting \<Rightarrow> Inr s
      | Some (Q t) \<Rightarrow> bindE (tick_one fuel t s) (\<lambda>s. tick_walk fuel n (lnext (links s (Q t))) s)
      | _ \<Rightarrow> Inl Fault)"

definition tick_current :: "nat \<Rightarrow> kernel \<Rightarrow> kernel res" where
  "tick_current fuel s =
     (let c = current s
      in if t_slice (tasks s c) = 0 then
           bindE (task_schedinfo_modify c s) (\<lambda>s.
           bindE (list_remove (Q c) (links s)) (\<lambda>h.
           bindE (list_add_comp fuel (task_pri_comp (tasks s)) (Q c) Backup h) (\<lambda>h.
           Inr (upd_task c (\<lambda>r. r\<lparr>t_needsched := True\<rparr>) (s\<lparr>links := h\<rparr>)))))
         else Inr (upd_task c (\<lambda>r. r\<lparr>t_slice := t_slice r - 1, t_total_tick := t_total_tick r + 1\<rparr>) s))"

definition systick :: "nat \<Rightarrow> kernel \<Rightarrow> kernel res" where
  "systick fuel s =
     bindE (tick_current fuel s) (\<lambda>s. tick_walk fuel fuel (lnext (links s Waiting)) s)"

text \<open>One round of \<^verbatim>\<open>idleloop\<close>: the exited tasks are unlinked and freed.\<close>

fun reap_loop :: "nat \<Rightarrow> qnode option \<Rightarrow> qnode option \<Rightarrow> qnode lstore \<Rightarrow> (nat list \<times> qnode lstore) res" where
  "reap_loop 0 p n h = Inl Stuck"
| "reap_loop (Suc fuel) p n h =
     (case p of
        Some Exited \<Rightarrow> Inr ([], h)
      | Some (Q t) \<Rightarrow>
          bindE (list_remove (Q t) h) (\<lambda>h.
          (case n of
             None \<Rightarrow> Inl Fault
           | Some x \<Rightarrow> bindE (reap_loop fuel n (lnext (h x)) h) (\<lambda>(ts, h). Inr (t # ts, h))))
      | _ \<Rightarrow> Inl Fault)"

definition idle_round :: "nat \<Rightarrow> kernel \<Rightarrow> (nat list \<times> kernel) res" where
  "idle_round fuel s =
     (case lnext (links s Exited) of
        None \<Rightarrow> Inl Fault
      | Some p \<Rightarrow>
          bindE (reap_loop fuel (Some p) (lnext (links s p)) (links s)) (\<lambda>(ts, h).
          Inr (ts, upd_task (current s) (\<lambda>r. r\<lparr>t_slice := 0\<rparr>) (s\<lparr>links := h\<rparr>))))"

definition waitqueue_init :: "nat \<Rightarrow> kernel \<Rightarrow> kernel" where
  "waitqueue_init q s = s\<lparr>links := list_init (WQ q) (links s)\<rparr>"

section \<open>The invariant\<close>

definition qheads :: "nat set \<Rightarrow> qnode set" where
  "qheads W = {Running, Backup, Waiting, Stopped, Exited} \<union> WQ ` W"

definition queued :: "nat set \<Rightarrow> (qnode \<Rightarrow> qnode list) \<Rightarrow> nat \<Rightarrow> bool" where
  "queued W L t \<longleftrightarrow> Q t \<in> set (L Running) \<union> set (L Backup) \<union> set (L Waiting) \<union> set (L Exited)"

definition ready :: "(qnode \<Rightarrow> qnode list) \<Rightarrow> nat \<Rightarrow> bool" where
  "ready L t \<longleftrightarrow> Q t \<in> set (L Running) \<union> set (L Backup)"

definition slice_ok :: "task \<Rightarrow> bool" where
  "slice_ok r \<longleftrightarrow> t_slice r \<le> t_slice_init r \<and> 1 \<le> t_slice_init r \<and> t_slice_init r \<le> 70"

definition queues_ok :: "nat set \<Rightarrow> (qnode \<Rightarrow> qnode list) \<Rightarrow> qnode lstore \<Rightarrow> bool" where
  "queues_ok W L h \<longleftrightarrow> rings UNIV (qheads W) L h \<and>
     set (L Running) \<subseteq> range Q \<and> set (L Backup) \<subseteq> range Q \<and> set (L Waiting) \<subseteq> range Q \<and> set (L Exited) \<subseteq> range Q \<and>
     L Stopped = [] \<and> (\<forall>i\<in>W. set (L (WQ i)) \<subseteq> range Wt) \<and>
     (\<forall>t. Q t \<in> set (L Waiting) \<longleftrightarrow> (\<exists>i\<in>W. Wt t \<in> set (L (WQ i))))"

definition tasks_ok :: "nat set \<Rightarrow> (qnode \<Rightarrow> qnode list) \<Rightarrow> kernel \<Rightarrow> bool" where
  "tasks_ok W L s \<longleftrightarrow> ready L 0 \<and> 0 < freepid s \<and>
     (\<forall>t. queued W L t \<longrightarrow> slice_ok (tasks s t) \<and> (t_pid (tasks s t) = 0 \<longleftrightarrow> t = 0)) \<and>
     (\<forall>t. Q t \<in> set (L Waiting) \<longrightarrow> t_timeout (tasks s t) = TIMEOUT_INFINIT)"

definition sched_inv :: "nat set \<Rightarrow> (qnode \<Rightarrow> qnode list) \<Rightarrow> kernel \<Rightarrow> bool" where
  "sched_inv W L s \<longleftrightarrow> queues_ok W L (links s) \<and> tasks_ok W L s \<and> ready L (current s)"

definition ntasks :: "(qnode \<Rightarrow> qnode list) \<Rightarrow> nat" where
  "ntasks L = length (L Running) + length (L Backup) + length (L Waiting) + length (L Exited)"

lemma qheads_simps [simp]: "Running \<in> qheads W" "Backup \<in> qheads W" "Waiting \<in> qheads W" "Stopped \<in> qheads W"
  "Exited \<in> qheads W" "WQ i \<in> qheads W \<longleftrightarrow> i \<in> W" "Q t \<notin> qheads W" "Wt t \<notin> qheads W"
  by (auto simp: qheads_def)

lemma queues_okD:
  assumes "queues_ok W L h"
  shows "rings UNIV (qheads W) L h" "L Stopped = []"
    "x \<in> set (L Running) \<union> set (L Backup) \<union> set (L Waiting) \<union> set (L Exited) \<Longrightarrow> \<exists>t. x = Q t"
    "i \<in> W \<Longrightarrow> x \<in> set (L (WQ i)) \<Longrightarrow> \<exists>t. x = Wt t"
    "Q t \<in> set (L Waiting) \<longleftrightarrow> (\<exists>i\<in>W. Wt t \<in> set (L (WQ i)))"
  using assms unfolding queues_ok_def by blast+

lemma member_Q:
  assumes "queues_ok W L h"
  shows "Q t \<in> members (qheads W) L \<longleftrightarrow> queued W L t"
    "Wt t \<in> members (qheads W) L \<longleftrightarrow> Q t \<in> set (L Waiting)"
  using queues_okD [OF assms] by (auto simp: members_def qheads_def queued_def)

lemma queues_apart:
  assumes "queues_ok W L h" "a \<in> qheads W" "b \<in> qheads W" "a \<noteq> b" "x \<in> set (L a)"
  shows "x \<notin> set (L b)"
  using lh.lists_apart [OF queues_okD(1) [OF assms(1)] assms(2-4)] assms(5) by blast

section \<open>Swapping the queues\<close>

lemma linked_cong_inner:
  assumes "linked h xs" "\<And>x. x \<in> set (butlast xs) \<Longrightarrow> lnext (h' x) = lnext (h x)"
    "\<And>x. x \<in> set (tl xs) \<Longrightarrow> lprev (h' x) = lprev (h x)"
  shows "linked h' xs"
  using assms by (induction h xs rule: linked.induct) auto

lemma swap_queues_ok:
  assumes r: "rings U H L h" and H: "Running \<in> H" "Backup \<in> H" and e: "L Running = []" and ne: "L Backup \<noteq> []"
  shows "\<exists>h'. swap_queues h = Inr h' \<and> rings U H (L(Running := L Backup, Backup := [])) h'"
proof -
  define xs where "xs = L Backup"
  define a where "a = hd xs"
  define b where "b = last xs"
  have ring: "ring h Backup xs" using r H(2) by (simp add: rings_def xs_def)
  have xs: "xs \<noteq> []" using ne by (simp add: xs_def)
  have mem: "a \<in> set xs" "b \<in> set xs" using xs by (simp_all add: a_def b_def)
  have nH: "x \<notin> H" if "x \<in> set xs" for x
    using r H(2) that by (auto simp: rings_def xs_def)
  have ne': "a \<noteq> Running" "b \<noteq> Running" "a \<noteq> Backup" "b \<noteq> Backup" using nH mem H by auto
  have dist: "distinct xs" using ring by (simp add: ring_def)
  have l1: "linked h ([Backup] @ (xs @ [Backup]))" using ring by (simp add: ring_def)
  then have n: "lnext (h Backup) = Some a" "lprev (h a) = Some Backup" "linked h (xs @ [Backup])"
    using xs linked_app [of "[Backup]" "xs @ [Backup]" h] by (simp_all add: a_def)
  then have p: "lnext (h b) = Some Backup" "lprev (h Backup) = Some b" "linked h xs"
    using xs linked_app [of xs "[Backup]" h] by (simp_all add: b_def)
  define h' where "h' = (\<lambda>x. if x = Backup then \<lparr>lprev = Some Backup, lnext = Some Backup\<rparr>
      else if x = Running then \<lparr>lprev = Some b, lnext = Some a\<rparr>
      else \<lparr>lprev = (if x = a then Some Running else lprev (h x)), lnext = (if x = b then Some Running else lnext (h x))\<rparr>)"
  have "swap_queues h = Inr h'"
    using n(1) p(2) ne' by (auto simp: swap_queues_def list_init_def h'_def fun_eq_iff)
  moreover have "rings U H (L(Running := xs, Backup := [])) h'"
    unfolding rings_def
  proof (intro conjI ballI impI)
    fix c assume c: "c \<in> H"
    show "ring h' c ((L(Running := xs, Backup := [])) c)"
    proof (cases "c = Running \<or> c = Backup")
      case True
      have "linked h' xs"
      proof (rule linked_cong_inner [OF p(3)])
        have bl: "x \<noteq> b" if "x \<in> set (butlast xs)" for x
          using that last_notin_butlast [OF dist] xs by (auto simp: b_def)
        show "lnext (h' x) = lnext (h x)" if "x \<in> set (butlast xs)" for x
          using bl [OF that] in_set_butlastD [OF that] nH H by (auto simp: h'_def)
        have "x \<noteq> a" if "x \<in> set (tl xs)" for x
          using that dist xs by (cases xs) (auto simp: a_def)
        then show "lprev (h' x) = lprev (h x)" if "x \<in> set (tl xs)" for x
          using that list.set_sel(2) [OF xs, of x] nH H by (auto simp: h'_def)
      qed
      then have "linked h' ([Running] @ (xs @ [Running]))"
        using xs linked_app [of "[Running]" "xs @ [Running]" h'] linked_app [of xs "[Running]" h'] ne'
        by (simp add: h'_def flip: a_def b_def)
      then show ?thesis using True dist nH H by (auto simp: ring_def h'_def)
    next
      case False
      have "ring h' c (L c) = ring h c (L c)"
      proof (rule ring_cong)
        fix y assume y: "y \<in> set (c # L c)"
        have "y \<notin> set xs"
          using y c False rings_disjoint [OF r c, of y Backup] nH H(2) by (auto simp: xs_def)
        then have "y \<noteq> a" "y \<noteq> b" using mem by auto
        moreover have "y \<noteq> Running" "y \<noteq> Backup" using y c False r H by (auto simp: rings_def)
        ultimately show "h' y = h y" by (simp add: h'_def)
      qed
      then show ?thesis using False c r by (simp add: rings_def)
    qed
    have LH: "set (L d) \<inter> H = {}" if "d \<in> H" for d using r that by (simp add: rings_def)
    show "set ((L(Running := xs, Backup := [])) c) \<inter> H = {}"
      using LH [OF c] LH [OF H(2)] by (simp add: xs_def)
    have disj: "set (L d) \<inter> set (L d') = {}" if "d \<in> H" "d' \<in> H" "d \<noteq> d'" for d d'
      using r that by (simp add: rings_def)
    fix d assume "d \<in> H" "c \<noteq> d"
    then show "set ((L(Running := xs, Backup := [])) c) \<inter> set ((L(Running := xs, Backup := [])) d) = {}"
      using c disj H by (auto simp: xs_def)
  next
    fix x assume x: "x \<in> U" "x \<notin> H \<union> members H (L(Running := xs, Backup := []))"
    have "x \<notin> set (L c)" if c: "c \<in> H" for c
    proof (cases "c = Backup")
      case True
      then show ?thesis using x(2) H(1) by (auto simp: members_def xs_def)
    next
      case False
      then show ?thesis using x(2) c e by (cases "c = Running") (auto simp: members_def)
    qed
    then have "x \<notin> members H L" "x \<notin> H" using x by (auto simp: members_def)
    then have "check_node_outoflist x h" "x \<noteq> a" "x \<noteq> b" "x \<noteq> Running" "x \<noteq> Backup"
      using r x(1) mem H by (auto simp: rings_def members_def xs_def)
    then show "check_node_outoflist x h'"
      by (simp add: check_node_outoflist_def check_node_inlist_def h'_def)
  qed
  ultimately show ?thesis by (auto simp: xs_def)
qed


section \<open>Choosing the next task\<close>

lemma schedinfo_ok:
  assumes "slice_ok (tasks s t)"
  shows "\<exists>r. task_schedinfo_modify t s = Inr (upd_task t (\<lambda>_. r) s) \<and> slice_ok r \<and> 20 \<le> t_slice r \<and>
    t_pid r = t_pid (tasks s t) \<and> t_timeout r = t_timeout (tasks s t) \<and> t_needsched r = t_needsched (tasks s t) \<and>
    t_wq r = t_wq (tasks s t)"
proof -
  let ?r = "tasks s t"
  let ?nice = "(t_slice_init ?r - t_slice ?r) * 10 div t_slice_init ?r"
  have b: "unat (t_slice ?r) \<le> unat (t_slice_init ?r)" "1 \<le> unat (t_slice_init ?r)" "unat (t_slice_init ?r) \<le> 70"
    using assms by (simp_all add: slice_ok_def word_le_nat_alt)
  have d: "unat (t_slice_init ?r - t_slice ?r) = unat (t_slice_init ?r) - unat (t_slice ?r)"
    using assms by (intro unat_sub) (simp add: slice_ok_def)
  have "unat ((t_slice_init ?r - t_slice ?r) * 10) = (unat (t_slice_init ?r) - unat (t_slice ?r)) * 10"
  proof -
    have "unat (x * 10) = unat x * 10" if "unat x \<le> 70" for x :: u32
      using that by (simp add: unat_word_ariths)
    from this [of "t_slice_init ?r - t_slice ?r"] show ?thesis using b(3) unfolding d by simp
  qed
  then have n: "unat ?nice = (unat (t_slice_init ?r) - unat (t_slice ?r)) * 10 div unat (t_slice_init ?r)"
    by (simp add: unat_div_distrib)
  have "(unat (t_slice_init ?r) - unat (t_slice ?r)) * 10 \<le> unat (t_slice_init ?r) * 10" by simp
  then have "unat ?nice \<le> 10" unfolding n using b(2) by (metis div_le_mono nonzero_mult_div_cancel_left not_one_le_zero)
  then have sl: "unat (20 + 5 * ?nice) = 20 + 5 * unat ?nice" by (simp add: unat_word_ariths)
  have z: "t_slice_init ?r \<noteq> 0" using b(2) by auto
  let ?x = "?r\<lparr>t_pri := sint (word_of_int (t_pri_init ?r) + ?nice - 5 :: u32), t_slice := 20 + 5 * ?nice,
      t_slice_init := 20 + 5 * ?nice\<rparr>"
  have "slice_ok ?x" "20 \<le> t_slice ?x"
    using sl \<open>unat ?nice \<le> 10\<close> by (simp_all add: slice_ok_def word_le_nat_alt)
  then show ?thesis
    using z by (intro exI [of _ ?x]) (simp add: task_schedinfo_modify_def Let_def upd_task_def)
qed

text \<open>Updates of tasks that keep what the invariant says of them.\<close>

definition same_tasks :: "nat set \<Rightarrow> (qnode \<Rightarrow> qnode list) \<Rightarrow> kernel \<Rightarrow> kernel \<Rightarrow> bool" where
  "same_tasks W L s s' \<longleftrightarrow> freepid s' = freepid s \<and> current s' = current s \<and>
     (\<forall>t. queued W L t \<longrightarrow> (slice_ok (tasks s t) \<longrightarrow> slice_ok (tasks s' t)) \<and>
       t_pid (tasks s' t) = t_pid (tasks s t) \<and> t_timeout (tasks s' t) = t_timeout (tasks s t))"

lemma same_tasks_refl [simp]: "same_tasks W L s s"
  by (simp add: same_tasks_def)

lemma same_tasks_trans: "same_tasks W L s t \<Longrightarrow> same_tasks W L t u \<Longrightarrow> same_tasks W L s u"
  by (simp add: same_tasks_def)

lemma same_tasks_ok: "same_tasks W L s s' \<Longrightarrow> tasks_ok W L s \<Longrightarrow> tasks_ok W L s'"
  by (auto simp: same_tasks_def tasks_ok_def queued_def)

lemma modify_all_ok:
  "set ps \<subseteq> range Q \<Longrightarrow> (\<And>t. Q t \<in> set ps \<Longrightarrow> slice_ok (tasks s t)) \<Longrightarrow>
     \<exists>s'. modify_all ps s = Inr s' \<and> same_tasks W L s s' \<and> links s' = links s"
proof (induction ps arbitrary: s)
  case (Cons p ps)
  then obtain t where p: "p = Q t" by auto
  obtain r where r: "task_schedinfo_modify t s = Inr (upd_task t (\<lambda>_. r) s)" "slice_ok r"
      "t_pid r = t_pid (tasks s t)" "t_timeout r = t_timeout (tasks s t)"
    using schedinfo_ok [of s t] Cons.prems(2) p by auto
  define s1 where "s1 = upd_task t (\<lambda>_. r) s"
  have "slice_ok (tasks s1 u)" if "Q u \<in> set ps" for u
    using Cons.prems(2) [of u] that r(2) by (simp add: s1_def upd_task_def)
  then obtain s' where s': "modify_all ps s1 = Inr s'" "same_tasks W L s1 s'" "links s' = links s1"
    using Cons.IH [of s1] Cons.prems(1) by auto
  moreover have "same_tasks W L s s1" using r by (simp add: same_tasks_def s1_def upd_task_def)
  ultimately show ?case using r(1) p same_tasks_trans by (auto simp: s1_def upd_task_def)
qed simp

lemma getnexttask_ok:
  assumes q: "queues_ok W L (links s)" and t: "tasks_ok W L s" and f: "ntasks L < fuel"
  shows "\<exists>n s' L'. getnexttask fuel s = Inr (n, s') \<and> queues_ok W L' (links s') \<and> tasks_ok W L' s' \<and>
    ntasks L' = ntasks L \<and> current s' = current s \<and> (\<exists>ps. L' Running = Q n # ps) \<and>
    (\<forall>u. ready L' u = ready L u) \<and> (\<forall>u. queued W L' u = queued W L u) \<and>
    (\<forall>a. a \<noteq> Running \<and> a \<noteq> Backup \<longrightarrow> L' a = L a) \<and>
    (L Running \<noteq> [] \<longrightarrow> L' = L \<and> s' = s) \<and> (L Running = [] \<longrightarrow> L' Running = L Backup)"
proof (cases "L Running = []")
  case False
  then obtain n ps where n: "L Running = Q n # ps"
    using queues_okD(3) [OF q, of "hd (L Running)"] by (cases "L Running") auto
  have e: "\<not> check_list_empty Running (links s)"
    using lh.is_empty [OF queues_okD(1) [OF q], of Running] n by simp
  have "ring (links s) Running (L Running)" using queues_okD(1) [OF q] by (simp add: rings_def)
  then have "lnext (links s Running) = Some (Q n)" using n by (simp add: ring_def)
  then show ?thesis using e q t n by (auto simp: getnexttask_def)
next
  case True
  have e: "check_list_empty Running (links s)"
    using lh.is_empty [OF queues_okD(1) [OF q], of Running] True by simp
  have b: "L Backup \<noteq> []" using t True by (auto simp: tasks_ok_def ready_def)
  define L1 where "L1 = L(Running := L Backup, Backup := [])"
  obtain h where h: "swap_queues (links s) = Inr h" "rings UNIV (qheads W) L1 h"
    using swap_queues_ok [OF queues_okD(1) [OF q]] True b unfolding L1_def by auto
  have q1: "queues_ok W L1 h" using q h(2) True by (auto simp: queues_ok_def L1_def)
  have "ring h Waiting (L1 Waiting)" using h(2) by (simp add: rings_def)
  then have w: "list_walk fuel h Waiting (lnext (h Waiting)) = Inr (L Waiting)"
    using f by (intro ring_walk) (simp_all add: L1_def ntasks_def)
  define s1 where "s1 = s\<lparr>links := h\<rparr>"
  have "set (L Waiting) \<subseteq> range Q" using q by (simp add: queues_ok_def)
  then obtain s2 where s2: "modify_all (L Waiting) s1 = Inr s2" "same_tasks W L1 s1 s2" "links s2 = h"
    using modify_all_ok [of "L Waiting" s1 W L1] t by (auto simp: tasks_ok_def queued_def s1_def)
  have t1: "tasks_ok W L1 s1" using t True by (auto simp: tasks_ok_def queued_def ready_def L1_def s1_def)
  obtain n ps where n: "L Backup = Q n # ps"
    using queues_okD(3) [OF q, of "hd (L Backup)"] b by (cases "L Backup") auto
  have "ring h Running (L1 Running)" using h(2) by (simp add: rings_def)
  then have "lnext (h Running) = Some (Q n)" using n by (simp add: ring_def L1_def)
  then have "getnexttask fuel s = Inr (n, s2)"
    using e h(1) w s2(1,3) by (simp add: getnexttask_def s1_def)
  moreover have "tasks_ok W L1 s2" by (rule same_tasks_ok [OF s2(2) t1])
  moreover have "current s2 = current s" using s2(2) by (simp add: same_tasks_def s1_def)
  ultimately show ?thesis using q1 s2(3) n True
    by (intro exI [of _ n] exI [of _ s2] exI [of _ L1])
       (auto simp: L1_def ntasks_def ready_def queued_def)
qed

lemma schedule_ok:
  assumes "queues_ok W L (links s)" "tasks_ok W L s" "ntasks L < fuel"
  shows "\<exists>s' L'. schedule fuel s = Inr s' \<and> sched_inv W L' s' \<and> ntasks L' = ntasks L \<and>
    (\<exists>ps. L' Running = Q (current s') # ps) \<and> (\<forall>u. ready L' u = ready L u) \<and>
    (\<forall>a. a \<noteq> Running \<and> a \<noteq> Backup \<longrightarrow> L' a = L a) \<and>
    (L Running \<noteq> [] \<longrightarrow> L' = L \<and> tasks s' = tasks s) \<and> (L Running = [] \<longrightarrow> L' Running = L Backup)"
proof -
  obtain n s1 L1 where r: "getnexttask fuel s = Inr (n, s1)" "queues_ok W L1 (links s1)" "tasks_ok W L1 s1"
    "ntasks L1 = ntasks L" "\<exists>ps. L1 Running = Q n # ps" "\<forall>u. ready L1 u = ready L u"
    "\<forall>a. a \<noteq> Running \<and> a \<noteq> Backup \<longrightarrow> L1 a = L a" "L Running \<noteq> [] \<longrightarrow> L1 = L \<and> s1 = s" "L Running = [] \<longrightarrow> L1 Running = L Backup"
    using getnexttask_ok [OF assms] by blast
  have "sched_inv W L1 (s1\<lparr>current := n\<rparr>)"
    using r(2,3,5) by (auto simp: sched_inv_def tasks_ok_def ready_def)
  then show ?thesis using r by (intro exI [of _ "s1\<lparr>current := n\<rparr>"] exI [of _ L1]) (simp add: schedule_def)
qed

section \<open>Waking and waiting\<close>

lemma set_remove1_ring: "rings U H L h \<Longrightarrow> a \<in> H \<Longrightarrow> set (remove1 x (L a)) = set (L a) - {x}"
  by (rule set_remove1_eq) (rule lh.list_distinct)

lemma length_comp_insert [simp]: "length (comp_insert cmp x xs) = Suc (length xs)"
proof -
  have "length (takeWhile (\<lambda>p. cmp p x < 0) xs) + length (dropWhile (\<lambda>p. cmp p x < 0) xs) = length xs"
    by (metis length_append takeWhile_dropWhile_id)
  then show ?thesis by (simp add: comp_insert_def)
qed

lemma wakeup_queues:
  assumes q: "queues_ok W L (links s)" and f: "ntasks L < fuel" and w: "Q t \<in> set (L Waiting)"
  shows "\<exists>s' L'. wakeup_task fuel t r s = Inr s' \<and> queues_ok W L' (links s') \<and> (tasks_ok W L s \<longrightarrow> tasks_ok W L' s') \<and>
    ntasks L' = ntasks L \<and> current s' = current s \<and> (\<forall>u. ready L' u \<longleftrightarrow> ready L u \<or> u = t) \<and>
    (\<forall>i\<in>W. L' (WQ i) = remove1 (Wt t) (L (WQ i))) \<and> L' Waiting = remove1 (Q t) (L Waiting) \<and>
    L' Running = comp_insert (task_pri_comp (tasks s)) (Q t) (L Running) \<and>
    t_needsched (tasks s' (current s)) \<and> t_wu_r (tasks s' t) = r"
proof -
  note D = queues_okD [OF q]
  obtain i where i: "i \<in> W" "Wt t \<in> set (L (WQ i))" using D(5) w by blast
  have other: "Wt t \<notin> set (L (WQ j))" if "j \<in> W" "j \<noteq> i" for j
    using queues_apart [OF q _ _ _ i(2), of "WQ j"] i(1) that by simp
  define L1 where "L1 = L(Waiting := remove1 (Q t) (L Waiting))"
  obtain h1 where h1: "list_remove (Q t) (links s) = Inr h1" "rings UNIV (qheads W) L1 h1"
    using lh.remove [OF D(1) _ w] unfolding L1_def by auto
  have n1: "Q t \<notin> members (qheads W) L1"
    using lh.removed_not_member(2) [OF D(1) _ w] by (simp add: L1_def)
  let ?c = "task_pri_comp (tasks s)"
  define L2 where "L2 = L1(Running := comp_insert ?c (Q t) (L Running))"
  have "length (L1 Running) < fuel" using f by (simp add: ntasks_def L1_def)
  then obtain h2 where h2: "list_add_comp fuel ?c (Q t) Running h1 = Inr h2" "rings UNIV (qheads W) L2 h2"
    using rings_add_comp [OF h1(2), of Running "Q t" fuel ?c] n1 by (auto simp: L2_def L1_def)
  define L3 where "L3 = L2(WQ i := remove1 (Wt t) (L (WQ i)))"
  have L2i: "L2 (WQ i) = L (WQ i)" by (simp add: L2_def L1_def)
  obtain h3 where h3: "list_remove (Wt t) h2 = Inr h3" "rings UNIV (qheads W) L3 h3"
    using lh.remove [OF h2(2), of "WQ i" "Wt t"] i L2i unfolding L3_def by auto
  have sets: "set (L3 Running) = insert (Q t) (set (L Running))" "set (L3 Backup) = set (L Backup)"
    "set (L3 Waiting) = set (L Waiting) - {Q t}" "set (L3 Exited) = set (L Exited)" "L3 Stopped = L Stopped"
    using set_remove1_ring [OF D(1), of Waiting "Q t"] by (simp_all add: L3_def L2_def L1_def)
  have wqs: "L3 (WQ j) = remove1 (Wt t) (L (WQ j))" if "j \<in> W" for j
    using other [OF that] by (cases "j = i") (simp_all add: L3_def L2_def L1_def remove1_idem)
  have wset: "set (L3 (WQ j)) = set (L (WQ j)) - {Wt t}" if "j \<in> W" for j
    using set_remove1_ring [OF D(1), of "WQ j" "Wt t"] that by (simp add: wqs)
  have q3: "queues_ok W L3 h3"
    using q h3(2) sets wset unfolding queues_ok_def by auto
  define s' where "s' = upd_task (current s) (\<lambda>c. c\<lparr>t_needsched := True\<rparr>)
           (upd_task t (\<lambda>x. x\<lparr>t_state := STATE_RUNNING, t_wu_r := r\<rparr>) (s\<lparr>links := h3\<rparr>))"
  have res: "wakeup_task fuel t r s = Inr s'" using h1(1) h2(1) h3(1) by (simp add: wakeup_task_def s'_def)
  have qd: "queued W L3 u = queued W L u" for u using sets w by (auto simp: queued_def)
  have t3: "tasks_ok W L s \<longrightarrow> tasks_ok W L3 s'"
    using sets by (auto simp: tasks_ok_def qd ready_def s'_def upd_task_def slice_ok_def)
  have "length (remove1 (Q t) (L Waiting)) = length (L Waiting) - 1" using w by (simp add: length_remove1)
  moreover have "0 < length (L Waiting)" using w by auto
  ultimately have nt: "ntasks L3 = ntasks L"
    by (simp add: ntasks_def L3_def L2_def L1_def)
  show ?thesis
    using res q3 t3 nt sets wqs
    by (intro exI [of _ s'] exI [of _ L3]) (auto simp: s'_def upd_task_def ready_def L3_def L2_def L1_def)
qed

lemma wakeup_ok:
  assumes "queues_ok W L (links s)" and "tasks_ok W L s" and "ntasks L < fuel" and "Q t \<in> set (L Waiting)"
  shows "\<exists>s' L'. wakeup_task fuel t r s = Inr s' \<and> queues_ok W L' (links s') \<and> tasks_ok W L' s' \<and>
    ntasks L' = ntasks L \<and> current s' = current s \<and> (\<forall>u. ready L' u \<longleftrightarrow> ready L u \<or> u = t) \<and>
    (\<forall>i\<in>W. L' (WQ i) = remove1 (Wt t) (L (WQ i))) \<and> L' Waiting = remove1 (Q t) (L Waiting) \<and>
    L' Running = comp_insert (task_pri_comp (tasks s)) (Q t) (L Running) \<and>
    t_needsched (tasks s' (current s)) \<and> t_wu_r (tasks s' t) = r"
  using wakeup_queues [OF assms(1,3,4), of r] assms(2) by blast

lemma unqueue_ok:
  assumes q: "queues_ok W L (links s)" and r: "ready L t"
  shows "\<exists>h L1. list_remove (Q t) (links s) = Inr h \<and> rings UNIV (qheads W) L1 h \<and> Q t \<notin> members (qheads W) L1 \<and>
    set (L1 Running) = set (L Running) - {Q t} \<and> set (L1 Backup) = set (L Backup) - {Q t} \<and>
    (\<forall>h. h \<noteq> Running \<and> h \<noteq> Backup \<longrightarrow> L1 h = L h) \<and> ntasks L = Suc (ntasks L1)"
proof -
  note D = queues_okD [OF q]
  obtain a where a: "a \<in> {Running, Backup}" "Q t \<in> set (L a)" using r by (auto simp: ready_def)
  then have aH: "a \<in> qheads W" by auto
  define L1 where "L1 = L(a := remove1 (Q t) (L a))"
  obtain h where h: "list_remove (Q t) (links s) = Inr h" "rings UNIV (qheads W) L1 h"
    using lh.remove [OF D(1) aH a(2)] unfolding L1_def by auto
  have n1: "Q t \<notin> members (qheads W) L1"
    using lh.removed_not_member(2) [OF D(1) aH a(2)] by (simp add: L1_def)
  have "set (L1 Running) = set (L Running) - {Q t}" "set (L1 Backup) = set (L Backup) - {Q t}"
    using a set_remove1_ring [OF D(1) aH, of "Q t"] queues_apart [OF q aH _ _ a(2), of Running]
      queues_apart [OF q aH _ _ a(2), of Backup] by (auto simp: L1_def)
  moreover have "length (remove1 (Q t) (L a)) = length (L a) - 1" "0 < length (L a)"
    using a(2) by (auto simp: length_remove1)
  then have "ntasks L = Suc (ntasks L1)" using a(1) by (auto simp: ntasks_def L1_def)
  ultimately show ?thesis using h n1 a(1) by (intro exI [of _ h] exI [of _ L1]) (auto simp: L1_def)
qed

lemma wait_enqueue_ok:
  assumes q: "queues_ok W L (links s)" and t: "tasks_ok W L s" and r: "ready L u" "u \<noteq> 0" and i: "i \<in> W"
  shows "\<exists>s' L'. wait_enqueue u i TIMEOUT_INFINIT s = Inr s' \<and> queues_ok W L' (links s') \<and> tasks_ok W L' s' \<and>
    ntasks L' = ntasks L \<and> current s' = current s \<and> (\<forall>v. ready L' v \<longleftrightarrow> ready L v \<and> v \<noteq> u) \<and>
    L' Waiting = L Waiting @ [Q u] \<and> (\<forall>j\<in>W. L' (WQ j) = L (WQ j) @ (if j = i then [Wt u] else []))"
proof -
  note D = queues_okD [OF q]
  have qu: "queued W L u" using r(1) by (auto simp: ready_def queued_def)
  have pid: "t_pid (tasks s u) \<noteq> 0" using t qu r(2) by (simp add: tasks_ok_def)
  have nw: "Q u \<notin> set (L Waiting)"
    using r(1) queues_apart [OF q, of Running Waiting "Q u"] queues_apart [OF q, of Backup Waiting "Q u"]
    by (auto simp: ready_def)
  obtain h1 L1 where h1: "list_remove (Q u) (links s) = Inr h1" "rings UNIV (qheads W) L1 h1" "Q u \<notin> members (qheads W) L1"
    "set (L1 Running) = set (L Running) - {Q u}" "set (L1 Backup) = set (L Backup) - {Q u}"
    "\<forall>h. h \<noteq> Running \<and> h \<noteq> Backup \<longrightarrow> L1 h = L h" "ntasks L = Suc (ntasks L1)"
    using unqueue_ok [OF q r(1)] by blast
  define L2 where "L2 = L1(Waiting := L1 Waiting @ [Q u])"
  obtain h2 where h2: "list_add_tail (Q u) Waiting h1 = Inr h2" "rings UNIV (qheads W) L2 h2"
    using lh.add_tail [OF h1(2) _ _ h1(3), of Waiting] unfolding L2_def by auto
  have "Wt u \<notin> members (qheads W) L" using member_Q(2) [OF q] nw by simp
  moreover have "Wt u \<notin> set (L2 a)" if "a \<in> qheads W" "Wt u \<notin> set (L a)" for a
    using that h1(4-6) by (cases "a = Running \<or> a = Backup") (auto simp: L2_def)
  ultimately have n2: "Wt u \<notin> members (qheads W) L2" by (auto simp: members_def)
  define L3 where "L3 = L2(WQ i := L2 (WQ i) @ [Wt u])"
  obtain h3 where h3: "list_add_tail (Wt u) (WQ i) h2 = Inr h3" "rings UNIV (qheads W) L3 h3"
    using lh.add_tail [OF h2(2) _ _ n2, of "WQ i"] i unfolding L3_def by auto
  have sets: "set (L3 Running) = set (L Running) - {Q u}" "set (L3 Backup) = set (L Backup) - {Q u}"
    "L3 Waiting = L Waiting @ [Q u]" "L3 Exited = L Exited" "L3 Stopped = L Stopped"
    "\<forall>j. L3 (WQ j) = L (WQ j) @ (if j = i then [Wt u] else [])"
    using h1(4-6) by (simp_all add: L3_def L2_def)
  have q3: "queues_ok W L3 h3" using q h3(2) sets i unfolding queues_ok_def by auto
  define s' where "s' = upd_task u (\<lambda>x. x\<lparr>t_state := STATE_WAIT, t_timeout := TIMEOUT_INFINIT, t_wq := Some i\<rparr>) (s\<lparr>links := h3\<rparr>)"
  have res: "wait_enqueue u i TIMEOUT_INFINIT s = Inr s'"
    using pid h1(1) h2(1) h3(1) by (simp add: wait_enqueue_def s'_def)
  have t3: "tasks_ok W L3 s'"
    using t sets r(2) qu by (auto simp: tasks_ok_def queued_def ready_def s'_def upd_task_def slice_ok_def)
  have "ntasks L3 = ntasks L" using h1(6,7) by (simp add: ntasks_def L3_def L2_def)
  then show ?thesis
    using res q3 t3 sets by (intro exI [of _ s'] exI [of _ L3]) (auto simp: s'_def upd_task_def ready_def)
qed

section \<open>The clock tick\<close>

lemma tick_walk_idle:
  "linked (links s) (xs @ [Waiting]) \<Longrightarrow> set xs \<subseteq> range Q \<Longrightarrow>
   (\<And>t. Q t \<in> set xs \<Longrightarrow> t_timeout (tasks s t) = TIMEOUT_INFINIT) \<Longrightarrow> length xs < n \<Longrightarrow>
     tick_walk fuel n (Some (hd (xs @ [Waiting]))) s = Inr s"
proof (induction xs arbitrary: n)
  case Nil
  then show ?case by (cases n) auto
next
  case (Cons x xs)
  then obtain t where t: "x = Q t" by auto
  obtain m where m: "n = Suc m" using Cons.prems(4) by (cases n) auto
  have "linked (links s) (xs @ [Waiting])" "lnext (links s x) = Some (hd (xs @ [Waiting]))"
    using Cons.prems(1) linked_app [of "[x]" "xs @ [Waiting]" "links s"] by simp_all
  then show ?case using Cons m t by (simp add: tick_one_def)
qed

lemma tick_current_ok:
  assumes q: "queues_ok W L (links s)" and t: "tasks_ok W L s" and f: "ntasks L < fuel" and c: "ready L (current s)"
  shows "\<exists>s' L'. tick_current fuel s = Inr s' \<and> queues_ok W L' (links s') \<and> tasks_ok W L' s' \<and>
    ntasks L' = ntasks L \<and> current s' = current s \<and> (\<forall>u. ready L' u \<longleftrightarrow> ready L u) \<and>
    (\<forall>h. h \<noteq> Running \<and> h \<noteq> Backup \<longrightarrow> L' h = L h) \<and>
    (\<forall>u. u \<noteq> current s \<longrightarrow> tasks s' u = tasks s u) \<and>
    (if t_slice (tasks s (current s)) = 0
     then set (L' Running) = set (L Running) - {Q (current s)} \<and> t_needsched (tasks s' (current s))
     else L' = L \<and> t_slice (tasks s' (current s)) = t_slice (tasks s (current s)) - 1)"
proof -
  let ?c = "current s"
  have qc: "queued W L ?c" using c by (auto simp: ready_def queued_def)
  have so: "slice_ok (tasks s ?c)" using t qc by (simp add: tasks_ok_def)
  show ?thesis
  proof (cases "t_slice (tasks s ?c) = 0")
    case False
    define s' where "s' = upd_task ?c (\<lambda>r. r\<lparr>t_slice := t_slice r - 1, t_total_tick := t_total_tick r + 1\<rparr>) s"
    have "t_slice (tasks s ?c) - 1 \<le> t_slice (tasks s ?c)" using False by (simp add: word_le_nat_alt unat_minus_one)
    then have "slice_ok (tasks s' ?c)" using so by (auto simp: slice_ok_def s'_def upd_task_def)
    then have "same_tasks W L s s'" by (auto simp: same_tasks_def s'_def upd_task_def)
    then have "tasks_ok W L s'" using same_tasks_ok t by blast
    then show ?thesis
      using False q by (intro exI [of _ s'] exI [of _ L]) (auto simp: tick_current_def s'_def upd_task_def Let_def)
  next
    case True
    obtain r where r: "task_schedinfo_modify ?c s = Inr (upd_task ?c (\<lambda>_. r) s)" "slice_ok r"
      "t_pid r = t_pid (tasks s ?c)" "t_timeout r = t_timeout (tasks s ?c)"
      using schedinfo_ok [OF so] by blast
    define s1 where "s1 = upd_task ?c (\<lambda>_. r) s"
    have l1: "links s1 = links s" "current s1 = ?c" by (simp_all add: s1_def upd_task_def)
    obtain h1 L1 where h1: "list_remove (Q ?c) (links s1) = Inr h1" "rings UNIV (qheads W) L1 h1" "Q ?c \<notin> members (qheads W) L1"
      "set (L1 Running) = set (L Running) - {Q ?c}" "set (L1 Backup) = set (L Backup) - {Q ?c}"
      "\<forall>h. h \<noteq> Running \<and> h \<noteq> Backup \<longrightarrow> L1 h = L h" "ntasks L = Suc (ntasks L1)"
      using unqueue_ok [OF q c] unfolding l1 by blast
    let ?cmp = "task_pri_comp (tasks s1)"
    define L2 where "L2 = L1(Backup := comp_insert ?cmp (Q ?c) (L1 Backup))"
    have "length (L1 Backup) < fuel" using f h1(7) by (simp add: ntasks_def)
    then obtain h2 where h2: "list_add_comp fuel ?cmp (Q ?c) Backup h1 = Inr h2" "rings UNIV (qheads W) L2 h2"
      using rings_add_comp [OF h1(2), of Backup "Q ?c" fuel ?cmp] h1(3) by (auto simp: L2_def)
    define s' where "s' = upd_task ?c (\<lambda>r. r\<lparr>t_needsched := True\<rparr>) (s1\<lparr>links := h2\<rparr>)"
    have sets: "set (L2 Running) = set (L Running) - {Q ?c}" "set (L2 Backup) = insert (Q ?c) (set (L Backup))"
      "\<forall>h. h \<noteq> Running \<and> h \<noteq> Backup \<longrightarrow> L2 h = L h"
      using h1(4-6) by (auto simp: L2_def)
    have q2: "queues_ok W L2 h2" using q h2(2) sets unfolding queues_ok_def by auto
    have t2: "tasks_ok W L2 s'"
      using t c sets r by (auto simp: tasks_ok_def queued_def ready_def s'_def s1_def upd_task_def slice_ok_def)
    have "tick_current fuel s = Inr s'"
      using True r(1) h1(1) h2(1) l1 by (simp add: tick_current_def Let_def s'_def flip: s1_def)
    moreover have "ntasks L2 = ntasks L" using h1(7) by (simp add: ntasks_def L2_def)
    moreover have "ready L2 u \<longleftrightarrow> ready L u" for u using sets c by (auto simp: ready_def)
    ultimately show ?thesis
      using True q2 t2 sets by (intro exI [of _ s'] exI [of _ L2]) (auto simp: s'_def s1_def upd_task_def)
  qed
qed

lemma systick_ok:
  assumes inv: "sched_inv W L s" and f: "ntasks L < fuel"
  shows "\<exists>s' L'. systick fuel s = Inr s' \<and> sched_inv W L' s' \<and> ntasks L' = ntasks L \<and> current s' = current s \<and>
    (\<forall>u. ready L' u \<longleftrightarrow> ready L u) \<and> (\<forall>h. h \<noteq> Running \<and> h \<noteq> Backup \<longrightarrow> L' h = L h) \<and>
    (\<forall>u. u \<noteq> current s \<longrightarrow> tasks s' u = tasks s u) \<and>
    (if t_slice (tasks s (current s)) = 0
     then set (L' Running) = set (L Running) - {Q (current s)} \<and> t_needsched (tasks s' (current s))
     else L' = L \<and> t_slice (tasks s' (current s)) = t_slice (tasks s (current s)) - 1)"
proof -
  have i: "queues_ok W L (links s)" "tasks_ok W L s" "ready L (current s)" using inv by (simp_all add: sched_inv_def)
  obtain s1 L1 where s1: "tick_current fuel s = Inr s1" "queues_ok W L1 (links s1)" "tasks_ok W L1 s1"
    "ntasks L1 = ntasks L" "current s1 = current s" "\<forall>u. ready L1 u \<longleftrightarrow> ready L u"
    "\<forall>h. h \<noteq> Running \<and> h \<noteq> Backup \<longrightarrow> L1 h = L h" "\<forall>u. u \<noteq> current s \<longrightarrow> tasks s1 u = tasks s u"
    "if t_slice (tasks s (current s)) = 0
     then set (L1 Running) = set (L Running) - {Q (current s)} \<and> t_needsched (tasks s1 (current s))
     else L1 = L \<and> t_slice (tasks s1 (current s)) = t_slice (tasks s (current s)) - 1"
    using tick_current_ok [OF i(1,2) f i(3)] by blast
  have ring: "ring (links s1) Waiting (L1 Waiting)" using queues_okD(1) [OF s1(2)] by (simp add: rings_def)
  then have "linked (links s1) (L1 Waiting @ [Waiting])" "lnext (links s1 Waiting) = Some (hd (L1 Waiting @ [Waiting]))"
    using linked_app [of "[Waiting]" "L1 Waiting @ [Waiting]" "links s1"] by (simp_all add: ring_def)
  moreover have "set (L1 Waiting) \<subseteq> range Q" using s1(2) by (simp add: queues_ok_def)
  moreover have "length (L1 Waiting) < fuel" using f s1(4) by (simp add: ntasks_def)
  ultimately have "systick fuel s = Inr s1"
    using tick_walk_idle [of s1 "L1 Waiting" fuel fuel] s1(1,3) by (simp add: systick_def tasks_ok_def)
  then show ?thesis using s1 i(3) by (intro exI [of _ s1] exI [of _ L1]) (simp add: sched_inv_def)
qed

section \<open>The other operations\<close>

lemma tail_sched_ok:
  assumes inv: "sched_inv W L s" and f: "ntasks L < fuel"
  shows "\<exists>s' L'. tail_sched fuel s = Inr s' \<and> sched_inv W L' s' \<and> ntasks L' = ntasks L \<and>
    (\<forall>u. ready L' u = ready L u) \<and>
    (t_needsched (tasks s (current s)) \<longrightarrow> (\<exists>ps. L' Running = Q (current s') # ps) \<and>
      (L Running \<noteq> [] \<longrightarrow> L' = L \<and> (\<forall>u. t_slice (tasks s' u) = t_slice (tasks s u))) \<and>
      (L Running = [] \<longrightarrow> L' Running = L Backup)) \<and>
    (\<not> t_needsched (tasks s (current s)) \<longrightarrow> s' = s \<and> L' = L)"
proof (cases "t_needsched (tasks s (current s))")
  case True
  define s1 where "s1 = upd_task (current s) (\<lambda>r. r\<lparr>t_needsched := False\<rparr>) s"
  have st: "same_tasks W L s s1" by (simp add: same_tasks_def s1_def upd_task_def slice_ok_def)
  have sl: "t_slice (tasks s1 u) = t_slice (tasks s u)" for u by (simp add: s1_def upd_task_def)
  have "queues_ok W L (links s1)" "tasks_ok W L s1"
    using inv same_tasks_ok [OF st] by (simp_all add: sched_inv_def s1_def upd_task_def)
  then obtain s' L' where "schedule fuel s1 = Inr s'" "sched_inv W L' s'" "ntasks L' = ntasks L"
    "\<exists>ps. L' Running = Q (current s') # ps" "\<forall>u. ready L' u = ready L u"
    "L Running \<noteq> [] \<longrightarrow> L' = L \<and> tasks s' = tasks s1" "L Running = [] \<longrightarrow> L' Running = L Backup"
    using schedule_ok [of W L s1 fuel] f by blast
  then show ?thesis using True sl
    by (intro exI [of _ s'] exI [of _ L']) (simp add: tail_sched_def s1_def)
qed (use inv in \<open>auto simp: tail_sched_def\<close>)

lemma exit_ok:
  assumes inv: "sched_inv W L s" and f: "ntasks L < fuel" and c: "current s \<noteq> 0"
  shows "\<exists>s' L'. exit_task fuel s = Inr s' \<and> sched_inv W L' s' \<and> ntasks L' = ntasks L \<and>
    (\<forall>u. ready L' u \<longleftrightarrow> ready L u \<and> u \<noteq> current s)"
proof -
  let ?c = "current s"
  have i: "queues_ok W L (links s)" "tasks_ok W L s" "ready L ?c" using inv by (simp_all add: sched_inv_def)
  obtain h1 L1 where h1: "list_remove (Q ?c) (links s) = Inr h1" "rings UNIV (qheads W) L1 h1" "Q ?c \<notin> members (qheads W) L1"
    "set (L1 Running) = set (L Running) - {Q ?c}" "set (L1 Backup) = set (L Backup) - {Q ?c}"
    "\<forall>h. h \<noteq> Running \<and> h \<noteq> Backup \<longrightarrow> L1 h = L h" "ntasks L = Suc (ntasks L1)"
    using unqueue_ok [OF i(1,3)] by blast
  define L2 where "L2 = L1(Exited := Q ?c # L1 Exited)"
  obtain h2 where h2: "list_add_head (Q ?c) Exited h1 = Inr h2" "rings UNIV (qheads W) L2 h2"
    using lh.add_head [OF h1(2) _ _ h1(3), of Exited] unfolding L2_def by auto
  define s1 where "s1 = s\<lparr>links := h2\<rparr>"
  have sets: "set (L2 Running) = set (L Running) - {Q ?c}" "set (L2 Backup) = set (L Backup) - {Q ?c}"
    "L2 Exited = Q ?c # L Exited" "\<forall>h. h \<notin> {Running, Backup, Exited} \<longrightarrow> L2 h = L h"
    using h1(4-6) by (auto simp: L2_def)
  have q2: "queues_ok W L2 (links s1)" using i(1) h2(2) sets unfolding queues_ok_def by (auto simp: s1_def)
  have t2: "tasks_ok W L2 s1"
    using i(2,3) c sets by (auto simp: tasks_ok_def queued_def ready_def s1_def)
  have n2: "ntasks L2 = ntasks L" using h1(7) by (simp add: ntasks_def L2_def)
  obtain s' L' where "schedule fuel s1 = Inr s'" "sched_inv W L' s'" "ntasks L' = ntasks L" "\<forall>u. ready L' u = ready L2 u"
    using schedule_ok [OF q2 t2, of fuel] f n2 by auto
  then show ?thesis
    using h1(1) h2(1) sets by (intro exI [of _ s'] exI [of _ L']) (auto simp: exit_task_def s1_def ready_def)
qed

lemma wait_task_ok:
  assumes inv: "sched_inv W L s" and f: "ntasks L < fuel" and c: "current s \<noteq> 0" and i: "i \<in> W"
  shows "\<exists>s' L'. wait_task fuel (current s) i TIMEOUT_INFINIT s = Inr s' \<and> sched_inv W L' s' \<and> ntasks L' = ntasks L \<and>
    (\<forall>v. ready L' v \<longleftrightarrow> ready L v \<and> v \<noteq> current s) \<and>
    (\<forall>j\<in>W. L' (WQ j) = L (WQ j) @ (if j = i then [Wt (current s)] else []))"
proof -
  have q: "queues_ok W L (links s)" "tasks_ok W L s" "ready L (current s)" using inv by (simp_all add: sched_inv_def)
  obtain s1 L1 where s1: "wait_enqueue (current s) i TIMEOUT_INFINIT s = Inr s1" "queues_ok W L1 (links s1)"
    "tasks_ok W L1 s1" "ntasks L1 = ntasks L" "\<forall>v. ready L1 v \<longleftrightarrow> ready L v \<and> v \<noteq> current s"
    "\<forall>j\<in>W. L1 (WQ j) = L (WQ j) @ (if j = i then [Wt (current s)] else [])"
    using wait_enqueue_ok [OF q c i] by blast
  obtain s' L' where "schedule fuel s1 = Inr s'" "sched_inv W L' s'" "ntasks L' = ntasks L1" "\<forall>u. ready L' u = ready L1 u"
    "\<forall>a. a \<noteq> Running \<and> a \<noteq> Backup \<longrightarrow> L' a = L1 a"
    using schedule_ok [OF s1(2,3), of fuel] f s1(4) by auto
  then show ?thesis using s1 by (intro exI [of _ s'] exI [of _ L']) (simp add: wait_task_def)
qed

lemma kernel_thread_ok:
  assumes inv: "sched_inv W L s" and f: "ntasks L < fuel" and n: "\<not> queued W L t"
  shows "\<exists>s' L'. kernel_thread fuel t s = Inr s' \<and> sched_inv W L' s' \<and> ntasks L' = Suc (ntasks L) \<and>
    (\<forall>u. ready L' u \<longleftrightarrow> ready L u \<or> u = t) \<and> (\<forall>a. a \<noteq> Running \<longrightarrow> L' a = L a)"
proof -
  have i: "queues_ok W L (links s)" "tasks_ok W L s" "ready L (current s)" using inv by (simp_all add: sched_inv_def)
  define s1 where "s1 = (upd_task t (\<lambda>_. zero_task\<lparr>t_state := STATE_WAIT, t_pid := freepid s\<rparr>) s)\<lparr>freepid := freepid s + 1\<rparr>"
  have l1: "links s1 = links s" by (simp add: s1_def upd_task_def)
  have nm: "Q t \<notin> members (qheads W) L" using member_Q(1) [OF i(1)] n by simp
  let ?cmp = "task_pri_comp (tasks s1)"
  define L1 where "L1 = L(Running := comp_insert ?cmp (Q t) (L Running))"
  have "length (L Running) < fuel" using f by (simp add: ntasks_def)
  then obtain h1 where h1: "list_add_comp fuel ?cmp (Q t) Running (links s1) = Inr h1" "rings UNIV (qheads W) L1 h1"
    using rings_add_comp [OF queues_okD(1) [OF i(1)], of Running "Q t" fuel ?cmp] nm unfolding L1_def l1 by auto
  let ?c = "tasks s1 (current s1)"
  define s' where "s' = upd_task t (\<lambda>r. r\<lparr>t_pri := t_pri ?c, t_pri_init := t_pri_init ?c, t_slice := t_slice ?c,
      t_slice_init := t_slice_init ?c\<rparr>) (s1\<lparr>links := h1\<rparr>)"
  have res: "kernel_thread fuel t s = Inr s'"
    using h1(1) unfolding kernel_thread_def Let_def s'_def s1_def by (simp add: upd_task_def)
  have "queued W L 0" "queued W L (current s)" using i(2,3) by (auto simp: tasks_ok_def ready_def queued_def)
  then have ne: "current s \<noteq> t" "t \<noteq> 0" using n by metis+
  have sets: "set (L1 Running) = insert (Q t) (set (L Running))" "\<forall>h. h \<noteq> Running \<longrightarrow> L1 h = L h"
    by (simp_all add: L1_def)
  have q1: "queues_ok W L1 h1" using i(1) h1(2) sets unfolding queues_ok_def by auto
  have t1: "tasks_ok W L1 s'"
    using i n sets ne by (auto simp: tasks_ok_def queued_def ready_def s'_def s1_def upd_task_def slice_ok_def zero_task_def)
  have "ready L1 (current s')" "ntasks L1 = Suc (ntasks L)"
    using i(3) sets by (auto simp: ready_def s'_def s1_def upd_task_def ntasks_def L1_def)
  then show ?thesis using res q1 t1 sets
    by (intro exI [of _ s'] exI [of _ L1]) (auto simp: sched_inv_def ready_def s'_def upd_task_def)
qed

lemma reap_loop_ok:
  "rings U H L h \<Longrightarrow> Exited \<in> H \<Longrightarrow> L Exited = xs \<Longrightarrow> set xs \<subseteq> range Q \<Longrightarrow> length xs < fuel \<Longrightarrow>
     \<exists>ts h'. reap_loop fuel (Some (hd (xs @ [Exited]))) (lnext (h (hd (xs @ [Exited])))) h = Inr (ts, h') \<and>
       map Q ts = xs \<and> rings U H (L(Exited := [])) h'"
proof (induction xs arbitrary: fuel h L)
  case Nil
  then show ?case by (cases fuel) (auto simp: fun_upd_idem)
next
  case (Cons x xs)
  then obtain t where t: "x = Q t" by auto
  obtain m where m: "fuel = Suc m" using Cons.prems(5) by (cases fuel) auto
  have "ring h Exited (x # xs)" using Cons.prems(1-3) by (auto simp: rings_def)
  then have nx: "lnext (h x) = Some (hd (xs @ [Exited]))"
    using linked_app [of "[Exited, x]" "xs @ [Exited]" h] by (simp add: ring_def)
  obtain h1 where h1: "list_remove x h = Inr h1" "rings U H (L(Exited := remove1 x (L Exited))) h1"
    using lh.remove [OF Cons.prems(1,2), of x] Cons.prems(3) by auto
  have "rings U H (L(Exited := xs)) h1" using h1(2) Cons.prems(3) by simp
  moreover have "set xs \<subseteq> range Q" "length xs < m" using Cons.prems(4,5) m by simp_all
  ultimately obtain ts h' where "reap_loop m (Some (hd (xs @ [Exited]))) (lnext (h1 (hd (xs @ [Exited])))) h1 = Inr (ts, h')"
    "map Q ts = xs" "rings U H (L(Exited := [])) h'"
    using Cons.IH [of "L(Exited := xs)" h1 m] Cons.prems(2) by (metis fun_upd_same fun_upd_upd)
  then show ?case using h1(1) t m nx by (intro exI [of _ "t # ts"] exI [of _ h']) (simp del: fun_upd_apply)
qed

lemma idle_round_ok:
  assumes inv: "sched_inv W L s" and f: "ntasks L < fuel"
  shows "\<exists>ts s' L'. idle_round fuel s = Inr (ts, s') \<and> sched_inv W L' s' \<and> ntasks L' + length ts = ntasks L \<and>
    map Q ts = L Exited \<and> L' = L(Exited := []) \<and> current s' = current s"
proof -
  have i: "queues_ok W L (links s)" "tasks_ok W L s" "ready L (current s)" using inv by (simp_all add: sched_inv_def)
  note D = queues_okD [OF i(1)]
  have ex: "set (L Exited) \<subseteq> range Q" using i(1) by (simp add: queues_ok_def)
  obtain ts h where h: "reap_loop fuel (Some (hd (L Exited @ [Exited]))) (lnext (links s (hd (L Exited @ [Exited])))) (links s) = Inr (ts, h)"
    "map Q ts = L Exited" "rings UNIV (qheads W) (L(Exited := [])) h"
    using reap_loop_ok [OF D(1) _ refl ex, of fuel] f by (auto simp: ntasks_def)
  have "ring (links s) Exited (L Exited)" using D(1) by (simp add: rings_def)
  then have n: "lnext (links s Exited) = Some (hd (L Exited @ [Exited]))"
    using linked_app [of "[Exited]" "L Exited @ [Exited]" "links s"] by (simp add: ring_def)
  define s' where "s' = upd_task (current s) (\<lambda>r. r\<lparr>t_slice := 0\<rparr>) (s\<lparr>links := h\<rparr>)"
  define L' where "L' = L(Exited := [])"
  have "queues_ok W L' (links s')"
    using i(1) h(3) unfolding queues_ok_def by (auto simp: L'_def s'_def upd_task_def)
  moreover have "tasks_ok W L' s'"
    using i(2,3) by (auto simp: tasks_ok_def queued_def ready_def s'_def L'_def upd_task_def slice_ok_def)
  ultimately have "sched_inv W L' s'" using i(3) by (simp add: sched_inv_def ready_def s'_def L'_def upd_task_def)
  moreover have "idle_round fuel s = Inr (ts, s')" using n h(1) by (simp add: idle_round_def s'_def)
  moreover have "length ts = length (L Exited)" using arg_cong [OF h(2), of length] by simp
  ultimately show ?thesis using h(2)
    by (intro exI [of _ ts] exI [of _ s'] exI [of _ L']) (auto simp: L'_def ntasks_def s'_def upd_task_def)
qed

section \<open>Sequences of operations\<close>

text \<open>
  The operations the kernel performs on the queues, in any order. The node woken is the first of a
  wait queue, as \<^verbatim>\<open>sem_signal\<close> does; an operation that the code cannot perform in a state is skipped.
\<close>

datatype kevent = Tick | TailSched | WaitOn nat | Wake nat | Exit | Spawn nat | IdleRound

definition queue_of :: "nat \<Rightarrow> kernel \<Rightarrow> qnode \<Rightarrow> qnode list" where
  "queue_of fuel s a = (case list_walk fuel (links s) a (lnext (links s a)) of Inr xs \<Rightarrow> xs | Inl _ \<Rightarrow> [])"

definition enabled :: "nat \<Rightarrow> nat set \<Rightarrow> kevent \<Rightarrow> kernel \<Rightarrow> bool" where
  "enabled fuel W e s =
     (case e of
        WaitOn i \<Rightarrow> i \<in> W \<and> current s \<noteq> 0
      | Wake i \<Rightarrow> i \<in> W \<and> \<not> check_list_empty (WQ i) (links s)
      | Exit \<Rightarrow> current s \<noteq> 0
      | Spawn t \<Rightarrow> (\<forall>a\<in>{Running, Backup, Waiting, Exited}. Q t \<notin> set (queue_of fuel s a))
      | _ \<Rightarrow> True)"

definition kdo :: "nat \<Rightarrow> kevent \<Rightarrow> kernel \<Rightarrow> kernel res" where
  "kdo fuel e s =
     (case e of
        Tick \<Rightarrow> systick fuel s
      | TailSched \<Rightarrow> tail_sched fuel s
      | WaitOn i \<Rightarrow> wait_task fuel (current s) i TIMEOUT_INFINIT s
      | Wake i \<Rightarrow> (case lnext (links s (WQ i)) of Some (Wt t) \<Rightarrow> wakeup_task fuel t WU_REASON_WAKEUP s | _ \<Rightarrow> Inl Fault)
      | Exit \<Rightarrow> exit_task fuel s
      | Spawn t \<Rightarrow> kernel_thread fuel t s
      | IdleRound \<Rightarrow> bindE (idle_round fuel s) (\<lambda>(ts, s). Inr s))"

fun krun :: "nat \<Rightarrow> nat set \<Rightarrow> kevent list \<Rightarrow> kernel \<Rightarrow> kernel res" where
  "krun fuel W [] s = Inr s"
| "krun fuel W (e # es) s =
     (if enabled fuel W e s then bindE (kdo fuel e s) (krun fuel W es) else krun fuel W es s)"

lemma queue_of_ok:
  assumes "queues_ok W L (links s)" "a \<in> {Running, Backup, Waiting, Exited}" "ntasks L < fuel"
  shows "queue_of fuel s a = L a"
proof -
  have "a \<in> qheads W" using assms(2) by auto
  then have "ring (links s) a (L a)" using queues_okD(1) [OF assms(1)] by (simp add: rings_def)
  moreover have "length (L a) < fuel" using assms(2,3) by (auto simp: ntasks_def)
  ultimately have "list_walk fuel (links s) a (lnext (links s a)) = Inr (L a)" by (rule ring_walk)
  then show ?thesis by (simp add: queue_of_def)
qed

lemma first_waiter:
  assumes q: "queues_ok W L (links s)" and i: "i \<in> W" and ne: "\<not> check_list_empty (WQ i) (links s)"
  shows "\<exists>t ts. L (WQ i) = Wt t # ts \<and> lnext (links s (WQ i)) = Some (Wt t) \<and> Q t \<in> set (L Waiting)"
proof -
  have "L (WQ i) \<noteq> []" using lh.is_empty [OF queues_okD(1) [OF q], of "WQ i"] i ne by simp
  then obtain t ts where t: "L (WQ i) = Wt t # ts"
    using queues_okD(4) [OF q i, of "hd (L (WQ i))"] by (cases "L (WQ i)") auto
  have "ring (links s) (WQ i) (L (WQ i))" using queues_okD(1) [OF q] i by (simp add: rings_def)
  moreover have "Q t \<in> set (L Waiting)" using queues_okD(5) [OF q, of t] i t by (metis list.set_intros(1))
  ultimately show ?thesis using t by (auto simp: ring_def)
qed

lemma kdo_ok:
  assumes inv: "sched_inv W L s" and f: "ntasks L < fuel" and e: "enabled fuel W e s"
  shows "\<exists>s' L'. kdo fuel e s = Inr s' \<and> sched_inv W L' s' \<and> ntasks L' \<le> Suc (ntasks L)"
proof -
  have q: "queues_ok W L (links s)" "tasks_ok W L s" "ready L (current s)" using inv by (simp_all add: sched_inv_def)
  show ?thesis
  proof (cases e)
    case Tick
    then show ?thesis using systick_ok [OF inv f] by (fastforce simp: kdo_def)
  next
    case TailSched
    then show ?thesis using tail_sched_ok [OF inv f] by (fastforce simp: kdo_def)
  next
    case (WaitOn i)
    then show ?thesis using wait_task_ok [OF inv f, of i] e by (fastforce simp: kdo_def enabled_def)
  next
    case (Wake i)
    then have i: "i \<in> W" "\<not> check_list_empty (WQ i) (links s)" using e by (simp_all add: enabled_def)
    obtain t ts where t: "lnext (links s (WQ i)) = Some (Wt t)" "Q t \<in> set (L Waiting)"
      using first_waiter [OF q(1) i] by blast
    obtain s' L' where s': "wakeup_task fuel t WU_REASON_WAKEUP s = Inr s'" "queues_ok W L' (links s')" "tasks_ok W L' s'"
      "ntasks L' = ntasks L" "current s' = current s" "\<forall>u. ready L' u \<longleftrightarrow> ready L u \<or> u = t"
      using wakeup_ok [OF q(1,2) f t(2)] by blast
    then have "sched_inv W L' s'" using q(3) by (simp add: sched_inv_def)
    then show ?thesis using Wake t(1) s'(1,4) by (intro exI [of _ s'] exI [of _ L']) (simp add: kdo_def)
  next
    case Exit
    then show ?thesis using exit_ok [OF inv f] e by (fastforce simp: kdo_def enabled_def)
  next
    case (Spawn t)
    then have "\<not> queued W L t"
      using e queue_of_ok [OF q(1) _ f] by (simp add: enabled_def queued_def)
    then show ?thesis using kernel_thread_ok [OF inv f] Spawn by (fastforce simp: kdo_def)
  next
    case IdleRound
    obtain ts s' L' where "idle_round fuel s = Inr (ts, s')" "sched_inv W L' s'" "ntasks L' + length ts = ntasks L"
      using idle_round_ok [OF inv f] by blast
    then show ?thesis using IdleRound by (intro exI [of _ s'] exI [of _ L']) (simp add: kdo_def)
  qed
qed


section \<open>No task starves\<close>

text \<open>The path of the timer interrupt: the tick, then the reschedule on the way out.\<close>

fun rounds :: "nat \<Rightarrow> nat \<Rightarrow> kernel \<Rightarrow> kernel res" where
  "rounds fuel 0 s = Inr s"
| "rounds fuel (Suc n) s = bindE (systick fuel s) (\<lambda>s. bindE (tail_sched fuel s) (rounds fuel n))"

definition running :: "(qnode \<Rightarrow> qnode list) \<Rightarrow> nat set" where
  "running L = {v. Q v \<in> set (L Running)}"

definition work :: "nat set \<Rightarrow> kernel \<Rightarrow> nat" where
  "work A s = (\<Sum>v\<in>A. unat (t_slice (tasks s v)) + 1)"

definition pending :: "(qnode \<Rightarrow> qnode list) \<Rightarrow> kernel \<Rightarrow> nat" where
  "pending L s = work (insert (current s) (running L)) s"

lemma finite_Q [simp]: "finite {v. Q v \<in> set xs}"
  by (rule finite_subset [OF _ finite_vimageI [OF finite_set [of xs], of Q]]) (auto simp: inj_def)

lemma finite_running [simp]: "finite (running L)"
  by (simp add: running_def)

lemma card_Q: "card {v. Q v \<in> set xs} \<le> length xs"
proof -
  have "card (Q ` {v. Q v \<in> set xs}) \<le> card (set xs)" by (intro card_mono) auto
  moreover have "card (Q ` {v. Q v \<in> set xs}) = card {v. Q v \<in> set xs}" by (intro card_image) (simp add: inj_on_def)
  ultimately show ?thesis using card_length [of xs] by linarith
qed

lemma work_mono: "A \<subseteq> B \<Longrightarrow> finite B \<Longrightarrow> work A s \<le> work B s"
  unfolding work_def by (rule sum_mono2) auto

lemma work_insert: "finite A \<Longrightarrow> c \<notin> A \<Longrightarrow> work (insert c A) s = work A s + unat (t_slice (tasks s c)) + 1"
  by (simp add: work_def)

lemma work_insert_Diff:
  "finite A \<Longrightarrow> work (insert c A) s = work (A - {c}) s + unat (t_slice (tasks s c)) + 1"
  using work_insert [of "A - {c}" c s] by simp

lemma work_cong: "(\<And>v. v \<in> A \<Longrightarrow> t_slice (tasks s v) = t_slice (tasks s' v)) \<Longrightarrow> work A s = work A s'"
  by (simp add: work_def)

lemma pending_bound:
  assumes "sched_inv W L s"
  shows "pending L s \<le> 71 * ntasks L"
proof -
  let ?A = "insert (current s) (running L)"
  let ?R = "{v. Q v \<in> set (L Running)} \<union> {v. Q v \<in> set (L Backup)}"
  have sub: "?A \<subseteq> ?R" using assms by (auto simp: sched_inv_def ready_def running_def)
  have "unat (t_slice (tasks s v)) + 1 \<le> 71" if "v \<in> ?A" for v
  proof -
    have "queued W L v" using that sub by (auto simp: queued_def)
    then have "t_slice (tasks s v) \<le> 70"
      using assms by (auto simp: sched_inv_def tasks_ok_def slice_ok_def)
    then show ?thesis by (simp add: word_le_nat_alt)
  qed
  then have "work ?A s \<le> card ?A * 71" unfolding work_def by (rule sum_bounded_above [where K = "71::nat", simplified])
  moreover have "card ?A \<le> card ?R" using sub by (intro card_mono) simp_all
  moreover have "card ?R \<le> ntasks L"
    using card_Un_le [of "{v. Q v \<in> set (L Running)}" "{v. Q v \<in> set (L Backup)}"] card_Q [of "L Running"] card_Q [of "L Backup"]
    unfolding ntasks_def by linarith
  ultimately show ?thesis unfolding pending_def by linarith
qed

lemma round_ok:
  assumes inv: "sched_inv W L s" and f: "ntasks L < fuel"
  shows "\<exists>s1 s' L'. systick fuel s = Inr s1 \<and> tail_sched fuel s1 = Inr s' \<and> sched_inv W L' s' \<and> ntasks L' = ntasks L \<and>
    (\<forall>u. ready L' u \<longleftrightarrow> ready L u) \<and>
    (running L - {current s} \<subseteq> running L' \<and> pending L' s' < pending L s \<or>
     running L \<subseteq> {current s} \<and> (\<forall>u. ready L u \<longrightarrow> u \<in> running L'))"
proof -
  let ?c = "current s"
  obtain s1 L1 where s1: "systick fuel s = Inr s1" "sched_inv W L1 s1" "ntasks L1 = ntasks L" "current s1 = ?c"
    "\<forall>u. ready L1 u \<longleftrightarrow> ready L u" "\<forall>u. u \<noteq> ?c \<longrightarrow> tasks s1 u = tasks s u"
    "if t_slice (tasks s ?c) = 0
     then set (L1 Running) = set (L Running) - {Q ?c} \<and> t_needsched (tasks s1 ?c)
     else L1 = L \<and> t_slice (tasks s1 ?c) = t_slice (tasks s ?c) - 1"
    using systick_ok [OF inv f] by blast
  obtain s2 L2 where s2: "tail_sched fuel s1 = Inr s2" "sched_inv W L2 s2" "ntasks L2 = ntasks L1" "\<forall>u. ready L2 u = ready L1 u"
    "t_needsched (tasks s1 ?c) \<longrightarrow> (\<exists>ps. L2 Running = Q (current s2) # ps) \<and>
      (L1 Running \<noteq> [] \<longrightarrow> L2 = L1 \<and> (\<forall>u. t_slice (tasks s2 u) = t_slice (tasks s1 u))) \<and>
      (L1 Running = [] \<longrightarrow> L2 Running = L1 Backup)"
    "\<not> t_needsched (tasks s1 ?c) \<longrightarrow> s2 = s1 \<and> L2 = L1"
    using tail_sched_ok [OF s1(2), of fuel, unfolded s1(3,4), OF f] s1(3) by auto
  have run1: "running L - {?c} \<subseteq> running L1" using s1(7) by (auto simp: running_def split: if_splits)
  have "running L - {?c} \<subseteq> running L2 \<and> pending L2 s2 < pending L s \<or>
     running L \<subseteq> {?c} \<and> (\<forall>u. ready L u \<longrightarrow> u \<in> running L2)"
  proof (cases "t_needsched (tasks s1 ?c) \<and> L1 Running = []")
    case True
    then have "\<forall>u. ready L u \<longrightarrow> u \<in> running L2" using s1(5) s2(5) by (auto simp: ready_def running_def)
    moreover have "running L1 = {}" using True by (simp add: running_def)
    ultimately show ?thesis using run1 by blast
  next
    case nswap: False
    have L2: "L2 = L1" using nswap s2(5,6) by blast
    have sl: "t_slice (tasks s2 u) = t_slice (tasks s1 u)" for u using nswap s2(5,6) by metis
    have cur: "current s2 = ?c \<or> current s2 \<in> running L1"
      using nswap s2(5,6) s1(4) L2 by (auto simp: running_def)
    have "pending L2 s2 < pending L s"
    proof (cases "t_slice (tasks s ?c) = 0")
      case True
      then have r1: "running L1 = running L - {?c}" "t_needsched (tasks s1 ?c)" using s1(7) by (auto simp: running_def)
      have "current s2 \<in> running L1" using nswap r1(2) s2(5) L2 by (auto simp: running_def)
      then have "pending L2 s2 = work (running L - {?c}) s2" by (simp add: pending_def L2 r1 insert_absorb)
      also have "\<dots> = work (running L - {?c}) s" by (rule work_cong) (simp add: sl s1(6))
      also have "\<dots> < work (insert ?c (running L)) s" by (simp add: work_insert_Diff)
      finally show ?thesis by (simp add: pending_def)
    next
      case False
      then have r1: "L1 = L" "t_slice (tasks s1 ?c) = t_slice (tasks s ?c) - 1" using s1(7) by auto
      let ?A = "running L - {?c}"
      have "pending L2 s2 \<le> work (insert ?c ?A) s2"
        unfolding pending_def L2 r1 by (rule work_mono) (use cur r1 in auto)
      also have "\<dots> = work ?A s2 + unat (t_slice (tasks s ?c) - 1) + 1" by (simp add: work_insert_Diff sl r1)
      also have "work ?A s2 = work ?A s" by (rule work_cong) (simp add: sl s1(6))
      also have "work ?A s + unat (t_slice (tasks s ?c) - 1) + 1 < work (insert ?c (running L)) s"
        using False by (simp add: work_insert_Diff unat_minus_one unat_gt_0)
      finally show ?thesis by (simp add: pending_def)
    qed
    then show ?thesis using run1 L2 by blast
  qed
  then show ?thesis using s1 s2 by (intro exI [of _ s1] exI [of _ s2] exI [of _ L2]) simp
qed

lemma running_served:
  assumes "sched_inv W L s" "ntasks L < fuel" "u \<in> running L"
  shows "\<exists>n\<le>pending L s. \<exists>s'. rounds fuel n s = Inr s' \<and> current s' = u"
  using assms
proof (induction "pending L s" arbitrary: s L rule: less_induct)
  case less
  show ?case
  proof (cases "current s = u")
    case True
    then show ?thesis by (intro exI [of _ 0]) simp
  next
    case False
    obtain s1 s2 L2 where r: "systick fuel s = Inr s1" "tail_sched fuel s1 = Inr s2" "sched_inv W L2 s2" "ntasks L2 = ntasks L"
      "running L - {current s} \<subseteq> running L2 \<and> pending L2 s2 < pending L s \<or> running L \<subseteq> {current s}"
      using round_ok [OF less.prems(1,2)] by blast
    then have "u \<in> running L2" "pending L2 s2 < pending L s" using False less.prems(3) by auto
    then obtain n s' where "n \<le> pending L2 s2" "rounds fuel n s2 = Inr s'" "current s' = u"
      using less.hyps [of L2 s2] r(3,4) less.prems(2) by auto
    then show ?thesis using r(1,2) \<open>pending L2 s2 < pending L s\<close> by (intro exI [of _ "Suc n"]) simp
  qed
qed

lemma ready_served:
  assumes "sched_inv W L s" "ntasks L < fuel" "ready L u"
  shows "\<exists>n\<le>pending L s + 71 * ntasks L. \<exists>s'. rounds fuel n s = Inr s' \<and> current s' = u"
  using assms
proof (induction "pending L s" arbitrary: s L rule: less_induct)
  case less
  show ?case
  proof (cases "u \<in> running L")
    case True
    then show ?thesis using running_served [OF less.prems(1,2)] by (meson le_add1 le_trans)
  next
    case False
    obtain s1 s2 L2 where r: "systick fuel s = Inr s1" "tail_sched fuel s1 = Inr s2" "sched_inv W L2 s2" "ntasks L2 = ntasks L"
      "\<forall>u. ready L2 u \<longleftrightarrow> ready L u" "pending L2 s2 < pending L s \<or> (\<forall>u. ready L u \<longrightarrow> u \<in> running L2)"
      using round_ok [OF less.prems(1,2)] by blast
    have "\<exists>n<pending L s + 71 * ntasks L. \<exists>s'. rounds fuel n s2 = Inr s' \<and> current s' = u"
    proof (cases "u \<in> running L2")
      case True
      then have "\<exists>n\<le>71 * ntasks L. \<exists>s'. rounds fuel n s2 = Inr s' \<and> current s' = u"
        using running_served [OF r(3), of fuel u] pending_bound [OF r(3)] r(4) less.prems(2) by (metis le_trans)
      moreover have "0 < pending L s" unfolding pending_def work_def by (simp add: sum_pos)
      ultimately show ?thesis by (metis add_gr_0 less_add_same_cancel2 order_le_less_trans)
    next
      case False
      then have p: "pending L2 s2 < pending L s" using r(6) less.prems(3) by blast
      show ?thesis using less.hyps [OF p r(3)] r(4,5) less.prems(2,3) p
        by (metis add_less_cancel_right order_le_less_trans)
    qed
    then obtain n where n: "n < pending L s + 71 * ntasks L" "\<exists>s'. rounds fuel n s2 = Inr s' \<and> current s' = u" by blast
    then show ?thesis using r(1,2) by (intro exI [of _ "Suc n"]) simp
  qed
qed

text \<open>
  C12: No ready task starves: a task in the running queue or in the backup queue becomes the current
  one within 142 timer interrupts per task in the system, whatever the priorities and time slices,
  when only the clock drives the scheduler.
\<close>

theorem rounds_serve_ready:
  assumes "sched_inv W L s" "ntasks L < fuel" "ready L u"
  shows "\<exists>n\<le>142 * ntasks L. \<exists>s'. rounds fuel n s = Inr s' \<and> current s' = u"
proof -
  obtain n s' where "n \<le> pending L s + 71 * ntasks L" "rounds fuel n s = Inr s'" "current s' = u"
    using ready_served [OF assms] by blast
  moreover have "pending L s + 71 * ntasks L \<le> 142 * ntasks L" using pending_bound [OF assms(1)] by simp
  ultimately show ?thesis by (metis le_trans)
qed

section \<open>Booting\<close>

text \<open>The static list heads and some initialised wait queues, before \<^verbatim>\<open>sched_init\<close>.\<close>

definition boot_kernel :: "nat set \<Rightarrow> kernel" where
  "boot_kernel W = \<lparr>tasks = (\<lambda>_. zero_task),
     links = (\<lambda>x. if x \<in> qheads W then \<lparr>lprev = Some x, lnext = Some x\<rparr> else \<lparr>lprev = None, lnext = None\<rparr>),
     current = 0, freepid = 0\<rparr>"

definition boot_queues :: "qnode \<Rightarrow> qnode list" where
  "boot_queues = (\<lambda>_. [])(Running := [Q 0])"

lemma boot_rings: "rings UNIV (qheads W) (\<lambda>_. []) (links (boot_kernel W))"
  by (simp add: rings_def ring_def members_def boot_kernel_def check_node_outoflist_def check_node_inlist_def)

lemma ntasks_boot: "ntasks boot_queues = 1"
  by (simp add: ntasks_def boot_queues_def)

lemma sched_init_ok: "\<exists>s. sched_init (Suc fuel) 0 (boot_kernel W) = Inr s \<and> sched_inv W boot_queues s \<and> current s = 0"
proof -
  let ?r = "zero_task\<lparr>t_pid := 0, t_pri_init := 100, t_slice := 1, t_slice_init := 1\<rparr>"
  define s0 where "s0 = (upd_task 0 (\<lambda>_. ?r) (boot_kernel W))\<lparr>freepid := 1, current := 0\<rparr>"
  obtain r where r: "task_schedinfo_modify 0 s0 = Inr (upd_task 0 (\<lambda>_. r) s0)" "slice_ok r" "t_pid r = 0"
    using schedinfo_ok [of s0 0] by (auto simp: s0_def upd_task_def slice_ok_def)
  define s1 where "s1 = upd_task 0 (\<lambda>_. r) s0"
  have l1: "links s1 = links (boot_kernel W)" by (simp add: s1_def s0_def upd_task_def)
  obtain h where h: "list_add_comp (Suc fuel) (task_pri_comp (tasks s1)) (Q 0) Running (links s1) = Inr h"
    "rings UNIV (qheads W) boot_queues h"
    using rings_add_comp [OF boot_rings, of Running W "Q 0" "Suc fuel" "task_pri_comp (tasks s1)"]
    unfolding l1 by (auto simp: members_def boot_queues_def comp_insert_def)
  have "sched_init (Suc fuel) 0 (boot_kernel W) = Inr (s1\<lparr>links := h\<rparr>)"
    using r(1) h(1) by (simp add: sched_init_def s0_def boot_kernel_def upd_task_def s1_def)
  moreover have "sched_inv W boot_queues (s1\<lparr>links := h\<rparr>)"
    using h(2) r by (auto simp: sched_inv_def queues_ok_def tasks_ok_def boot_queues_def ready_def queued_def
        s1_def s0_def upd_task_def)
  ultimately show ?thesis by (auto simp: s1_def s0_def upd_task_def)
qed

definition booted :: "nat set \<Rightarrow> kernel" where
  "booted W = (case sched_init 1 0 (boot_kernel W) of Inr s \<Rightarrow> s | Inl _ \<Rightarrow> boot_kernel W)"

lemma booted_ok: "sched_inv W boot_queues (booted W)" "current (booted W) = 0"
  using sched_init_ok [of 0 W] by (auto simp: booted_def)


theorem rounds_serve_ready_witness:
  "\<exists>s. kernel_thread 3 1 (booted {}) = Inr s \<and> (\<exists>n\<le>284. \<exists>s'. rounds 3 n s = Inr s' \<and> current s' = 1)"
proof -
  have "\<not> queued {} boot_queues 1" by (simp add: queued_def boot_queues_def)
  then obtain s L where s: "kernel_thread 3 1 (booted {}) = Inr s" "sched_inv {} L s" "ntasks L = 2" "ready L 1"
    using kernel_thread_ok [OF booted_ok(1) [of "{}"], of 3 1] by (auto simp: ntasks_boot)
  then show ?thesis using rounds_serve_ready [OF s(2), of 3 1] by simp
qed

end
