(* ===== verification/Sem.thy ===== *)
theory Sem
  imports Sched
begin

text \<open>
  The counting semaphores of \<^verbatim>\<open>core/sem.c\<close> on the scheduler. A call that blocks switches to another
  task: \<^verbatim>\<open>sem_wait\<close> is split into the part up to the switch and the return value computed when the
  task runs again. The ticket is an integer: it is never above \<^verbatim>\<open>max_ticket\<close>, and never below minus
  the number of waiting tasks. On the one processor of the model the spin lock does nothing.
\<close>

section \<open>The code\<close>

record sem =
  sem_wq :: nat
  ticket :: int
  max_ticket :: int

datatype sem_ret = MLD_RET_OK | MLD_RET_TIMEOUT

definition sem_init :: "nat \<Rightarrow> int \<Rightarrow> kernel \<Rightarrow> sem \<times> kernel" where
  "sem_init q n s = (\<lparr>sem_wq = q, ticket = 0, max_ticket = n\<rparr>, waitqueue_init q s)"

definition sem_signal :: "nat \<Rightarrow> sem \<Rightarrow> kernel \<Rightarrow> (sem \<times> kernel) res" where
  "sem_signal fuel m s =
     bindE (if ticket m < 0 then
              bindE (assertE (\<not> check_list_empty (WQ (sem_wq m)) (links s))) (\<lambda>_.
              (case lnext (links s (WQ (sem_wq m))) of
                 Some (Wt t) \<Rightarrow> wakeup_task fuel t WU_REASON_WAKEUP s
               | _ \<Rightarrow> Inl Fault))
            else Inr s) (\<lambda>s.
     Inr (if ticket m < max_ticket m then m\<lparr>ticket := ticket m + 1\<rparr> else m, s))"

definition sem_wait :: "nat \<Rightarrow> u32 \<Rightarrow> sem \<Rightarrow> kernel \<Rightarrow> (sem \<times> kernel) res" where
  "sem_wait fuel tmo m s =
     (let m = m\<lparr>ticket := ticket m - 1\<rparr>
      in if ticket m < 0 then bindE (wait_task fuel (current s) (sem_wq m) tmo s) (\<lambda>s. Inr (m, s))
         else Inr (m, s))"

definition sem_wait_return :: "nat \<Rightarrow> kernel \<Rightarrow> sem_ret" where
  "sem_wait_return t s = (if t_wu_r (tasks s t) = WU_REASON_TIMEOUT then MLD_RET_TIMEOUT else MLD_RET_OK)"

section \<open>The abstract semaphore\<close>

text \<open>A count of free tickets and the queue of the tasks that wait, first come first served.\<close>

record asem =
  count :: nat
  waiters :: "nat list"

definition asem_v :: "nat \<Rightarrow> asem \<Rightarrow> asem" where
  "asem_v n a = (case waiters a of [] \<Rightarrow> a\<lparr>count := min (count a + 1) n\<rparr> | t # ts \<Rightarrow> a\<lparr>waiters := ts\<rparr>)"

definition asem_p :: "nat \<Rightarrow> asem \<Rightarrow> asem" where
  "asem_p t a = (if 0 < count a then a\<lparr>count := count a - 1\<rparr> else a\<lparr>waiters := waiters a @ [t]\<rparr>)"

definition wt_task :: "qnode \<Rightarrow> nat" where
  "wt_task x = (case x of Wt t \<Rightarrow> t | _ \<Rightarrow> 0)"

definition sem_abs :: "(qnode \<Rightarrow> qnode list) \<Rightarrow> sem \<Rightarrow> asem" where
  "sem_abs L m = \<lparr>count = nat (ticket m), waiters = map wt_task (L (WQ (sem_wq m)))\<rparr>"

definition sem_ok :: "nat set \<Rightarrow> (qnode \<Rightarrow> qnode list) \<Rightarrow> sem \<Rightarrow> bool" where
  "sem_ok W L m \<longleftrightarrow> sem_wq m \<in> W \<and> 0 \<le> max_ticket m \<and> ticket m \<le> max_ticket m \<and>
     int (length (L (WQ (sem_wq m)))) = max 0 (- ticket m)"

lemma wt_task_Wt [simp]: "wt_task (Wt t) = t"
  by (simp add: wt_task_def)

lemma sem_signal_ok:
  assumes inv: "sched_inv W L s" and m: "sem_ok W L m" and f: "ntasks L < fuel"
  shows "\<exists>m' s' L'. sem_signal fuel m s = Inr (m', s') \<and> sched_inv W L' s' \<and> sem_ok W L' m' \<and>
    sem_wq m' = sem_wq m \<and> max_ticket m' = max_ticket m \<and> current s' = current s \<and>
    (\<forall>j\<in>W. j \<noteq> sem_wq m \<longrightarrow> L' (WQ j) = L (WQ j)) \<and>
    sem_abs L' m' = asem_v (nat (max_ticket m)) (sem_abs L m) \<and>
    (\<forall>u. ready L' u \<longleftrightarrow> ready L u \<or> u \<in> set (take 1 (waiters (sem_abs L m)))) \<and>
    (\<forall>u\<in>set (take 1 (waiters (sem_abs L m))). sem_wait_return u s' = MLD_RET_OK)"
proof -
  let ?q = "sem_wq m"
  have q: "queues_ok W L (links s)" "tasks_ok W L s" "ready L (current s)" using inv by (simp_all add: sched_inv_def)
  have w: "?q \<in> W" "0 \<le> max_ticket m" "ticket m \<le> max_ticket m" "int (length (L (WQ ?q))) = max 0 (- ticket m)"
    using m by (simp_all add: sem_ok_def)
  show ?thesis
  proof (cases "ticket m < 0")
    case True
    then have ne: "\<not> check_list_empty (WQ ?q) (links s)"
      using w lh.is_empty [OF queues_okD(1) [OF q(1)], of "WQ ?q"] by auto
    obtain t ts where t: "L (WQ ?q) = Wt t # ts" "lnext (links s (WQ ?q)) = Some (Wt t)" "Q t \<in> set (L Waiting)"
      using first_waiter [OF q(1) w(1) ne] by blast
    obtain s' L' where s': "wakeup_task fuel t WU_REASON_WAKEUP s = Inr s'" "queues_ok W L' (links s')" "tasks_ok W L' s'"
      "ntasks L' = ntasks L" "current s' = current s" "\<forall>u. ready L' u \<longleftrightarrow> ready L u \<or> u = t"
      "\<forall>i\<in>W. L' (WQ i) = remove1 (Wt t) (L (WQ i))" "t_wu_r (tasks s' t) = WU_REASON_WAKEUP"
      using wakeup_ok [OF q(1,2) f t(3)] by blast
    have other: "L' (WQ j) = L (WQ j)" if "j \<in> W" "j \<noteq> ?q" for j
      using queues_apart [OF q(1), of "WQ ?q" "WQ j" "Wt t"] that w(1) t(1) s'(7) by (simp add: remove1_idem)
    have own: "L' (WQ ?q) = ts" using s'(7) w(1) t(1) by simp
    let ?m = "m\<lparr>ticket := ticket m + 1\<rparr>"
    have res: "sem_signal fuel m s = Inr (?m, s')"
      using True w ne t(2) s'(1) by (simp add: sem_signal_def)
    have "sched_inv W L' s'" using s'(2,3,5,6) q(3) by (simp add: sched_inv_def)
    moreover have "sem_ok W L' ?m" using w t(1) own True by (simp add: sem_ok_def)
    moreover have "sem_abs L' ?m = asem_v (nat (max_ticket m)) (sem_abs L m)"
      using True t(1) own by (simp add: sem_abs_def asem_v_def)
    ultimately show ?thesis using res s'(5,6,8) other t(1)
      by (intro exI [of _ ?m] exI [of _ s'] exI [of _ L'])
         (simp add: sem_abs_def sem_wait_return_def)
  next
    case False
    then have nil: "L (WQ ?q) = []" using w by simp
    let ?m = "if ticket m < max_ticket m then m\<lparr>ticket := ticket m + 1\<rparr> else m"
    have "sem_signal fuel m s = Inr (?m, s)" using False by (simp add: sem_signal_def)
    moreover have "sem_abs L ?m = asem_v (nat (max_ticket m)) (sem_abs L m)"
      using nil False w by (auto simp: sem_abs_def asem_v_def)
    moreover have "sem_ok W L ?m" using w nil False by (auto simp: sem_ok_def)
    ultimately show ?thesis using nil inv
      by (intro exI [of _ ?m] exI [of _ s] exI [of _ L]) (simp add: sem_abs_def)
  qed
qed

lemma sem_wait_ok:
  assumes inv: "sched_inv W L s" and m: "sem_ok W L m" and f: "ntasks L < fuel" and c: "current s \<noteq> 0"
  shows "\<exists>m' s' L'. sem_wait fuel TIMEOUT_INFINIT m s = Inr (m', s') \<and> sched_inv W L' s' \<and> sem_ok W L' m' \<and>
    sem_wq m' = sem_wq m \<and> max_ticket m' = max_ticket m \<and>
    (\<forall>j\<in>W. j \<noteq> sem_wq m \<longrightarrow> L' (WQ j) = L (WQ j)) \<and>
    sem_abs L' m' = asem_p (current s) (sem_abs L m) \<and>
    (0 < ticket m \<longrightarrow> s' = s) \<and> (ticket m \<le> 0 \<longrightarrow> current s' \<noteq> current s)"
proof -
  let ?q = "sem_wq m" and ?m = "m\<lparr>ticket := ticket m - 1\<rparr>"
  have w: "?q \<in> W" "0 \<le> max_ticket m" "ticket m \<le> max_ticket m" "int (length (L (WQ ?q))) = max 0 (- ticket m)"
    using m by (simp_all add: sem_ok_def)
  show ?thesis
  proof (cases "0 < ticket m")
    case True
    then have "sem_wait fuel TIMEOUT_INFINIT m s = Inr (?m, s)" by (simp add: sem_wait_def Let_def)
    moreover have "sem_ok W L ?m" using w True by (simp add: sem_ok_def)
    moreover have "sem_abs L ?m = asem_p (current s) (sem_abs L m)"
      using True by (simp add: sem_abs_def asem_p_def nat_diff_distrib)
    ultimately show ?thesis using inv True by (intro exI [of _ ?m] exI [of _ s] exI [of _ L]) simp
  next
    case False
    obtain s' L' where s': "wait_task fuel (current s) ?q TIMEOUT_INFINIT s = Inr s'" "sched_inv W L' s'"
      "\<forall>v. ready L' v \<longleftrightarrow> ready L v \<and> v \<noteq> current s"
      "\<forall>j\<in>W. L' (WQ j) = L (WQ j) @ (if j = ?q then [Wt (current s)] else [])"
      using wait_task_ok [OF inv f c w(1)] by blast
    have "current s' \<noteq> current s" using s'(2,3) by (auto simp: sched_inv_def)
    moreover have "sem_wait fuel TIMEOUT_INFINIT m s = Inr (?m, s')"
      using False s'(1) by (simp add: sem_wait_def Let_def)
    moreover have "sem_ok W L' ?m" using w False s'(4) by (simp add: sem_ok_def)
    moreover have "sem_abs L' ?m = asem_p (current s) (sem_abs L m)"
      using False s'(4) w(1) by (simp add: sem_abs_def asem_p_def)
    ultimately show ?thesis using s'(2,4) False by (intro exI [of _ ?m] exI [of _ s'] exI [of _ L']) simp
  qed
qed

text \<open>
  C7: \<^verbatim>\<open>sem_signal\<close> and \<^verbatim>\<open>sem_wait\<close> without a timeout implement the counting semaphore with a
  first-come-first-served queue, on any state of the scheduler: a signal makes the task that waits
  longest ready, or adds a ticket up to the maximum; a wait takes a ticket and returns, or puts the
  current task last in the queue and runs another one.
\<close>

theorem sem_refines:
  assumes "sched_inv W L s" "sem_ok W L m" "ntasks L < fuel"
  shows "(\<exists>m' s' L'. sem_signal fuel m s = Inr (m', s') \<and> sched_inv W L' s' \<and> sem_ok W L' m' \<and>
      sem_abs L' m' = asem_v (nat (max_ticket m)) (sem_abs L m) \<and>
      (\<forall>u. ready L' u \<longleftrightarrow> ready L u \<or> u \<in> set (take 1 (waiters (sem_abs L m))))) \<and>
    (current s \<noteq> 0 \<longrightarrow> (\<exists>m' s' L'. sem_wait fuel TIMEOUT_INFINIT m s = Inr (m', s') \<and> sched_inv W L' s' \<and>
      sem_ok W L' m' \<and> sem_abs L' m' = asem_p (current s) (sem_abs L m) \<and>
      (if 0 < ticket m then s' = s else current s' \<noteq> current s)))"
  using sem_signal_ok [OF assms] sem_wait_ok [OF assms]
  by (intro conjI impI) (blast, metis linorder_not_less)

section \<open>Timeouts\<close>

lemma queue_ring: "queues_ok W L h \<Longrightarrow> a \<in> qheads W \<Longrightarrow> ring h a (L a)"
  using queues_okD(1) [of W L h] by (simp add: rings_def)

text \<open>A wait that times out leaves the ticket taken: the next signal finds nobody to wake.\<close>


lemma tick_walk_running:
  "queues_ok W L (links s) \<Longrightarrow> ntasks L < fuel \<Longrightarrow> L Running = xs @ ys \<Longrightarrow>
     \<exists>e. tick_walk fuel n (Some (hd (ys @ [Running]))) s = Inl e"
proof (induction ys arbitrary: s n xs)
  case Nil
  then show ?case by (cases n) auto
next
  case (Cons y ys)
  note q = Cons.prems(1)
  obtain u where u: "y = Q u" using queues_okD(3) [OF q, of y] Cons.prems(3) by auto
  show ?case
  proof (cases n)
    case (Suc m)
    have "ring (links s) Running (xs @ y # ys)" using queue_ring [OF q, of Running] Cons.prems(3) by simp
    then have nx: "lnext (links s (Q u)) = Some (hd (ys @ [Running]))"
      using linked_app [of "Running # xs @ [y]" "ys @ [Running]" "links s"] by (simp add: ring_def u)
    have IH: "\<exists>e. tick_walk fuel m (Some (hd (ys @ [Running]))) s' = Inl e" if "links s' = links s" for s'
      using Cons.IH [of s' "xs @ [y]" m] Cons.prems that by simp
    show ?thesis
    proof (cases "t_timeout (tasks s u) = 0")
      case True
      have "Q u \<notin> set (L Waiting)"
        using queues_apart [OF q, of Running Waiting "Q u"] Cons.prems(3) u by auto
      then have nw: "Wt u \<notin> members (qheads W) L" using member_Q(2) [OF q] by simp
      obtain h1 where h1: "list_remove (Q u) (links s) = Inr h1" "rings UNIV (qheads W) (L(Running := remove1 (Q u) (L Running))) h1"
        using lh.remove [OF queues_okD(1) [OF q], of Running "Q u"] Cons.prems(3) u by auto
      have n1: "Q u \<notin> members (qheads W) (L(Running := remove1 (Q u) (L Running)))"
        using lh.removed_not_member(2) [OF queues_okD(1) [OF q], of Running "Q u"] Cons.prems(3) u by auto
      have "length (remove1 (Q u) (L Running)) < fuel"
        using Cons.prems(2) length_remove1 [of "Q u" "L Running"] by (auto simp: ntasks_def split: if_splits)
      then obtain h2 L2 where h2: "list_add_comp fuel (task_pri_comp (tasks s)) (Q u) Running h1 = Inr h2"
        "rings UNIV (qheads W) L2 h2" "\<forall>a. a \<noteq> Running \<longrightarrow> L2 a = L a" "set (L2 Running) \<subseteq> insert (Q u) (set (L Running))"
        using rings_add_comp [OF h1(2), of Running "Q u" fuel "task_pri_comp (tasks s)"] n1 notin_set_remove1
        by fastforce
      have "Wt u \<notin> members (qheads W) L2"
        using nw h2(3,4) by (auto simp: members_def) (metis qheads_simps(1) insert_iff qnode.distinct(1) subset_iff)
      then have "list_remove (Wt u) h2 = Inl Die"
        using rings_outoflist_iff [OF h2(2), of "Wt u"] by (simp add: list_remove_def check_node_outoflist_def)
      then show ?thesis using True u Suc h1(1) h2(1)
        by (simp add: tick_one_def wakeup_task_def TIMEOUT_INFINIT_def)
    next
      case False
      then show ?thesis using u Suc nx IH by (simp add: tick_one_def upd_task_def)
    qed
  qed simp
qed

lemma tick_walk_waiting:
  "queues_ok W L (links s) \<Longrightarrow> ntasks L < fuel \<Longrightarrow> L Waiting = xs @ ys \<Longrightarrow> Q t \<in> set ys \<Longrightarrow>
     t_timeout (tasks s t) = 0 \<Longrightarrow> \<exists>e. tick_walk fuel n (Some (hd (ys @ [Waiting]))) s = Inl e"
proof (induction ys arbitrary: s n xs)
  case (Cons y ys)
  note q = Cons.prems(1)
  obtain u where u: "y = Q u" using queues_okD(3) [OF q, of y] Cons.prems(3) by auto
  show ?case
  proof (cases n)
    case (Suc m)
    have ring: "ring (links s) Waiting (xs @ y # ys)" using queue_ring [OF q, of Waiting] Cons.prems(3) by simp
    then have nx: "lnext (links s (Q u)) = Some (hd (ys @ [Waiting]))"
      using linked_app [of "Waiting # xs @ [y]" "ys @ [Waiting]" "links s"] by (simp add: ring_def u)
    show ?thesis
    proof (cases "t_timeout (tasks s u) = 0")
      case True
      have "Q u \<in> set (L Waiting)" using Cons.prems(3) u by simp
      then obtain s' L' where s': "wakeup_task fuel u WU_REASON_TIMEOUT s = Inr s'" "queues_ok W L' (links s')"
        "ntasks L' = ntasks L" "L' Running = comp_insert (task_pri_comp (tasks s)) (Q u) (L Running)"
        using wakeup_queues [OF q Cons.prems(2)] by blast
      define s2 where "s2 = upd_task u (\<lambda>x. x\<lparr>t_timeout := t_timeout x - 1\<rparr>) s'"
      have l2: "links s2 = links s'" by (simp add: s2_def upd_task_def)
      obtain as bs where ab: "L' Running = as @ Q u # bs" using s'(4) by (auto simp: comp_insert_def)
      have "ring (links s2) Running (as @ Q u # bs)" using queue_ring [OF s'(2), of Running] ab l2 by simp
      then have "lnext (links s2 (Q u)) = Some (hd (bs @ [Running]))"
        using linked_app [of "Running # as @ [Q u]" "bs @ [Running]" "links s2"] by (simp add: ring_def)
      moreover have "\<exists>e. tick_walk fuel m (Some (hd (bs @ [Running]))) s2 = Inl e"
        using tick_walk_running [of W L' s2 fuel "as @ [Q u]" bs m] s'(2,3) ab l2 Cons.prems(2) by simp
      moreover have "tick_one fuel u s = Inr s2"
        using True s'(1) by (simp add: tick_one_def TIMEOUT_INFINIT_def s2_def)
      ultimately show ?thesis using u Suc by simp
    next
      case False
      then have ut: "u \<noteq> t" using Cons.prems(5) by auto
      obtain s' where s': "tick_one fuel u s = Inr s'" "links s' = links s" "t_timeout (tasks s' t) = 0"
        using False Cons.prems(5) ut by (cases "t_timeout (tasks s u) = TIMEOUT_INFINIT") (auto simp: tick_one_def upd_task_def)
      have "\<exists>e. tick_walk fuel m (Some (hd (ys @ [Waiting]))) s' = Inl e"
        using Cons.IH [of s' "xs @ [y]" m] Cons.prems ut u s'(2,3) by simp
      then show ?thesis using u Suc nx s'(1,2) by simp
    qed
  qed simp
qed simp

text \<open>
  A timeout that runs out is fatal: once the ticks left of some waiting task are 0, the walk of
  \<^verbatim>\<open>systick\<close> over the waiting tasks does not return, because the link it follows after the wakeup
  leads from the waiting list into the running list, whose head is not a task.
\<close>

lemma systick_walk_timeout:
  assumes "queues_ok W L (links s)" "ntasks L < fuel" "Q t \<in> set (L Waiting)" "t_timeout (tasks s t) = 0"
  shows "\<exists>e. tick_walk fuel fuel (lnext (links s Waiting)) s = Inl e"
proof -
  have "ring (links s) Waiting (L Waiting)" using queue_ring [OF assms(1), of Waiting] by simp
  then have "lnext (links s Waiting) = Some (hd (L Waiting @ [Waiting]))"
    using linked_app [of "[Waiting]" "L Waiting @ [Waiting]" "links s"] by (simp add: ring_def)
  then show ?thesis using tick_walk_waiting [OF assms(1,2), of "[]" "L Waiting" t] assms(3,4) by simp
qed

section \<open>Witnesses\<close>

definition bin_sem :: "int \<Rightarrow> sem" where
  "bin_sem t = \<lparr>sem_wq = 0, ticket = t, max_ticket = 1\<rparr>"

text \<open>A thread beside the idle task, and that thread waiting in the queue of a semaphore.\<close>

lemma thread_state:
  "\<exists>s L. kernel_thread 3 1 (booted {0}) = Inr s \<and> sched_inv {0} L (s\<lparr>current := 1\<rparr>) \<and> ntasks L = 2 \<and> L (WQ 0) = []"
proof -
  have "\<not> queued {0} boot_queues 1" by (simp add: queued_def boot_queues_def)
  then obtain s L where s: "kernel_thread 3 1 (booted {0}) = Inr s" "sched_inv {0} L s" "ntasks L = 2" "ready L 1"
    "\<forall>a. a \<noteq> Running \<longrightarrow> L a = boot_queues a"
    using kernel_thread_ok [OF booted_ok(1) [of "{0}"], of 3 1] by (auto simp: ntasks_boot)
  then have "sched_inv {0} L (s\<lparr>current := 1\<rparr>)" by (simp add: sched_inv_def tasks_ok_def)
  then show ?thesis using s by (intro exI [of _ s] exI [of _ L]) (simp add: boot_queues_def)
qed

lemma waiting_state:
  "\<exists>s s' L. kernel_thread 3 1 (booted {0}) = Inr s \<and> wait_task 3 1 0 TIMEOUT_INFINIT (s\<lparr>current := 1\<rparr>) = Inr s' \<and>
    sched_inv {0} L s' \<and> ntasks L = 2 \<and> L (WQ 0) = [Wt 1]"
proof -
  obtain s L where s: "kernel_thread 3 1 (booted {0}) = Inr s" "sched_inv {0} L (s\<lparr>current := 1\<rparr>)" "ntasks L = 2" "L (WQ 0) = []"
    using thread_state by blast
  then show ?thesis using wait_task_ok [OF s(2), of 3 0] by auto
qed

theorem sem_refines_witness:
  "\<exists>s m' s' L'. kernel_thread 3 1 (booted {0}) = Inr s \<and>
    sem_wait 3 TIMEOUT_INFINIT (bin_sem 0) (s\<lparr>current := 1\<rparr>) = Inr (m', s') \<and>
    sem_abs L' m' = \<lparr>count = 0, waiters = [1]\<rparr> \<and> current s' \<noteq> 1"
proof -
  obtain s L where s: "kernel_thread 3 1 (booted {0}) = Inr s" "sched_inv {0} L (s\<lparr>current := 1\<rparr>)" "ntasks L = 2" "L (WQ 0) = []"
    using thread_state by blast
  then have "sem_ok {0} L (bin_sem 0)" by (simp add: sem_ok_def bin_sem_def)
  moreover have "asem_p 1 (sem_abs L (bin_sem 0)) = \<lparr>count = 0, waiters = [1]\<rparr>" "ticket (bin_sem 0) = 0"
    using s(4) by (simp_all add: asem_p_def sem_abs_def bin_sem_def)
  ultimately show ?thesis using sem_refines [OF s(2), of "bin_sem 0" 3] s(1,3) by auto
qed


end
