(* ===== verification/Avl.thy ===== *)
theory Avl
  imports Prelude "HOL-Library.Tree"
begin

text \<open>
  The AVL trees of \<^verbatim>\<open>lib/avl/avl.c\<close>: nodes with pointers to the father and to the children and with
  the stored height of their subtree, changed in place. A pointer to a pointer (\<^verbatim>\<open>avln_t **\<close>) is a
  slot: the root variable or a child field of a node. The heights are natural numbers: they stay far
  below the range of \<^verbatim>\<open>unsigned\<close>. The comparison function is applied to its second argument already.
  The loops have fuel.
\<close>

section \<open>The code\<close>

datatype avlcr = AVLCMP_1LT2 | AVLCMP_1EQ2 | AVLCMP_1BT2 | AVLCMP_1IN2 | AVLCMP_2IN1 | AVLCMP_OVLP

datatype avlwt = AVLWT_LMR | AVLWT_LRM | AVLWT_MLR | AVLWT_MRL | AVLWT_RLM | AVLWT_RML

record 'p avln =
  f :: "'p option"
  lc :: "'p option"
  rc :: "'p option"
  subth :: nat

record 'p avls =
  nodes :: "'p \<Rightarrow> 'p avln"
  root :: "'p option"

datatype 'p slot = Root | LC 'p | RC 'p

fun slot_get :: "'p slot \<Rightarrow> 'p avls \<Rightarrow> 'p option" where
  "slot_get Root s = root s"
| "slot_get (LC n) s = lc (nodes s n)"
| "slot_get (RC n) s = rc (nodes s n)"

definition upd :: "'p \<Rightarrow> ('p avln \<Rightarrow> 'p avln) \<Rightarrow> 'p avls \<Rightarrow> 'p avls" where
  "upd n g s = s\<lparr>nodes := (nodes s)(n := g (nodes s n))\<rparr>"

fun slot_put :: "'p slot \<Rightarrow> 'p option \<Rightarrow> 'p avls \<Rightarrow> 'p avls" where
  "slot_put Root v s = s\<lparr>root := v\<rparr>"
| "slot_put (LC n) v s = upd n (\<lambda>x. x\<lparr>lc := v\<rparr>) s"
| "slot_put (RC n) v s = upd n (\<lambda>x. x\<lparr>rc := v\<rparr>) s"

text \<open>The height of a child and the update of a father pointer, with their \<^verbatim>\<open>NULL\<close> tests.\<close>

definition chh :: "'p option \<Rightarrow> 'p avls \<Rightarrow> nat" where
  "chh p s = (case p of None \<Rightarrow> 0 | Some c \<Rightarrow> subth (nodes s c))"

definition set_f :: "'p option \<Rightarrow> 'p option \<Rightarrow> 'p avls \<Rightarrow> 'p avls" where
  "set_f p v s = (case p of None \<Rightarrow> s | Some c \<Rightarrow> upd c (\<lambda>x. x\<lparr>f := v\<rparr>) s)"

definition avl_inbf :: "'p option \<Rightarrow> 'p avls \<Rightarrow> int res" where
  "avl_inbf node s =
     (case node of
        None \<Rightarrow> Inl Die
      | Some n \<Rightarrow> Inr (int (chh (lc (nodes s n)) s) - int (chh (rc (nodes s n)) s)))"

definition avl_rfh :: "'p \<Rightarrow> 'p avls \<Rightarrow> bool \<times> 'p avls" where
  "avl_rfh n s =
     (let oldh = subth (nodes s n);
          lch = chh (lc (nodes s n)) s;
          rch = chh (rc (nodes s n)) s;
          s = upd n (\<lambda>x. x\<lparr>subth := (if rch < lch then lch + 1 else rch + 1)\<rparr>) s
      in (1 < int lch - int rch \<or> int lch - int rch < - 1 \<or> oldh \<noteq> subth (nodes s n), s))"

definition avl_lr :: "'p slot \<Rightarrow> 'p avls \<Rightarrow> 'p avls res" where
  "avl_lr opn s =
     (case slot_get opn s of None \<Rightarrow> Inl Fault | Some r \<Rightarrow>
     (case rc (nodes s r) of None \<Rightarrow> Inl Fault | Some c \<Rightarrow>
        let s = upd c (\<lambda>x. x\<lparr>f := f (nodes s r)\<rparr>) s;
            s = upd r (\<lambda>x. x\<lparr>f := Some c\<rparr>) s;
            s = upd r (\<lambda>x. x\<lparr>rc := lc (nodes s c)\<rparr>) s;
            s = set_f (rc (nodes s r)) (Some r) s;
            s = snd (avl_rfh r s);
            s = upd c (\<lambda>x. x\<lparr>lc := Some r\<rparr>) s;
            s = snd (avl_rfh c s)
        in Inr (slot_put opn (Some c) s)))"

definition avl_rr :: "'p slot \<Rightarrow> 'p avls \<Rightarrow> 'p avls res" where
  "avl_rr opn s =
     (case slot_get opn s of None \<Rightarrow> Inl Fault | Some r \<Rightarrow>
     (case lc (nodes s r) of None \<Rightarrow> Inl Fault | Some c \<Rightarrow>
        let s = upd c (\<lambda>x. x\<lparr>f := f (nodes s r)\<rparr>) s;
            s = upd r (\<lambda>x. x\<lparr>f := Some c\<rparr>) s;
            s = upd r (\<lambda>x. x\<lparr>lc := rc (nodes s c)\<rparr>) s;
            s = set_f (lc (nodes s r)) (Some r) s;
            s = snd (avl_rfh r s);
            s = upd c (\<lambda>x. x\<lparr>rc := Some r\<rparr>) s;
            s = snd (avl_rfh c s)
        in Inr (slot_put opn (Some c) s)))"

definition father_slot :: "'p \<Rightarrow> 'p avls \<Rightarrow> 'p slot" where
  "father_slot cn s =
     (case f (nodes s cn) of
        None \<Rightarrow> Root
      | Some p \<Rightarrow> if lc (nodes s p) = Some cn then LC p else RC p)"

fun avl_ab :: "nat \<Rightarrow> 'p option \<Rightarrow> 'p avls \<Rightarrow> 'p avls res" where
  "avl_ab 0 wln s = Inl Stuck"
| "avl_ab (Suc fuel) None s = Inr s"
| "avl_ab (Suc fuel) (Some cn) s =
     (let (ch, s) = avl_rfh cn s
      in if \<not> ch then Inr s
         else let wln = f (nodes s cn)
              in bindE (avl_inbf (Some cn) s) (\<lambda>b.
                 if b < - 1 then
                   bindE (avl_inbf (rc (nodes s cn)) s) (\<lambda>b'.
                   bindE (if 0 < b' then avl_rr (RC cn) s else Inr s) (\<lambda>s.
                   bindE (avl_lr (father_slot cn s) s) (avl_ab fuel wln)))
                 else if 1 < b then
                   bindE (avl_inbf (lc (nodes s cn)) s) (\<lambda>b'.
                   bindE (if b' < 0 then avl_lr (LC cn) s else Inr s) (\<lambda>s.
                   bindE (avl_rr (father_slot cn s) s) (avl_ab fuel wln)))
                 else avl_ab fuel wln s))"

definition avl_ndcut :: "'p \<Rightarrow> 'p avls \<Rightarrow> 'p avls res" where
  "avl_ndcut rmnode s =
     bindE (case (lc (nodes s rmnode), rc (nodes s rmnode)) of
              (None, None) \<Rightarrow> Inr None
            | (None, Some r) \<Rightarrow> Inr (Some r)
            | (Some l, None) \<Rightarrow> Inr (Some l)
            | (Some l, Some r) \<Rightarrow> Inl Die) (\<lambda>nc.
     let s = set_f nc (f (nodes s rmnode)) s
     in Inr (slot_put (father_slot rmnode s) nc s))"

text \<open>The search of \<^verbatim>\<open>avl_insert\<close>: the empty slot and its node, or nothing when a node is in the way.\<close>

fun avl_find :: "nat \<Rightarrow> ('p \<Rightarrow> avlcr) \<Rightarrow> 'p slot \<Rightarrow> 'p option \<Rightarrow> 'p avls \<Rightarrow> ('p slot \<times> 'p option) option res" where
  "avl_find 0 cmpf cnp cn s = Inl Stuck"
| "avl_find (Suc fuel) cmpf cnp cn s =
     (case slot_get cnp s of
        None \<Rightarrow> Inr (Some (cnp, cn))
      | Some n \<Rightarrow>
          (case cmpf n of
             AVLCMP_1LT2 \<Rightarrow> avl_find fuel cmpf (RC n) (Some n) s
           | AVLCMP_1BT2 \<Rightarrow> avl_find fuel cmpf (LC n) (Some n) s
           | _ \<Rightarrow> Inr None))"

definition avl_insert :: "nat \<Rightarrow> 'p \<Rightarrow> ('p \<Rightarrow> avlcr) \<Rightarrow> 'p avls \<Rightarrow> (int \<times> 'p avls) res" where
  "avl_insert fuel newnode cmpf s =
     bindE (avl_find fuel cmpf Root None s) (\<lambda>r.
     (case r of
        None \<Rightarrow> Inr (- 1, s)
      | Some (cnp, cn) \<Rightarrow>
          let s = slot_put cnp (Some newnode) s;
              s = upd newnode (\<lambda>x. x\<lparr>f := cn\<rparr>) s;
              s = upd newnode (\<lambda>x. x\<lparr>lc := None, rc := None\<rparr>) s;
              s = upd newnode (\<lambda>x. x\<lparr>subth := 1\<rparr>) s
          in bindE (avl_ab fuel cn s) (\<lambda>s. Inr (0, s))))"

fun most_right :: "nat \<Rightarrow> 'p \<Rightarrow> 'p avls \<Rightarrow> 'p res" where
  "most_right 0 p s = Inl Stuck"
| "most_right (Suc fuel) p s =
     (case rc (nodes s p) of None \<Rightarrow> Inr p | Some c \<Rightarrow> most_right fuel c s)"

fun most_left :: "nat \<Rightarrow> 'p \<Rightarrow> 'p avls \<Rightarrow> 'p res" where
  "most_left 0 p s = Inl Stuck"
| "most_left (Suc fuel) p s =
     (case lc (nodes s p) of None \<Rightarrow> Inr p | Some c \<Rightarrow> most_left fuel c s)"

text \<open>\<^verbatim>\<open>rmpos\<close> takes the place of \<^verbatim>\<open>rmnode\<close>.\<close>

definition avl_subst :: "'p \<Rightarrow> 'p \<Rightarrow> 'p avls \<Rightarrow> 'p avls" where
  "avl_subst rmpos rmnode s =
     (let s = upd rmpos (\<lambda>x. nodes s rmnode) s;
          s = set_f (lc (nodes s rmpos)) (Some rmpos) s;
          s = set_f (rc (nodes s rmpos)) (Some rmpos) s
      in (case f (nodes s rmpos) of
            None \<Rightarrow> slot_put Root (Some rmpos) s
          | Some p \<Rightarrow> if lc (nodes s p) = Some rmnode then slot_put (LC p) (Some rmpos) s else slot_put (RC p) (Some rmpos) s))"

definition avl_remove :: "nat \<Rightarrow> 'p \<Rightarrow> 'p avls \<Rightarrow> 'p avls res" where
  "avl_remove fuel rmnode s =
     (case (lc (nodes s rmnode), rc (nodes s rmnode)) of
        (Some l, Some r) \<Rightarrow>
          bindE (if subth (nodes s r) < subth (nodes s l) then most_right fuel l s else most_left fuel r s) (\<lambda>rmpos.
          let rbpos = (if f (nodes s rmpos) = Some rmnode then Some rmpos else f (nodes s rmpos))
          in bindE (avl_ndcut rmpos s) (\<lambda>s.
             avl_ab fuel rbpos (avl_subst rmpos rmnode s)))
      | _ \<Rightarrow>
          let rbpos = f (nodes s rmnode)
          in bindE (avl_ndcut rmnode s) (avl_ab fuel rbpos))"

fun avl_lkup :: "nat \<Rightarrow> ('p \<Rightarrow> avlcr) \<Rightarrow> 'p option \<Rightarrow> 'p avls \<Rightarrow> 'p option res" where
  "avl_lkup 0 cmpf p s = Inl Stuck"
| "avl_lkup (Suc fuel) cmpf None s = Inr None"
| "avl_lkup (Suc fuel) cmpf (Some n) s =
     (case cmpf n of
        AVLCMP_1LT2 \<Rightarrow> avl_lkup fuel cmpf (rc (nodes s n)) s
      | AVLCMP_1BT2 \<Rightarrow> avl_lkup fuel cmpf (lc (nodes s n)) s
      | AVLCMP_2IN1 \<Rightarrow> Inr (Some n)
      | AVLCMP_1EQ2 \<Rightarrow> Inr (Some n)
      | _ \<Rightarrow> Inr None)"

text \<open>
  The walk: the operation threads a state of its own and returns a number; \<open>seq\<close> runs one part
  after another until one of them returns \<open>- 1\<close>.
\<close>

fun seq :: "('x \<Rightarrow> (int \<times> 'x) res) list \<Rightarrow> 'x \<Rightarrow> (int \<times> 'x) res" where
  "seq [] x = Inr (0, x)"
| "seq (g # gs) x = bindE (g x) (\<lambda>(r, x). if r = - 1 then Inr (- 1, x) else seq gs x)"

fun avl_walk :: "nat \<Rightarrow> 'p option \<Rightarrow> avlwt \<Rightarrow> ('p \<Rightarrow> 'x \<Rightarrow> int \<times> 'x) \<Rightarrow> 'p avls \<Rightarrow> 'x \<Rightarrow> (int \<times> 'x) res" where
  "avl_walk 0 p wt op s x = Inl Stuck"
| "avl_walk (Suc fuel) None wt op s x = Inr (0, x)"
| "avl_walk (Suc fuel) (Some n) wt op s x =
     (let m = (\<lambda>x. Inr (op n x));
          l = avl_walk fuel (lc (nodes s n)) wt op s;
          r = avl_walk fuel (rc (nodes s n)) wt op s
      in if subth (nodes s n) = 1 then m x
         else (case wt of
                 AVLWT_LMR \<Rightarrow> seq [l, m, r] x
               | AVLWT_LRM \<Rightarrow> seq [l, r, m] x
               | AVLWT_MLR \<Rightarrow> seq [m, l, r] x
               | AVLWT_MRL \<Rightarrow> seq [m, r, l] x
               | AVLWT_RLM \<Rightarrow> seq [r, l, m] x
               | AVLWT_RML \<Rightarrow> seq [r, m, l] x))"

section \<open>The trees in the store\<close>

fun tr :: "('p \<Rightarrow> 'p avln) \<Rightarrow> 'p option \<Rightarrow> 'p option \<Rightarrow> 'p tree \<Rightarrow> bool" where
  "tr h u p Leaf = (p = None)"
| "tr h u p (Node l n r) = (p = Some n \<and> f (h n) = u \<and> tr h (Some n) (lc (h n)) l \<and> tr h (Some n) (rc (h n)) r)"

fun hts :: "('p \<Rightarrow> 'p avln) \<Rightarrow> 'p tree \<Rightarrow> bool" where
  "hts h Leaf = True"
| "hts h (Node l n r) = (subth (h n) = max (height l) (height r) + 1 \<and> hts h l \<and> hts h r)"

fun avl :: "'p tree \<Rightarrow> bool" where
  "avl Leaf = True"
| "avl (Node l n r) = (height l \<le> height r + 1 \<and> height r \<le> height l + 1 \<and> avl l \<and> avl r)"

lemma tr_cong: "(\<And>x. x \<in> set_tree t \<Longrightarrow> h' x = h x) \<Longrightarrow> tr h' u p t = tr h u p t"
  by (induction t arbitrary: u p) auto

lemma hts_cong: "(\<And>x. x \<in> set_tree t \<Longrightarrow> subth (h' x) = subth (h x)) \<Longrightarrow> hts h' t = hts h t"
  by (induction t) auto

lemma chh_height: "tr (nodes s) u p t \<Longrightarrow> hts (nodes s) t \<Longrightarrow> chh p s = height t"
  by (cases t) (auto simp: chh_def)

section \<open>Contexts\<close>

text \<open>A path from a hole up to the root: at each node, whether the hole is on the left, and the sibling.\<close>

type_synonym 'p ctx = "(bool \<times> 'p \<times> 'p tree) list"

fun zip_up :: "'p ctx \<Rightarrow> 'p tree \<Rightarrow> 'p tree" where
  "zip_up [] t = t"
| "zip_up ((dl, n, u) # C) t = zip_up C (if dl then Node t n u else Node u n t)"

definition sl :: "'p ctx \<Rightarrow> 'p slot" where
  "sl C = (case C of [] \<Rightarrow> Root | (dl, n, u) # _ \<Rightarrow> if dl then LC n else RC n)"

definition fa :: "'p ctx \<Rightarrow> 'p option" where
  "fa C = (case C of [] \<Rightarrow> None | (_, n, _) # _ \<Rightarrow> Some n)"

definition cset :: "'p ctx \<Rightarrow> 'p set" where
  "cset C = (\<Union>(_, n, u)\<in>set C. insert n (set_tree u))"

fun cx :: "'p avls \<Rightarrow> 'p ctx \<Rightarrow> bool" where
  "cx s [] = True"
| "cx s ((dl, n, u) # C) = (slot_get (sl C) s = Some n \<and> f (nodes s n) = fa C \<and>
     tr (nodes s) (Some n) (slot_get (if dl then RC n else LC n) s) u \<and> cx s C)"

text \<open>The stored heights and the balance of a path, for a hole of height \<open>k\<close>.\<close>

fun hcx :: "'p avls \<Rightarrow> nat \<Rightarrow> 'p ctx \<Rightarrow> bool" where
  "hcx s k [] = True"
| "hcx s k ((dl, n, u) # C) = (subth (nodes s n) = max k (height u) + 1 \<and> hts (nodes s) u \<and> avl u \<and>
     k \<le> height u + 1 \<and> height u \<le> k + 1 \<and> hcx s (max k (height u) + 1) C)"

lemma sl_simps [simp]: "sl [] = Root" "sl ((dl, n, u) # C) = (if dl then LC n else RC n)"
  by (simp_all add: sl_def)

lemma fa_simps [simp]: "fa [] = None" "fa ((dl, n, u) # C) = Some n"
  by (simp_all add: fa_def)

lemma cset_simps [simp]: "cset [] = {}" "cset ((dl, n, u) # C) = insert n (set_tree u \<union> cset C)"
  by (auto simp: cset_def)

lemma zip_up_append: "zip_up (C @ D) t = zip_up D (zip_up C t)"
  by (induction C t rule: zip_up.induct) auto

lemma cset_append [simp]: "cset (C @ D) = cset C \<union> cset D"
  by (auto simp: cset_def)

lemma set_zip_up: "set_tree (zip_up C t) = set_tree t \<union> cset C"
  by (induction C t rule: zip_up.induct) auto

lemma inorder_zip_up: "\<exists>xs ys. set xs \<union> set ys = cset C \<and> (\<forall>t. inorder (zip_up C t) = xs @ inorder t @ ys)"
proof (induction C)
  case (Cons a C)
  obtain dl n u where a: "a = (dl, n, u)" by (cases a) auto
  obtain xs ys where xy: "set xs \<union> set ys = cset C" "\<And>t. inorder (zip_up C t) = xs @ inorder t @ ys" using Cons by blast
  show ?case
  proof (cases dl)
    case True
    then show ?thesis using xy a by (intro exI [of _ xs] exI [of _ "n # inorder u @ ys"]) auto
  next
    case False
    then show ?thesis using xy a by (intro exI [of _ "xs @ inorder u @ [n]"] exI [of _ ys]) auto
  qed
qed simp

lemma tr_zip_up: "tr (nodes s) None (root s) (zip_up C t) \<longleftrightarrow> tr (nodes s) (fa C) (slot_get (sl C) s) t \<and> cx s C"
  by (induction C t rule: zip_up.induct) auto

lemma hts_zip_up: "hts (nodes s) (zip_up C t) \<and> avl (zip_up C t) \<longleftrightarrow> hts (nodes s) t \<and> avl t \<and> hcx s (height t) C"
  by (induction C t rule: zip_up.induct) (auto simp: max.commute)

text \<open>A well-formed tree with its nodes in the order \<open>xs\<close>.\<close>

definition avl_good :: "'p avls \<Rightarrow> 'p list \<Rightarrow> bool" where
  "avl_good s xs \<longleftrightarrow> (\<exists>t. tr (nodes s) None (root s) t \<and> hts (nodes s) t \<and> avl t \<and> inorder t = xs \<and> distinct xs)"

text \<open>Two states that differ at most in the nodes \<open>A\<close>.\<close>

definition same_out :: "'p set \<Rightarrow> 'p avls \<Rightarrow> 'p avls \<Rightarrow> bool" where
  "same_out A s s' \<longleftrightarrow> root s' = root s \<and> (\<forall>x. x \<notin> A \<longrightarrow> nodes s' x = nodes s x)"

definition owner :: "'p slot \<Rightarrow> 'p set" where
  "owner q = (case q of Root \<Rightarrow> {} | LC n \<Rightarrow> {n} | RC n \<Rightarrow> {n})"

lemma owner_simps [simp]: "owner Root = {}" "owner (LC n) = {n}" "owner (RC n) = {n}"
  by (simp_all add: owner_def)

lemma owner_sl: "owner (sl C) = set_option (fa C)"
  by (cases C) (auto split: if_splits)

lemma rd_wr [simp]: "slot_get q (slot_put q v s) = v"
  by (cases q) (simp_all add: upd_def)

lemma nodes_wr: "x \<notin> owner q \<Longrightarrow> nodes (slot_put q v s) x = nodes s x"
  by (cases q) (simp_all add: upd_def)

lemma f_wr [simp]: "f (nodes (slot_put q v s) x) = f (nodes s x)" "subth (nodes (slot_put q v s) x) = subth (nodes s x)"
  by (cases q; simp add: upd_def)+

lemma same_out_rd: "same_out A s s' \<Longrightarrow> owner q \<inter> A = {} \<Longrightarrow> slot_get q s' = slot_get q s"
  by (cases q) (auto simp: same_out_def)

lemma slot_other: "q \<noteq> q' \<Longrightarrow> slot_get q (slot_put q' v s) = slot_get q s"
  by (cases q; cases q') (simp_all add: upd_def)

lemma same_out_trans: "same_out A s s' \<Longrightarrow> same_out A s' s'' \<Longrightarrow> same_out A s s''"
  by (simp add: same_out_def)

lemma same_out_wr: "same_out A s s' \<Longrightarrow> same_out A (slot_put q v s) (slot_put q v s')"
  by (cases q) (auto simp: same_out_def upd_def)

lemma wr_wr [simp]: "slot_put q v (slot_put q w s) = slot_put q v s"
  by (cases q) (simp_all add: upd_def)

text \<open>The path survives a change inside the hole and a new pointer in its slot.\<close>

lemma cx_cong:
  assumes "\<And>x. x \<in> cset C \<Longrightarrow> nodes s' x = nodes s x" "root s' = root s"
  shows "cx s' C = cx s C"
  using assms
proof (induction C)
  case (Cons a C)
  obtain dl n u where a: "a = (dl, n, u)" by (cases a) auto
  have "slot_get (sl C) s' = slot_get (sl C) s" using Cons.prems by (cases C) (auto simp: a split: if_splits)
  then show ?case using Cons by (simp add: a tr_cong [of u "nodes s'" "nodes s"])
qed simp

lemma hcx_cong: "(\<And>x. x \<in> cset C \<Longrightarrow> subth (nodes s' x) = subth (nodes s x)) \<Longrightarrow> hcx s' k C = hcx s k C"
proof (induction C arbitrary: k)
  case (Cons a C)
  obtain dl n u where a: "a = (dl, n, u)" by (cases a) auto
  then show ?case using Cons by (simp add: hts_cong [of u "nodes s'" "nodes s"])
qed simp

definition cdist :: "'p ctx \<Rightarrow> bool" where
  "cdist C \<longleftrightarrow> distinct (inorder (zip_up C Leaf))"

lemma distinct_zip_up: "distinct (inorder (zip_up C t)) \<longleftrightarrow> cdist C \<and> distinct (inorder t) \<and> set_tree t \<inter> cset C = {}"
proof -
  obtain xs ys where xy: "set xs \<union> set ys = cset C" "\<And>t. inorder (zip_up C t) = xs @ inorder t @ ys"
    using inorder_zip_up [of C] by metis
  show ?thesis unfolding cdist_def xy(2) xy(1) [symmetric] by auto
qed

lemma cdist_Cons [simp]:
  "cdist ((dl, n, u) # C) \<longleftrightarrow> cdist C \<and> distinct (inorder u) \<and> n \<notin> set_tree u \<union> cset C \<and> set_tree u \<inter> cset C = {}"
  using distinct_zip_up [of C "if dl then Node Leaf n u else Node u n Leaf"]
  by (auto simp: cdist_def split: if_splits)

lemma cx_wr: "cx s C \<Longrightarrow> cdist C \<Longrightarrow> cx (slot_put (sl C) v s) C"
proof (cases C)
  case (Cons a D)
  obtain dl n u where a: "a = (dl, n, u)" by (cases a) auto
  assume *: "cx s C" "cdist C"
  let ?s = "slot_put (sl C) v s"
  have n: "nodes ?s x = nodes s x" if "x \<noteq> n" for x using that by (simp add: Cons a nodes_wr)
  have r: "root ?s = root s" by (simp add: Cons a upd_def)
  have "cx ?s D = cx s D" using * r by (intro cx_cong n) (auto simp: Cons a)
  moreover have "slot_get (sl D) ?s = slot_get (sl D) s"
    using * by (intro slot_other) (cases D; auto simp: Cons a split: if_splits)
  moreover have "tr (nodes ?s) (Some n) p u = tr (nodes s) (Some n) p u" for p
    using * by (intro tr_cong n) (auto simp: Cons a)
  ultimately show ?thesis using * by (auto simp: Cons a upd_def)
qed simp

section \<open>Rotations\<close>

definition lr_state :: "'p \<Rightarrow> 'p \<Rightarrow> 'p avls \<Rightarrow> 'p avls" where
  "lr_state n m s = s\<lparr>nodes := \<lambda>x.
     if x = n then \<lparr>f = Some m, lc = lc (nodes s n), rc = lc (nodes s m),
                    subth = max (chh (lc (nodes s n)) s) (chh (lc (nodes s m)) s) + 1\<rparr>
     else if x = m then \<lparr>f = f (nodes s n), lc = Some n, rc = rc (nodes s m),
                    subth = max (max (chh (lc (nodes s n)) s) (chh (lc (nodes s m)) s) + 1) (chh (rc (nodes s m)) s) + 1\<rparr>
     else if lc (nodes s m) = Some x then (nodes s x)\<lparr>f := Some n\<rparr>
     else nodes s x\<rparr>"

definition rr_state :: "'p \<Rightarrow> 'p \<Rightarrow> 'p avls \<Rightarrow> 'p avls" where
  "rr_state n m s = s\<lparr>nodes := \<lambda>x.
     if x = n then \<lparr>f = Some m, lc = rc (nodes s m), rc = rc (nodes s n),
                    subth = max (chh (rc (nodes s m)) s) (chh (rc (nodes s n)) s) + 1\<rparr>
     else if x = m then \<lparr>f = f (nodes s n), lc = lc (nodes s m), rc = Some n,
                    subth = max (chh (lc (nodes s m)) s) (max (chh (rc (nodes s m)) s) (chh (rc (nodes s n)) s) + 1) + 1\<rparr>
     else if rc (nodes s m) = Some x then (nodes s x)\<lparr>f := Some n\<rparr>
     else nodes s x\<rparr>"

lemma if_max: "(if b < a then a + 1 else b + 1) = max a b + (1::nat)"
  by (simp add: max_def)

lemma avl_lr_eq:
  assumes "slot_get q s = Some n" "rc (nodes s n) = Some m" "n \<noteq> m"
    "\<And>p. p \<in> {lc (nodes s n), lc (nodes s m), rc (nodes s m)} \<Longrightarrow> p \<noteq> Some n \<and> p \<noteq> Some m"
  shows "avl_lr q s = Inr (slot_put q (Some m) (lr_state n m s))"
proof -
  let ?b = "lc (nodes s m)" and ?c = "rc (nodes s m)"
  have a: "?b \<noteq> Some n" "?b \<noteq> Some m" "?c \<noteq> Some n" using assms(4) [of ?b] assms(4) [of ?c] by simp_all
  let ?g = "\<lambda>x. if x = n then (nodes s n)\<lparr>f := Some m, rc := ?b\<rparr> else if x = m then (nodes s m)\<lparr>f := f (nodes s n)\<rparr>
    else if ?b = Some x then (nodes s x)\<lparr>f := Some n\<rparr> else nodes s x"
  define s1 where "s1 = s\<lparr>nodes := ?g\<rparr>"
  define s2 where "s2 = upd m (\<lambda>x. x\<lparr>lc := Some n\<rparr>) (snd (avl_rfh n s1))"
  have s1: "set_f ?b (Some n) (upd n (\<lambda>x. x\<lparr>rc := ?b\<rparr>) (upd n (\<lambda>x. x\<lparr>f := Some m\<rparr>) (upd m (\<lambda>x. x\<lparr>f := f (nodes s n)\<rparr>) s))) = s1"
    using a(1,2) assms(3) by (cases ?b) (auto simp: s1_def set_f_def upd_def fun_eq_iff)
  have ch1: "chh p s1 = chh p s" for p by (auto simp: chh_def s1_def split: option.split)
  have n2: "nodes s2 = (nodes s1)(n := (nodes s1 n)\<lparr>subth := max (chh (lc (nodes s1 n)) s) (chh (rc (nodes s1 n)) s) + 1\<rparr>,
      m := (nodes s1 m)\<lparr>lc := Some n\<rparr>)"
    using assms(3) by (auto simp: s2_def avl_rfh_def Let_def upd_def ch1 if_max fun_eq_iff)
  have n1: "nodes s1 = ?g" and r2: "root s2 = root s"
    by (simp_all add: s1_def s2_def upd_def avl_rfh_def Let_def)
  have ch2: "chh ?c s2 = chh ?c s" "chh (Some n) s2 = subth (nodes s2 n)"
    using a(3) by (auto simp: chh_def n2 s1_def split: option.split)
  have "avl_lr q s = Inr (slot_put q (Some m) (snd (avl_rfh m s2)))"
    using assms(1-3) s1 by (simp add: avl_lr_def Let_def s2_def) (simp add: upd_def)
  moreover have "snd (avl_rfh m s2) = lr_state n m s"
    using assms(2,3) a ch2 n1 r2
    by (intro avls.equality) (auto simp: avl_rfh_def Let_def upd_def if_max lr_state_def n2 fun_eq_iff)
  ultimately show ?thesis by simp
qed

lemma avl_rr_eq:
  assumes "slot_get q s = Some n" "lc (nodes s n) = Some m" "n \<noteq> m"
    "\<And>p. p \<in> {rc (nodes s n), lc (nodes s m), rc (nodes s m)} \<Longrightarrow> p \<noteq> Some n \<and> p \<noteq> Some m"
  shows "avl_rr q s = Inr (slot_put q (Some m) (rr_state n m s))"
proof -
  let ?b = "rc (nodes s m)" and ?c = "lc (nodes s m)"
  have a: "?b \<noteq> Some n" "?b \<noteq> Some m" "?c \<noteq> Some n" using assms(4) [of ?b] assms(4) [of ?c] by simp_all
  let ?g = "\<lambda>x. if x = n then (nodes s n)\<lparr>f := Some m, lc := ?b\<rparr> else if x = m then (nodes s m)\<lparr>f := f (nodes s n)\<rparr>
    else if ?b = Some x then (nodes s x)\<lparr>f := Some n\<rparr> else nodes s x"
  define s1 where "s1 = s\<lparr>nodes := ?g\<rparr>"
  define s2 where "s2 = upd m (\<lambda>x. x\<lparr>rc := Some n\<rparr>) (snd (avl_rfh n s1))"
  have s1: "set_f ?b (Some n) (upd n (\<lambda>x. x\<lparr>lc := ?b\<rparr>) (upd n (\<lambda>x. x\<lparr>f := Some m\<rparr>) (upd m (\<lambda>x. x\<lparr>f := f (nodes s n)\<rparr>) s))) = s1"
    using a(1,2) assms(3) by (cases ?b) (auto simp: s1_def set_f_def upd_def fun_eq_iff)
  have ch1: "chh p s1 = chh p s" for p by (auto simp: chh_def s1_def split: option.split)
  have n2: "nodes s2 = (nodes s1)(n := (nodes s1 n)\<lparr>subth := max (chh (lc (nodes s1 n)) s) (chh (rc (nodes s1 n)) s) + 1\<rparr>,
      m := (nodes s1 m)\<lparr>rc := Some n\<rparr>)"
    using assms(3) by (auto simp: s2_def avl_rfh_def Let_def upd_def ch1 if_max fun_eq_iff)
  have n1: "nodes s1 = ?g" and r2: "root s2 = root s"
    by (simp_all add: s1_def s2_def upd_def avl_rfh_def Let_def)
  have ch2: "chh ?c s2 = chh ?c s" "chh (Some n) s2 = subth (nodes s2 n)"
    using a(3) by (auto simp: chh_def n2 s1_def split: option.split)
  have "avl_rr q s = Inr (slot_put q (Some m) (snd (avl_rfh m s2)))"
    using assms(1-3) s1 by (simp add: avl_rr_def Let_def s2_def) (simp add: upd_def)
  moreover have "snd (avl_rfh m s2) = rr_state n m s"
    using assms(2,3) a ch2 n1 r2
    by (intro avls.equality) (auto simp: avl_rfh_def Let_def upd_def if_max rr_state_def n2 fun_eq_iff)
  ultimately show ?thesis by simp
qed

text \<open>A tree on its path: the hole of \<open>C\<close> holds \<open>t\<close>, all nodes are distinct.\<close>

definition at :: "'p ctx \<Rightarrow> 'p tree \<Rightarrow> 'p avls \<Rightarrow> bool" where
  "at C t s \<longleftrightarrow> tr (nodes s) (fa C) (slot_get (sl C) s) t \<and> cx s C \<and> cdist C \<and> distinct (inorder t) \<and> set_tree t \<inter> cset C = {}"

lemma at_zip: "at C t s \<longleftrightarrow> tr (nodes s) None (root s) (zip_up C t) \<and> distinct (inorder (zip_up C t))"
  by (auto simp: at_def tr_zip_up distinct_zip_up)

lemma at_down: "at C (Node l n r) s \<longleftrightarrow> at ((True, n, r) # C) l s" "at C (Node l n r) s \<longleftrightarrow> at ((False, n, l) # C) r s"
  by (simp_all add: at_zip)

text \<open>Replacing the tree in a hole, by a change of its own nodes and of the slot.\<close>

lemma at_replace:
  assumes "at C t s" and "same_out (set_tree t \<union> A) s s1" and "A \<inter> cset C = {}"
    and t': "tr (nodes s1) (fa C) v t'" "set_tree t' \<subseteq> set_tree t \<union> A" "distinct (inorder t')"
  shows "at C t' (slot_put (sl C) v s1)" "\<And>x. x \<in> cset C \<Longrightarrow> subth (nodes (slot_put (sl C) v s1) x) = subth (nodes s x)"
proof -
  let ?s = "slot_put (sl C) v s1"
  have c: "cdist C" "cx s C" "set_tree t \<inter> cset C = {}" using assms(1) by (simp_all add: at_def)
  have d: "set_tree t' \<inter> cset C = {}" using t'(2) c(3) assms(3) by auto
  have out: "nodes s1 x = nodes s x" if "x \<in> cset C" for x
    using that assms(2,3) c(3) by (auto simp: same_out_def)
  have own: "owner (sl C) \<subseteq> cset C" by (cases C) (auto split: if_splits)
  have "cx s1 C" using c(2) out assms(2) by (simp add: same_out_def cx_cong [of C s1 s])
  then have "cx ?s C" using c(1) by (rule cx_wr)
  moreover have "tr (nodes ?s) (fa C) v t' = tr (nodes s1) (fa C) v t'"
    using own d by (intro tr_cong nodes_wr) auto
  ultimately show "at C t' ?s" using t'(1,3) c(1) d by (simp add: at_def)
  show "subth (nodes ?s x) = subth (nodes s x)" if "x \<in> cset C" for x using out that by simp
qed

text \<open>A subtree under a new father.\<close>

lemma tr_rehang:
  assumes "tr h w p t" "distinct (inorder t)"
    "\<And>x. x \<in> set_tree t \<Longrightarrow> h' x = (if p = Some x then (h x)\<lparr>f := u\<rparr> else h x)"
  shows "tr h' u p t"
proof (cases t)
  case (Node l n r)
  have "h' y = h y" if "y \<in> set_tree l \<union> set_tree r" for y
    using that assms Node by auto
  then have "tr h' v q l = tr h v q l" "tr h' v q r = tr h v q r" for v q
    by (intro tr_cong; simp)+
  then show ?thesis using assms Node by simp
qed (use assms in simp)

lemma at_left:
  assumes a: "at C (Node l n (Node b m c)) s" and h: "hts (nodes s) l" "hts (nodes s) b" "hts (nodes s) c"
  shows "\<exists>s'. avl_lr (sl C) s = Inr s' \<and> at C (Node (Node l n b) m c) s' \<and> hts (nodes s') (Node (Node l n b) m c) \<and>
    (\<forall>x\<in>cset C. subth (nodes s' x) = subth (nodes s x))"
proof -
  let ?t = "Node l n (Node b m c)" and ?t' = "Node (Node l n b) m c"
  have t: "tr (nodes s) (fa C) (Some n) ?t" "slot_get (sl C) s = Some n" "distinct (inorder ?t)"
    using a by (auto simp: at_def)
  then have ps: "rc (nodes s n) = Some m" "tr (nodes s) (Some n) (lc (nodes s n)) l"
    "tr (nodes s) (Some m) (lc (nodes s m)) b" "tr (nodes s) (Some m) (rc (nodes s m)) c" "f (nodes s n) = fa C" by auto
  have nm: "n \<noteq> m" "n \<notin> set_tree l \<union> set_tree b \<union> set_tree c" "m \<notin> set_tree l \<union> set_tree b \<union> set_tree c"
    "set_tree l \<inter> set_tree b = {}" "set_tree b \<inter> set_tree c = {}" "distinct (inorder b)"
    using t(3) by auto
  have "p \<noteq> Some n \<and> p \<noteq> Some m" if "p \<in> {lc (nodes s n), lc (nodes s m), rc (nodes s m)}" for p
    using that ps(2-4) nm by (cases l; cases b; cases c) auto
  then have res: "avl_lr (sl C) s = Inr (slot_put (sl C) (Some m) (lr_state n m s))"
    using avl_lr_eq [OF t(2) ps(1) nm(1)] by blast
  let ?s = "lr_state n m s"
  have lb: "nodes ?s x = nodes s x" if "x \<notin> {n, m} \<union> set_tree b" for x
    using that ps(3) by (cases b) (auto simp: lr_state_def)
  have sb: "subth (nodes ?s x) = subth (nodes s x)" if "x \<notin> {n, m}" for x
    using that by (auto simp: lr_state_def)
  have ch: "chh (lc (nodes s n)) s = height l" "chh (lc (nodes s m)) s = height b" "chh (rc (nodes s m)) s = height c"
    using chh_height ps(2-4) h by metis+
  have "tr (nodes ?s) (Some n) (lc (nodes s n)) l" "tr (nodes ?s) (Some m) (rc (nodes s m)) c"
    using ps(2,4) nm by (subst tr_cong [of _ _ "nodes s"]; auto intro: lb)+
  moreover have "tr (nodes ?s) (Some n) (lc (nodes s m)) b"
    by (rule tr_rehang [OF ps(3) nm(6)]) (use nm in \<open>auto simp: lr_state_def\<close>)
  ultimately have tr': "tr (nodes ?s) (fa C) (Some m) ?t'"
    using nm(1) ps(5) by (simp add: lr_state_def)
  have "hts (nodes ?s) l" "hts (nodes ?s) b" "hts (nodes ?s) c"
    using h nm by (subst hts_cong [of _ _ "nodes s"]; auto intro: sb)+
  then have hts': "hts (nodes ?s) ?t'" using ch nm(1) by (simp add: lr_state_def)
  have so: "same_out (set_tree ?t \<union> {}) s ?s"
    using lb by (auto simp: same_out_def lr_state_def)
  note rep = at_replace [OF a so _ tr']
  have "at C ?t' (slot_put (sl C) (Some m) ?s)" "\<And>x. x \<in> cset C \<Longrightarrow> subth (nodes (slot_put (sl C) (Some m) ?s) x) = subth (nodes s x)"
    using rep t(3) by (auto simp del: f_wr)
  moreover have "hts (nodes (slot_put (sl C) (Some m) ?s)) ?t'" using hts' by (subst hts_cong [of _ _ "nodes ?s"]) simp_all
  ultimately show ?thesis using res by blast
qed

lemma at_right:
  assumes a: "at C (Node (Node a m b) n r) s" and h: "hts (nodes s) a" "hts (nodes s) b" "hts (nodes s) r"
  shows "\<exists>s'. avl_rr (sl C) s = Inr s' \<and> at C (Node a m (Node b n r)) s' \<and> hts (nodes s') (Node a m (Node b n r)) \<and>
    (\<forall>x\<in>cset C. subth (nodes s' x) = subth (nodes s x))"
proof -
  let ?t = "Node (Node a m b) n r" and ?t' = "Node a m (Node b n r)"
  have t: "tr (nodes s) (fa C) (Some n) ?t" "slot_get (sl C) s = Some n" "distinct (inorder ?t)"
    using a by (auto simp: at_def)
  then have ps: "lc (nodes s n) = Some m" "tr (nodes s) (Some n) (rc (nodes s n)) r"
    "tr (nodes s) (Some m) (rc (nodes s m)) b" "tr (nodes s) (Some m) (lc (nodes s m)) a" "f (nodes s n) = fa C" by auto
  have nm: "n \<noteq> m" "n \<notin> set_tree a \<union> set_tree b \<union> set_tree r" "m \<notin> set_tree a \<union> set_tree b \<union> set_tree r"
    "set_tree r \<inter> set_tree b = {}" "set_tree b \<inter> set_tree a = {}" "distinct (inorder b)"
    using t(3) by auto
  have "p \<noteq> Some n \<and> p \<noteq> Some m" if "p \<in> {rc (nodes s n), lc (nodes s m), rc (nodes s m)}" for p
    using that ps(2-4) nm by (cases r; cases b; cases a) auto
  then have res: "avl_rr (sl C) s = Inr (slot_put (sl C) (Some m) (rr_state n m s))"
    using avl_rr_eq [OF t(2) ps(1) nm(1)] by blast
  let ?s = "rr_state n m s"
  have lb: "nodes ?s x = nodes s x" if "x \<notin> {n, m} \<union> set_tree b" for x
    using that ps(3) by (cases b) (auto simp: rr_state_def)
  have sb: "subth (nodes ?s x) = subth (nodes s x)" if "x \<notin> {n, m}" for x
    using that by (auto simp: rr_state_def)
  have ch: "chh (rc (nodes s n)) s = height r" "chh (rc (nodes s m)) s = height b" "chh (lc (nodes s m)) s = height a"
    using chh_height ps(2-4) h by metis+
  have "tr (nodes ?s) (Some n) (rc (nodes s n)) r" "tr (nodes ?s) (Some m) (lc (nodes s m)) a"
    using ps(2,4) nm by (subst tr_cong [of _ _ "nodes s"]; auto intro: lb)+
  moreover have "tr (nodes ?s) (Some n) (rc (nodes s m)) b"
    by (rule tr_rehang [OF ps(3) nm(6)]) (use nm in \<open>auto simp: rr_state_def\<close>)
  ultimately have tr': "tr (nodes ?s) (fa C) (Some m) ?t'"
    using nm(1) ps(5) by (simp add: rr_state_def)
  have "hts (nodes ?s) a" "hts (nodes ?s) b" "hts (nodes ?s) r"
    using h nm by (subst hts_cong [of _ _ "nodes s"]; auto intro: sb)+
  then have hts': "hts (nodes ?s) ?t'" using ch nm(1) by (simp add: rr_state_def)
  have so: "same_out (set_tree ?t \<union> {}) s ?s"
    using lb by (auto simp: same_out_def rr_state_def)
  note rep = at_replace [OF a so _ tr']
  have "at C ?t' (slot_put (sl C) (Some m) ?s)" "\<And>x. x \<in> cset C \<Longrightarrow> subth (nodes (slot_put (sl C) (Some m) ?s) x) = subth (nodes s x)"
    using rep t(3) by (auto simp del: f_wr)
  moreover have "hts (nodes (slot_put (sl C) (Some m) ?s)) ?t'" using hts' by (subst hts_cong [of _ _ "nodes ?s"]) simp_all
  ultimately show ?thesis using res by blast
qed

section \<open>Rebalancing\<close>

lemma at_father_slot: "at C (Node l n r) s \<Longrightarrow> father_slot n s = sl C"
proof (cases C)
  case (Cons a D)
  obtain dl p u where a: "a = (dl, p, u)" by (cases a) auto
  assume *: "at C (Node l n r) s"
  then have r: "slot_get (sl C) s = Some n" "f (nodes s n) = Some p" by (auto simp: at_def Cons a)
  have "lc (nodes s p) \<noteq> Some n" if "\<not> dl"
    using * that by (cases u) (auto simp: at_def Cons a)
  then show ?thesis using r by (auto simp: father_slot_def Cons a)
qed (simp add: at_def father_slot_def)

lemma at_inbf: "at C (Node l n r) s \<Longrightarrow> hts (nodes s) l \<Longrightarrow> hts (nodes s) r \<Longrightarrow>
    avl_inbf (Some n) s = Inr (int (height l) - int (height r))"
  using chh_height [of s "Some n" "lc (nodes s n)" l] chh_height [of s "Some n" "rc (nodes s n)" r]
  by (simp add: avl_inbf_def at_def)

text \<open>The heights around a double rotation.\<close>

lemma double_heights:
  assumes "height c < height bt" "height bt \<le> height c + 1" "max (height bt) (height c) + 1 = height l + 2"
    "bt = Node b1 x b2" "avl bt"
  shows "height l = height c" "max (height b1) (height b2) = height c" "height b1 \<le> height c" "height b2 \<le> height c"
    "height c \<le> height b1 + 1" "height c \<le> height b2 + 1" "max (height c) (height b1) = height c"
    "max (height b2) (height c) = height c"
proof -
  have b: "max (height b1) (height b2) = height c" "height l = height c" using assms(1-4) by auto
  then show "height l = height c" "max (height b1) (height b2) = height c" by auto
  show le: "height b1 \<le> height c" "height b2 \<le> height c" unfolding b(1) [symmetric] by auto
  have "height b1 \<le> height b2 + 1" "height b2 \<le> height b1 + 1" using assms(4,5) by auto
  then show "height c \<le> height b1 + 1" "height c \<le> height b2 + 1" unfolding b(1) [symmetric] by auto
  show "max (height c) (height b1) = height c" "max (height b2) (height c) = height c" using le by auto
qed

lemma rebalance_left:
  assumes a: "at C (Node l n r) s" and h: "hts (nodes s) l" "hts (nodes s) r" and v: "avl l" "avl r"
    and d: "height r = height l + 2"
  shows "\<exists>b s1 s' t. avl_inbf (rc (nodes s n)) s = Inr b \<and> (if 0 < b then avl_rr (RC n) s else Inr s) = Inr s1 \<and>
    avl_lr (father_slot n s1) s1 = Inr s' \<and> at C t s' \<and> hts (nodes s') t \<and> avl t \<and>
    inorder t = inorder (Node l n r) \<and> (height t = height r \<or> height t = height r + 1) \<and>
    (\<forall>x\<in>cset C. subth (nodes s' x) = subth (nodes s x))"
proof -
  obtain bt m c where r: "r = Node bt m c" using d by (cases r) auto
  let ?D = "(False, n, l) # C"
  have aD: "at ?D r s" by (rule iffD1 [OF at_down(2) a])
  then have rcn: "rc (nodes s n) = Some m" by (simp add: at_def r)
  then have b: "avl_inbf (rc (nodes s n)) s = Inr (int (height bt) - int (height c))"
    using at_inbf [OF aD [unfolded r]] h(2) r by simp
  have vr: "height bt \<le> height c + 1" "height c \<le> height bt + 1" "avl bt" "avl c" using v(2) r by auto
  show ?thesis
  proof (cases "height c < height bt")
    case False
    obtain s' where s': "avl_lr (sl C) s = Inr s'" "at C (Node (Node l n bt) m c) s'"
      "hts (nodes s') (Node (Node l n bt) m c)" "\<forall>x\<in>cset C. subth (nodes s' x) = subth (nodes s x)"
      using at_left [OF a [unfolded r]] h r by auto
    then show ?thesis using b False d r v(1) vr at_father_slot [OF a]
      by (intro exI [of _ "int (height bt) - int (height c)"] exI [of _ s] exI [of _ s'] exI [of _ "Node (Node l n bt) m c"]) auto
  next
    case True
    obtain b1 x b2 where bt: "bt = Node b1 x b2" using True by (cases bt) auto
    let ?r = "Node b1 x (Node b2 m c)" and ?t = "Node (Node l n b1) x (Node b2 m c)"
    obtain s1 where s1: "avl_rr (sl ?D) s = Inr s1" "at ?D ?r s1" "hts (nodes s1) ?r"
      "\<forall>x\<in>cset ?D. subth (nodes s1 x) = subth (nodes s x)"
      using at_right [OF aD [unfolded r bt]] h r bt by auto
    have a1: "at C (Node l n ?r) s1" by (rule iffD2 [OF at_down(2) s1(2)])
    have "hts (nodes s1) l" using h(1) s1(4) by (subst hts_cong [of _ _ "nodes s"]) auto
    then obtain s' where s': "avl_lr (sl C) s1 = Inr s'" "at C ?t s'" "hts (nodes s') ?t"
      "\<forall>x\<in>cset C. subth (nodes s' x) = subth (nodes s1 x)"
      using at_left [OF a1] s1(3) by auto
    note dh = double_heights [OF True vr(1) _ bt vr(3), of l]
    have d': "max (height bt) (height c) + 1 = height l + 2" using d r by simp
    have ht: "height ?t = height r" using dh [OF d'] d by simp
    have vt: "avl b1" "avl b2" using vr(3) bt by simp_all
    then have vt: "avl ?t" using dh [OF d'] v(1) vr(4) by simp
    have it: "inorder ?t = inorder (Node l n r)" by (simp add: r bt)
    have fr: "\<forall>x\<in>cset C. subth (nodes s' x) = subth (nodes s x)" using s'(4) s1(4) by simp
    have go: "(if 0 < int (height bt) - int (height c) then avl_rr (RC n) s else Inr s) = Inr s1"
      "avl_lr (father_slot n s1) s1 = Inr s'"
      using True s1(1) at_father_slot [OF a1] s'(1) by simp_all
    show ?thesis using b go s'(2,3) vt it ht fr by blast
  qed
qed

lemma rebalance_right:
  assumes a: "at C (Node l n r) s" and h: "hts (nodes s) l" "hts (nodes s) r" and v: "avl l" "avl r"
    and d: "height l = height r + 2"
  shows "\<exists>b s1 s' t. avl_inbf (lc (nodes s n)) s = Inr b \<and> (if b < 0 then avl_lr (LC n) s else Inr s) = Inr s1 \<and>
    avl_rr (father_slot n s1) s1 = Inr s' \<and> at C t s' \<and> hts (nodes s') t \<and> avl t \<and>
    inorder t = inorder (Node l n r) \<and> (height t = height l \<or> height t = height l + 1) \<and>
    (\<forall>x\<in>cset C. subth (nodes s' x) = subth (nodes s x))"
proof -
  obtain c m bt where l: "l = Node c m bt" using d by (cases l) auto
  let ?D = "(True, n, r) # C"
  have aD: "at ?D l s" by (rule iffD1 [OF at_down(1) a])
  then have "lc (nodes s n) = Some m" by (simp add: at_def l)
  then have b: "avl_inbf (lc (nodes s n)) s = Inr (int (height c) - int (height bt))"
    using at_inbf [OF aD [unfolded l]] h(1) l by simp
  have vl: "height bt \<le> height c + 1" "height c \<le> height bt + 1" "avl bt" "avl c" using v(1) l by auto
  show ?thesis
  proof (cases "height c < height bt")
    case False
    obtain s' where s': "avl_rr (sl C) s = Inr s'" "at C (Node c m (Node bt n r)) s'"
      "hts (nodes s') (Node c m (Node bt n r))" "\<forall>x\<in>cset C. subth (nodes s' x) = subth (nodes s x)"
      using at_right [OF a [unfolded l]] h l by auto
    then show ?thesis using b False d l v(2) vl at_father_slot [OF a]
      by (intro exI [of _ "int (height c) - int (height bt)"] exI [of _ s] exI [of _ s'] exI [of _ "Node c m (Node bt n r)"]) auto
  next
    case True
    obtain b1 x b2 where bt: "bt = Node b1 x b2" using True by (cases bt) auto
    let ?l = "Node (Node c m b1) x b2" and ?t = "Node (Node c m b1) x (Node b2 n r)"
    obtain s1 where s1: "avl_lr (sl ?D) s = Inr s1" "at ?D ?l s1" "hts (nodes s1) ?l"
      "\<forall>x\<in>cset ?D. subth (nodes s1 x) = subth (nodes s x)"
      using at_left [OF aD [unfolded l bt]] h l bt by auto
    have a1: "at C (Node ?l n r) s1" by (rule iffD2 [OF at_down(1) s1(2)])
    have "hts (nodes s1) r" using h(2) s1(4) by (subst hts_cong [of _ _ "nodes s"]) auto
    then obtain s' where s': "avl_rr (sl C) s1 = Inr s'" "at C ?t s'" "hts (nodes s') ?t"
      "\<forall>x\<in>cset C. subth (nodes s' x) = subth (nodes s1 x)"
      using at_right [OF a1] s1(3) by auto
    note dh = double_heights [OF True vl(1) _ bt vl(3), of r]
    have d': "max (height bt) (height c) + 1 = height r + 2" using d l by (simp add: max.commute)
    have ht: "height ?t = height l" using dh [OF d'] d by simp
    have vt: "avl b1" "avl b2" using vl(3) bt by simp_all
    then have vt: "avl ?t" using dh [OF d'] v(2) vl(4) by simp
    have it: "inorder ?t = inorder (Node l n r)" by (simp add: l bt)
    have fr: "\<forall>x\<in>cset C. subth (nodes s' x) = subth (nodes s x)" using s'(4) s1(4) by simp
    have go: "(if int (height c) - int (height bt) < 0 then avl_lr (LC n) s else Inr s) = Inr s1"
      "avl_rr (father_slot n s1) s1 = Inr s'"
      using True s1(1) at_father_slot [OF a1] s'(1) by simp_all
    show ?thesis using b go s'(2,3) vt it ht fr by blast
  qed
qed

lemma at_rfh:
  assumes a: "at C (Node l n r) s" and h: "hts (nodes s) l" "hts (nodes s) r"
  shows "\<exists>s1. avl_rfh n s = ((height r + 1 < height l \<or> height l + 1 < height r \<or>
      subth (nodes s n) \<noteq> max (height l) (height r) + 1), s1) \<and> at C (Node l n r) s1 \<and>
    hts (nodes s1) (Node l n r) \<and> (\<forall>x. x \<noteq> n \<longrightarrow> subth (nodes s1 x) = subth (nodes s x)) \<and> f (nodes s1 n) = fa C"
proof -
  have t: "tr (nodes s) (fa C) (slot_get (sl C) s) (Node l n r)" "distinct (inorder (Node l n r))" using a by (auto simp: at_def)
  then have ch: "chh (lc (nodes s n)) s = height l" "chh (rc (nodes s n)) s = height r"
    using chh_height h by (metis tr.simps(2))+
  define s1 where "s1 = upd n (\<lambda>x. x\<lparr>subth := max (height l) (height r) + 1\<rparr>) s"
  have same: "nodes s1 x = nodes s x" if "x \<noteq> n" for x using that by (simp add: s1_def upd_def)
  have "tr (nodes s1) u p l = tr (nodes s) u p l" "tr (nodes s1) u p r = tr (nodes s) u p r" for u p
    using t(2) by (intro tr_cong same; auto)+
  then have "tr (nodes s1) (fa C) (slot_get (sl C) s) (Node l n r)" using t(1) by (simp add: s1_def upd_def)
  moreover have "same_out (set_tree (Node l n r) \<union> {}) s s1" by (auto simp: same_out_def s1_def upd_def)
  ultimately have "at C (Node l n r) (slot_put (sl C) (slot_get (sl C) s) s1)"
    using at_replace(1) [OF a, of "{}" s1 _ "Node l n r"] t(2) by simp
  moreover have "slot_put (sl C) (slot_get (sl C) s) s1 = s1"
  proof -
    have "slot_get (sl C) s = slot_get (sl C) s1" by (cases "sl C") (simp_all add: s1_def upd_def)
    then show ?thesis by (cases "sl C") (simp_all add: upd_def fun_upd_idem)
  qed
  moreover have "hts (nodes s1) l" "hts (nodes s1) r"
    using h t(2) by (subst hts_cong [of _ _ "nodes s"]; auto intro!: arg_cong [OF same])+
  moreover have "avl_rfh n s = ((height r + 1 < height l \<or> height l + 1 < height r \<or>
      subth (nodes s n) \<noteq> max (height l) (height r) + 1), s1)"
    by (auto simp: avl_rfh_def Let_def ch if_max s1_def upd_def)
  moreover have "f (nodes s1 n) = fa C" using t(1) by (simp add: s1_def upd_def)
  ultimately show ?thesis using same by (intro exI [of _ s1]) (simp add: s1_def upd_def)
qed

lemma avl_ab_ok:
  "at C t s \<Longrightarrow> hts (nodes s) t \<Longrightarrow> avl t \<Longrightarrow> hcx s k C \<Longrightarrow> height t \<le> k + 1 \<Longrightarrow> k \<le> height t + 1 \<Longrightarrow>
     length C < fuel \<Longrightarrow> \<exists>s'. avl_ab fuel (fa C) s = Inr s' \<and> avl_good s' (inorder (zip_up C t))"
proof (induction C arbitrary: t s k fuel)
  case Nil
  then show ?case by (cases fuel) (auto simp: at_def avl_good_def)
next
  case (Cons a C)
  obtain dl n u where a: "a = (dl, n, u)" by (cases a) auto
  obtain m where m: "fuel = Suc m" using Cons.prems(7) by (cases fuel) auto
  define l where "l = (if dl then t else u)"
  define r where "r = (if dl then u else t)"
  have zip: "zip_up ((dl, n, u) # C) t = zip_up C (Node l n r)" by (simp add: l_def r_def)
  have at: "at C (Node l n r) s" using Cons.prems(1) at_down(1) [of C t n u s] at_down(2) [of C u n t s]
    by (cases dl) (simp_all add: a l_def r_def)
  have hu: "hts (nodes s) u" "avl u" "subth (nodes s n) = max k (height u) + 1"
    "k \<le> height u + 1" "height u \<le> k + 1" "hcx s (max k (height u) + 1) C"
    using Cons.prems(4) by (simp_all add: a)
  have h: "hts (nodes s) l" "hts (nodes s) r" and v: "avl l" "avl r"
    using Cons.prems(2,3) hu(1,2) by (simp_all add: l_def r_def)
  have dist: "n \<notin> cset C" using at by (auto simp: at_def)
  obtain s1 where s1: "avl_rfh n s = ((height r + 1 < height l \<or> height l + 1 < height r \<or>
      subth (nodes s n) \<noteq> max (height l) (height r) + 1), s1)" "at C (Node l n r) s1" "hts (nodes s1) (Node l n r)"
    "\<forall>x. x \<noteq> n \<longrightarrow> subth (nodes s1 x) = subth (nodes s x)" "f (nodes s1 n) = fa C"
    using at_rfh [OF at h] by blast
  have hc1: "hcx s1 j C = hcx s j C" for j using s1(4) dist by (intro hcx_cong) auto
  have inb: "avl_inbf (Some n) s1 = Inr (int (height l) - int (height r))" using at_inbf [OF s1(2)] s1(3) by simp
  let ?k = "max k (height u) + 1"
  have IH: "\<exists>s'. avl_ab m (fa C) s2 = Inr s' \<and> avl_good s' (inorder (zip_up C t2))"
    if "at C t2 s2" "hts (nodes s2) t2" "avl t2" "\<forall>x\<in>cset C. subth (nodes s2 x) = subth (nodes s1 x)"
      "height t2 \<le> ?k + 1" "?k \<le> height t2 + 1" for t2 s2
  proof -
    have "hcx s2 ?k C = hcx s1 ?k C" using that(4) by (intro hcx_cong) simp
    then show ?thesis using Cons.IH [OF that(1-3) _ that(5,6), of m] hu(6) hc1 Cons.prems(7) m by simp
  qed
  have io: "inorder (zip_up C t2) = inorder (zip_up C (Node l n r))" if "inorder t2 = inorder (Node l n r)" for t2
    using inorder_zip_up [of C] that by metis
  have diff: "height l \<le> height r + 2" "height r \<le> height l + 2"
    using Cons.prems(5,6) hu(4,5) by (auto simp: l_def r_def)
  show ?case
  proof (cases "height r + 1 < height l \<or> height l + 1 < height r \<or> subth (nodes s n) \<noteq> max (height l) (height r) + 1")
    case False
    then have "avl (Node l n r)" using v by simp
    moreover have "hcx s1 (height (Node l n r)) C" using False hu(3,6) hc1 by simp
    ultimately have "hts (nodes s1) (zip_up C (Node l n r)) \<and> avl (zip_up C (Node l n r))"
      unfolding hts_zip_up using s1(3) by blast
    then have "avl_good s1 (inorder (zip_up C (Node l n r)))" using s1(2) unfolding avl_good_def at_zip by blast
    then show ?thesis unfolding a zip using False m s1(1) by simp
  next
    case True
    consider "height r = height l + 2" | "height l = height r + 2" | "height l \<le> height r + 1" "height r \<le> height l + 1"
      using diff by linarith
    then show ?thesis
    proof cases
      case 1
      obtain b s2 s3 t2 where s3: "avl_inbf (rc (nodes s1 n)) s1 = Inr b" "(if 0 < b then avl_rr (RC n) s1 else Inr s1) = Inr s2"
        "avl_lr (father_slot n s2) s2 = Inr s3" "at C t2 s3" "hts (nodes s3) t2" "avl t2" "inorder t2 = inorder (Node l n r)"
        "height t2 = height r \<or> height t2 = height r + 1" "\<forall>x\<in>cset C. subth (nodes s3 x) = subth (nodes s1 x)"
        using rebalance_left [OF s1(2) _ _ v 1] s1(3) by auto
      have "height t2 \<le> ?k + 1" "?k \<le> height t2 + 1"
        using 1 s3(8) Cons.prems(5,6) hu(4,5) by (auto simp: l_def r_def split: if_splits)
      then obtain s' where "avl_ab m (fa C) s3 = Inr s'" "avl_good s' (inorder (zip_up C t2))" using IH s3(4-6,9) by blast
      then show ?thesis using True 1 m s1(1,5) inb s3(1-3) io [OF s3(7)] by (simp add: a zip del: zip_up.simps)
    next
      case 2
      obtain b s2 s3 t2 where s3: "avl_inbf (lc (nodes s1 n)) s1 = Inr b" "(if b < 0 then avl_lr (LC n) s1 else Inr s1) = Inr s2"
        "avl_rr (father_slot n s2) s2 = Inr s3" "at C t2 s3" "hts (nodes s3) t2" "avl t2" "inorder t2 = inorder (Node l n r)"
        "height t2 = height l \<or> height t2 = height l + 1" "\<forall>x\<in>cset C. subth (nodes s3 x) = subth (nodes s1 x)"
        using rebalance_right [OF s1(2) _ _ v 2] s1(3) by auto
      have "height t2 \<le> ?k + 1" "?k \<le> height t2 + 1"
        using 2 s3(8) Cons.prems(5,6) hu(4,5) by (auto simp: l_def r_def split: if_splits)
      then obtain s' where "avl_ab m (fa C) s3 = Inr s'" "avl_good s' (inorder (zip_up C t2))" using IH s3(4-6,9) by blast
      then show ?thesis using True 2 m s1(1,5) inb s3(1-3) io [OF s3(7)] by (simp add: a zip del: zip_up.simps)
    next
      case 3
      have "height (Node l n r) \<le> ?k + 1" "?k \<le> height (Node l n r) + 1"
        using Cons.prems(5,6) by (auto simp: l_def r_def)
      moreover have "avl (Node l n r)" using 3 v by simp
      ultimately obtain s' where "avl_ab m (fa C) s1 = Inr s'" "avl_good s' (inorder (zip_up C (Node l n r)))"
        using IH [OF s1(2,3)] by blast
      then show ?thesis using True 3 m s1(1,5) inb by (simp add: a zip del: zip_up.simps)
    qed
  qed
qed

section \<open>Insertion\<close>

definition below :: "('p \<Rightarrow> avlcr) \<Rightarrow> 'p list \<Rightarrow> bool" where
  "below cmpf xs \<longleftrightarrow> (\<forall>x\<in>set xs. cmpf x = AVLCMP_1LT2)"

definition above :: "('p \<Rightarrow> avlcr) \<Rightarrow> 'p list \<Rightarrow> bool" where
  "above cmpf xs \<longleftrightarrow> (\<forall>x\<in>set xs. cmpf x = AVLCMP_1BT2)"

definition hits :: "('p \<Rightarrow> avlcr) \<Rightarrow> 'p \<Rightarrow> bool" where
  "hits cmpf z \<longleftrightarrow> cmpf z \<noteq> AVLCMP_1LT2 \<and> cmpf z \<noteq> AVLCMP_1BT2"

lemma below_simps [simp]: "below cmpf []" "below cmpf (x # xs) \<longleftrightarrow> cmpf x = AVLCMP_1LT2 \<and> below cmpf xs"
  "below cmpf (xs @ ys) \<longleftrightarrow> below cmpf xs \<and> below cmpf ys"
  by (auto simp: below_def)

lemma above_simps [simp]: "above cmpf []" "above cmpf (x # xs) \<longleftrightarrow> cmpf x = AVLCMP_1BT2 \<and> above cmpf xs"
  "above cmpf (xs @ ys) \<longleftrightarrow> above cmpf xs \<and> above cmpf ys"
  by (auto simp: above_def)

text \<open>Where the node \<open>n\<close> stands in a list split by the comparison.\<close>

lemma split_below:
  assumes "as @ n # bs = xs @ zs @ ys" "below cmpf xs" "above cmpf ys" "\<forall>z\<in>set zs. hits cmpf z" "cmpf n = AVLCMP_1LT2"
  shows "\<exists>xs'. xs = as @ n # xs' \<and> bs = xs' @ zs @ ys"
proof -
  consider us where "as = xs @ us" "us @ n # bs = zs @ ys" | us where "as @ us = xs" "n # bs = us @ zs @ ys"
    using assms(1) by (auto simp: append_eq_append_conv2)
  then show ?thesis
  proof cases
    case 1
    then have "n \<in> set (zs @ ys)" by (metis in_set_conv_decomp)
    then show ?thesis using assms(3-5) by (auto simp: above_def hits_def)
  next
    case 2
    then show ?thesis using assms(3-5) by (cases us) (auto simp: Cons_eq_append_conv above_def hits_def)
  qed
qed

lemma split_above:
  assumes "as @ n # bs = xs @ zs @ ys" "below cmpf xs" "above cmpf ys" "\<forall>z\<in>set zs. hits cmpf z" "cmpf n = AVLCMP_1BT2"
  shows "\<exists>ys'. ys = ys' @ n # bs \<and> as = xs @ zs @ ys'"
proof -
  consider us where "as = (xs @ zs) @ us" "us @ n # bs = ys" | us where "as @ us = xs @ zs" "n # bs = us @ ys"
    using assms(1) append_eq_append_conv2 [of as "n # bs" "xs @ zs" ys] by auto
  then show ?thesis
  proof cases
    case 2
    show ?thesis
    proof (cases us)
      case (Cons u vs)
      then have "n \<in> set (xs @ zs)" using 2 by (metis append_Cons in_set_conv_decomp list.inject)
      then show ?thesis using assms(2,4,5) by (auto simp: below_def hits_def)
    qed (use 2 in auto)
  qed auto
qed

lemma at_rd: "at C Leaf s \<Longrightarrow> slot_get (sl C) s = None" "at C (Node l n r) s \<Longrightarrow> slot_get (sl C) s = Some n"
  by (simp_all add: at_def)

lemma avl_find_ok:
  "at C t s \<Longrightarrow> height t < fuel \<Longrightarrow> inorder t = xs @ zs @ ys \<Longrightarrow> below cmpf xs \<Longrightarrow> above cmpf ys \<Longrightarrow>
     \<forall>z\<in>set zs. hits cmpf z \<Longrightarrow>
     (if zs = [] then \<exists>D. avl_find fuel cmpf (sl C) (fa C) s = Inr (Some (sl (D @ C), fa (D @ C))) \<and> zip_up D Leaf = t \<and>
        (\<forall>u. inorder (zip_up D u) = xs @ inorder u @ ys) \<and> length D \<le> height t
      else avl_find fuel cmpf (sl C) (fa C) s = Inr None)"
proof (induction t arbitrary: C fuel xs ys)
  case Leaf
  obtain m where m: "fuel = Suc m" using Leaf.prems(2) by (cases fuel) auto
  show ?case using Leaf m at_rd(1) [OF Leaf.prems(1)] by (auto intro!: exI [of _ "[]"])
next
  case (Node l n r)
  obtain m where m: "fuel = Suc m" using Node.prems(2) by (cases fuel) auto
  note slot_get = at_rd(2) [OF Node.prems(1)]
  note cond = Node.prems(4-6)
  have io: "inorder l @ n # inorder r = xs @ zs @ ys" using Node.prems(3) by simp
  show ?case
  proof (cases "hits cmpf n")
    case True
    have "n \<in> set (xs @ zs @ ys)" unfolding io [symmetric] by simp
    then have "zs \<noteq> []" using True cond by (auto simp: hits_def below_def above_def)
    then show ?thesis using slot_get m True by (auto simp: hits_def split: avlcr.split)
  next
    case False
    then consider (less) "cmpf n = AVLCMP_1LT2" | (greater) "cmpf n = AVLCMP_1BT2" by (auto simp: hits_def)
    then show ?thesis
    proof cases
      case less
      obtain xs' where x: "xs = inorder l @ n # xs'" "inorder r = xs' @ zs @ ys"
        using split_below [OF io cond less] by blast
      have a: "at ((False, n, l) # C) r s" by (rule iffD1 [OF at_down(2) Node.prems(1)])
      have step: "avl_find fuel cmpf (sl C) (fa C) s = avl_find m cmpf (sl ((False, n, l) # C)) (fa ((False, n, l) # C)) s"
        using slot_get m less by simp
      have IH: "if zs = [] then \<exists>D. avl_find m cmpf (sl ((False, n, l) # C)) (fa ((False, n, l) # C)) s =
            Inr (Some (sl (D @ (False, n, l) # C), fa (D @ (False, n, l) # C))) \<and> zip_up D Leaf = r \<and>
            (\<forall>u. inorder (zip_up D u) = xs' @ inorder u @ ys) \<and> length D \<le> height r
         else avl_find m cmpf (sl ((False, n, l) # C)) (fa ((False, n, l) # C)) s = Inr None"
        using Node.IH(2) [OF a, of m xs' ys] Node.prems(2) m x cond by simp
      show ?thesis
      proof (cases "zs = []")
        case True
        then obtain D where "avl_find fuel cmpf (sl C) (fa C) s = Inr (Some (sl ((D @ [(False, n, l)]) @ C), fa ((D @ [(False, n, l)]) @ C)))"
          "zip_up D Leaf = r" "\<forall>u. inorder (zip_up D u) = xs' @ inorder u @ ys" "length D \<le> height r"
          using IH step by auto
        then show ?thesis using True x by (auto simp: zip_up_append intro!: exI [of _ "D @ [(False, n, l)]"])
      qed (use IH step in simp)
    next
      case greater
      obtain ys' where y: "ys = ys' @ n # inorder r" "inorder l = xs @ zs @ ys'"
        using split_above [OF io cond greater] by blast
      have a: "at ((True, n, r) # C) l s" by (rule iffD1 [OF at_down(1) Node.prems(1)])
      have step: "avl_find fuel cmpf (sl C) (fa C) s = avl_find m cmpf (sl ((True, n, r) # C)) (fa ((True, n, r) # C)) s"
        using slot_get m greater by simp
      have IH: "if zs = [] then \<exists>D. avl_find m cmpf (sl ((True, n, r) # C)) (fa ((True, n, r) # C)) s =
            Inr (Some (sl (D @ (True, n, r) # C), fa (D @ (True, n, r) # C))) \<and> zip_up D Leaf = l \<and>
            (\<forall>u. inorder (zip_up D u) = xs @ inorder u @ ys') \<and> length D \<le> height l
         else avl_find m cmpf (sl ((True, n, r) # C)) (fa ((True, n, r) # C)) s = Inr None"
        using Node.IH(1) [OF a, of m xs ys'] Node.prems(2) m y cond by simp
      show ?thesis
      proof (cases "zs = []")
        case True
        then obtain D where "avl_find fuel cmpf (sl C) (fa C) s = Inr (Some (sl ((D @ [(True, n, r)]) @ C), fa ((D @ [(True, n, r)]) @ C)))"
          "zip_up D Leaf = l" "\<forall>u. inorder (zip_up D u) = xs @ inorder u @ ys'" "length D \<le> height l"
          using IH step by auto
        then show ?thesis using True y by (auto simp: zip_up_append intro!: exI [of _ "D @ [(True, n, r)]"])
      qed (use IH step in simp)
    qed
  qed
qed

lemma upd_wr: "n \<notin> owner q \<Longrightarrow> upd n g (slot_put q v s) = slot_put q v (upd n g s)"
  by (cases q) (auto simp: upd_def fun_upd_twist)

lemma avl_goodE:
  assumes "avl_good s xs"
  obtains t where "at [] t s" "hts (nodes s) t" "avl t" "inorder t = xs" "height t \<le> length xs" "distinct xs"
  using assms height_le_size_tree unfolding avl_good_def at_zip by (metis length_inorder zip_up.simps(1))

lemma avl_insert_ok:
  assumes "avl_good s (xs @ zs @ ys)" "below cmpf xs" "above cmpf ys" "\<forall>z\<in>set zs. hits cmpf z"
    and n: "n \<notin> set (xs @ zs @ ys)" and fuel: "length (xs @ zs @ ys) < fuel"
  shows "if zs = [] then \<exists>s'. avl_insert fuel n cmpf s = Inr (0, s') \<and> avl_good s' (xs @ n # ys)
    else avl_insert fuel n cmpf s = Inr (- 1, s)"
proof -
  obtain t where t: "at [] t s" "hts (nodes s) t" "avl t" "inorder t = xs @ zs @ ys" "height t \<le> length (xs @ zs @ ys)"
    using avl_goodE [OF assms(1)] by metis
  have hf: "height t < fuel" using t(5) fuel by simp
  note find = avl_find_ok [OF t(1) hf t(4) assms(2-4)]
  show ?thesis
  proof (cases "zs = []")
    case False
    then show ?thesis using find by (simp add: avl_insert_def)
  next
    case True
    then obtain D where D: "avl_find fuel cmpf Root None s = Inr (Some (sl D, fa D))" "zip_up D Leaf = t"
      "\<forall>u. inorder (zip_up D u) = xs @ inorder u @ ys" "length D \<le> height t"
      using find by auto
    have aD: "at D Leaf s" using t(1) D(2) by (simp add: at_zip)
    have nD: "n \<notin> cset D" using n D(2) t(4) set_zip_up [of D Leaf] by (metis Un_iff set_inorder)
    define s1 where "s1 = upd n (\<lambda>x. x\<lparr>subth := 1\<rparr>) (upd n (\<lambda>x. x\<lparr>lc := None, rc := None\<rparr>) (upd n (\<lambda>x. x\<lparr>f := fa D\<rparr>) s))"
    define s2 where "s2 = slot_put (sl D) (Some n) s1"
    have own: "owner (sl D) \<subseteq> cset D" by (cases D) (auto split: if_splits)
    have "n \<notin> owner (sl D)" using nD own by blast
    then have ins: "avl_insert fuel n cmpf s = bindE (avl_ab fuel (fa D) s2) (\<lambda>s. Inr (0, s))"
      using D(1) by (simp add: avl_insert_def Let_def s2_def s1_def upd_wr)
    have "same_out (set_tree Leaf \<union> {n}) s s1" by (simp add: same_out_def s1_def upd_def)
    moreover have "tr (nodes s1) (fa D) (Some n) (Node Leaf n Leaf)" by (simp add: s1_def upd_def)
    ultimately have a2: "at D (Node Leaf n Leaf) s2" and sb: "\<And>x. x \<in> cset D \<Longrightarrow> subth (nodes s2 x) = subth (nodes s x)"
      using at_replace [OF aD, of "{n}" s1 "Some n" "Node Leaf n Leaf"] nD by (simp_all add: s2_def del: f_wr)
    have "hcx s (height (Leaf :: 'a tree)) D" using hts_zip_up [of s D Leaf] D(2) t(2,3) by simp
    then have hc: "hcx s2 0 D" using sb by (simp add: hcx_cong [of D s2 s])
    have "hts (nodes s2) (Node Leaf n Leaf)" by (simp add: s2_def s1_def upd_def)
    then obtain s' where "avl_ab fuel (fa D) s2 = Inr s'" "avl_good s' (inorder (zip_up D (Node Leaf n Leaf)))"
      using avl_ab_ok [OF a2 _ _ hc, of fuel] D(4) hf by auto
    then show ?thesis using True ins D(3) by simp
  qed
qed

text \<open>
  C11: \<^verbatim>\<open>avl_insert\<close> into a well-formed AVL tree, whose nodes the comparison sorts into smaller ones
  \<open>xs\<close>, at most one node \<open>zs\<close> that is neither smaller nor bigger, and bigger ones \<open>ys\<close>: without such a
  node it returns 0 and the new node stands between the smaller and the bigger ones, in a tree that is
  again an AVL tree with right father pointers and heights; with such a node it returns -1 and changes
  nothing.
\<close>

theorem avl_insert_correct:
  assumes "avl_good s (xs @ zs @ ys)" "below cmpf xs" "above cmpf ys" "\<forall>z\<in>set zs. hits cmpf z"
    and n: "n \<notin> set (xs @ zs @ ys)" and fuel: "length (xs @ zs @ ys) < fuel"
  shows "if zs = [] then \<exists>s'. avl_insert fuel n cmpf s = Inr (0, s') \<and> avl_good s' (xs @ n # ys)
    else avl_insert fuel n cmpf s = Inr (- 1, s)"
  by (rule avl_insert_ok) (fact assms)+

section \<open>Removal\<close>

lemma zip_split: "x \<in> set_tree t \<Longrightarrow> \<exists>C l r. t = zip_up C (Node l x r) \<and> length C < height t"
proof (induction t)
  case (Node l n r)
  show ?case
  proof (cases "x = n")
    case True
    then show ?thesis by (intro exI [of _ "[]"]) auto
  next
    case False
    then consider "x \<in> set_tree l" | "x \<in> set_tree r" using Node.prems by auto
    then show ?thesis
    proof cases
      case 1
      then obtain C a b where "l = zip_up C (Node a x b)" "length C < height l" using Node.IH(1) by blast
      then show ?thesis by (intro exI [of _ "C @ [(True, n, r)]"]) (auto simp: zip_up_append)
    next
      case 2
      then obtain C a b where "r = zip_up C (Node a x b)" "length C < height r" using Node.IH(2) by blast
      then show ?thesis by (intro exI [of _ "C @ [(False, n, l)]"]) (auto simp: zip_up_append)
    qed
  qed
qed simp

lemma nodes_set_f: "nodes (set_f p v s) x = (if p = Some x then (nodes s x)\<lparr>f := v\<rparr> else nodes s x)"
  by (auto simp: set_f_def upd_def split: option.split)

lemma root_set_f [simp]: "root (set_f p v s) = root s"
  by (simp add: set_f_def upd_def split: option.split)

lemma subth_set_f [simp]: "subth (nodes (set_f p v s) x) = subth (nodes s x)"
  by (simp add: nodes_set_f)

lemma tr_root: "tr h u p t \<Longrightarrow> p = Some x \<Longrightarrow> x \<in> set_tree t"
  by (cases t) auto

text \<open>Cutting out a node with at most one child.\<close>

lemma ndcut_ok:
  assumes a: "at C (Node l x r) s" and e: "l = Leaf \<or> r = Leaf"
  shows "\<exists>s'. avl_ndcut x s = Inr s' \<and> at C (if l = Leaf then r else l) s' \<and>
    (\<forall>y. subth (nodes s' y) = subth (nodes s y)) \<and> (\<forall>y. y \<notin> cset C \<union> set_tree l \<union> set_tree r \<longrightarrow> nodes s' y = nodes s y)"
proof -
  let ?c = "if l = Leaf then r else l"
  have t: "tr (nodes s) (fa C) (Some x) (Node l x r)" "distinct (inorder (Node l x r))" using a by (auto simp: at_def)
  define nc where "nc = (if l = Leaf then rc (nodes s x) else lc (nodes s x))"
  have nc: "tr (nodes s) (Some x) nc ?c" using t(1) by (simp add: nc_def)
  define s1 where "s1 = set_f nc (f (nodes s x)) s"
  have ncx: "nc = Some y \<Longrightarrow> y \<in> set_tree ?c" for y using tr_root [OF nc] by blast
  have fx: "f (nodes s x) = fa C" using t(1) by simp
  have slot: "father_slot x s1 = sl C"
  proof -
    have "x \<notin> set_tree ?c" using t(2) by auto
    then have "f (nodes s1 x) = f (nodes s x)" using ncx [of x] by (auto simp: s1_def nodes_set_f)
    then show ?thesis using at_father_slot [OF a] by (auto simp: father_slot_def s1_def nodes_set_f split: option.splits)
  qed
  have cut: "avl_ndcut x s = Inr (slot_put (sl C) nc s1)"
    using t(1) e slot by (cases l; cases r) (auto simp: avl_ndcut_def Let_def nc_def s1_def)
  have "distinct (inorder ?c)" using t(2) by auto
  then have tr1: "tr (nodes s1) (fa C) nc ?c"
    by (rule tr_rehang [OF nc]) (simp add: s1_def nodes_set_f fx)
  have "same_out (set_tree (Node l x r) \<union> {}) s s1" using ncx by (auto simp: same_out_def s1_def nodes_set_f split: if_splits)
  then have "at C ?c (slot_put (sl C) nc s1)"
    using at_replace(1) [OF a _ _ tr1, of "{}"] t(2) by (cases "l = Leaf") auto
  moreover have own: "owner (sl C) \<subseteq> cset C" by (cases C) (auto split: if_splits)
  moreover have "nodes (slot_put (sl C) nc s1) y = nodes s y" if "y \<notin> cset C \<union> set_tree l \<union> set_tree r" for y
  proof -
    have "nodes s1 y = nodes s y" using that ncx [of y] by (auto simp: s1_def nodes_set_f split: if_splits)
    then show ?thesis using that own by (subst nodes_wr) auto
  qed
  ultimately show ?thesis using cut by (auto simp: s1_def)
qed

text \<open>A fresh node takes the place of another one.\<close>

lemma subst_ok:
  assumes a: "at C (Node l x r) s" and m: "m \<notin> set_tree (Node l x r) \<union> cset C"
  shows "at C (Node l m r) (avl_subst m x s)"
    "subth (nodes (avl_subst m x s) m) = subth (nodes s x)"
    "y \<noteq> m \<Longrightarrow> subth (nodes (avl_subst m x s) y) = subth (nodes s y)"
proof -
  have t: "tr (nodes s) (fa C) (Some x) (Node l x r)" "distinct (inorder (Node l x r))" using a by (auto simp: at_def)
  define s1 where "s1 = upd m (\<lambda>_. nodes s x) s"
  define s2 where "s2 = set_f (lc (nodes s x)) (Some m) s1"
  define s3 where "s3 = set_f (rc (nodes s x)) (Some m) s2"
  have mm: "lc (nodes s x) \<noteq> Some m" "rc (nodes s x) \<noteq> Some m"
    using t(1) m tr_root by fastforce+
  have n3: "nodes s3 m = nodes s x" using mm by (simp add: s3_def s2_def s1_def nodes_set_f upd_def)
  have n3': "nodes s3 y = (if lc (nodes s x) = Some y \<or> rc (nodes s x) = Some y then (nodes s y)\<lparr>f := Some m\<rparr> else nodes s y)"
    if "y \<noteq> m" for y
    using that by (auto simp: s3_def s2_def s1_def nodes_set_f upd_def)
  have lc3: "lc (nodes s3 y) = lc (nodes s y)" if "y \<noteq> m" for y using n3' [OF that] by simp
  have fam: "fa C \<noteq> Some m" using m by (cases C) auto
  have sub: "avl_subst m x s = slot_put (sl C) (Some m) s3"
  proof -
    have "lc (nodes s2 m) = lc (nodes s x)" "rc (nodes s2 m) = rc (nodes s x)" "lc (nodes s1 m) = lc (nodes s x)"
      using mm by (simp_all add: s2_def s1_def nodes_set_f upd_def)
    then have s2': "set_f (lc (nodes s1 m)) (Some m) s1 = s2" "set_f (rc (nodes s2 m)) (Some m) s2 = s3"
      by (simp_all add: s2_def s3_def)
    have "f (nodes s3 m) = fa C" using n3 t(1) by simp
    then have "avl_subst m x s = (case fa C of None \<Rightarrow> slot_put Root (Some m) s3
          | Some p \<Rightarrow> if lc (nodes s3 p) = Some x then slot_put (LC p) (Some m) s3 else slot_put (RC p) (Some m) s3)"
      unfolding avl_subst_def Let_def s1_def [symmetric] s2' by simp
    also have "\<dots> = slot_put (father_slot x s) (Some m) s3"
      using t(1) fam lc3 by (auto simp: father_slot_def split: option.split)
    finally show ?thesis using at_father_slot [OF a] by simp
  qed
  have "tr (nodes s3) (Some m) (lc (nodes s x)) l"
  proof (rule tr_rehang [of "nodes s" "Some x"])
    fix y assume y: "y \<in> set_tree l"
    then have "y \<noteq> m" "rc (nodes s x) \<noteq> Some y" using t m tr_root [of "nodes s" "Some x" "rc (nodes s x)" r y] by auto
    then show "nodes s3 y = (if lc (nodes s x) = Some y then (nodes s y)\<lparr>f := Some m\<rparr> else nodes s y)"
      using n3' [of y] by simp
  qed (use t in auto)
  moreover have "tr (nodes s3) (Some m) (rc (nodes s x)) r"
  proof (rule tr_rehang [of "nodes s" "Some x"])
    fix y assume y: "y \<in> set_tree r"
    then have "y \<noteq> m" "lc (nodes s x) \<noteq> Some y" using t m tr_root [of "nodes s" "Some x" "lc (nodes s x)" l y] by auto
    then show "nodes s3 y = (if rc (nodes s x) = Some y then (nodes s y)\<lparr>f := Some m\<rparr> else nodes s y)"
      using n3' [of y] by simp
  qed (use t in auto)
  ultimately have tr3: "tr (nodes s3) (fa C) (Some m) (Node l m r)" using n3 t(1) by simp
  have "same_out (set_tree (Node l x r) \<union> {m}) s s3"
  proof -
    have "nodes s3 y = nodes s y" if "y \<notin> set_tree (Node l x r) \<union> {m}" for y
      using that n3' [of y] t(1) tr_root [of "nodes s" "Some x" _ l y] tr_root [of "nodes s" "Some x" _ r y] by auto
    then show ?thesis by (simp add: same_out_def s3_def s2_def s1_def upd_def)
  qed
  then show "at C (Node l m r) (avl_subst m x s)"
    unfolding sub using at_replace(1) [OF a _ _ tr3, of "{m}"] t(2) m by auto
  show "subth (nodes (avl_subst m x s) m) = subth (nodes s x)" by (simp add: sub n3)
  show "subth (nodes (avl_subst m x s) y) = subth (nodes s y)" if "y \<noteq> m" using that n3' [of y] by (simp add: sub)
qed

lemma hcx_rename:
  assumes "hcx s k (D @ (b, x, u) # C)" "m \<notin> cset D \<union> set_tree u \<union> cset C"
    "subth (nodes s' m) = subth (nodes s x)" "\<And>y. y \<noteq> m \<Longrightarrow> subth (nodes s' y) = subth (nodes s y)"
  shows "hcx s' k (D @ (b, m, u) # C)"
  using assms(1,2)
proof (induction D arbitrary: k)
  case Nil
  have "hcx s' j C = hcx s j C" for j using Nil.prems(2) by (intro hcx_cong assms(4)) auto
  moreover have "hts (nodes s') u = hts (nodes s) u" using Nil.prems(2) by (intro hts_cong assms(4)) auto
  ultimately show ?case using Nil.prems(1) assms(3) by simp
next
  case (Cons a D)
  obtain dl n v where a: "a = (dl, n, v)" by (cases a) auto
  have "hts (nodes s') v = hts (nodes s) v" using Cons.prems(2) a by (intro hts_cong assms(4)) auto
  then show ?case using Cons assms(4) [of n] a by auto
qed

text \<open>The neighbours in the order, at the ends of the two subtrees.\<close>

lemma most_right_ok:
  "tr (nodes s) u (Some p) t \<Longrightarrow> height t \<le> fuel \<Longrightarrow> \<exists>D l m ws. most_right fuel p s = Inr m \<and>
     zip_up D (Node l m Leaf) = t \<and> (\<forall>v. inorder (zip_up D v) = ws @ inorder v) \<and> length D < height t"
proof (induction t arbitrary: u p fuel)
  case (Node l n r)
  obtain k where k: "fuel = Suc k" using Node.prems(2) by (cases fuel) auto
  show ?case
  proof (cases r)
    case Leaf
    then show ?thesis using Node.prems(1) k by (intro exI [of _ "[]"] exI [of _ l] exI [of _ n]) auto
  next
    case (Node r1 q r2)
    then have "tr (nodes s) (Some n) (Some q) r" "rc (nodes s n) = Some q" using Node.prems(1) by auto
    then obtain D l' m ws where "most_right k q s = Inr m" "zip_up D (Node l' m Leaf) = r"
      "\<forall>v. inorder (zip_up D v) = ws @ inorder v" "length D < height r"
      using Node.IH(2) [of "Some n" q k] Node.prems(2) k by auto
    then show ?thesis using Node.prems(1) k \<open>rc (nodes s n) = Some q\<close>
      by (intro exI [of _ "D @ [(False, n, l)]"] exI [of _ l'] exI [of _ m] exI [of _ "inorder l @ n # ws"])
         (auto simp: zip_up_append)
  qed
qed simp

lemma most_left_ok:
  "tr (nodes s) u (Some p) t \<Longrightarrow> height t \<le> fuel \<Longrightarrow> \<exists>D r m ws. most_left fuel p s = Inr m \<and>
     zip_up D (Node Leaf m r) = t \<and> (\<forall>v. inorder (zip_up D v) = inorder v @ ws) \<and> length D < height t"
proof (induction t arbitrary: u p fuel)
  case (Node l n r)
  obtain k where k: "fuel = Suc k" using Node.prems(2) by (cases fuel) auto
  show ?case
  proof (cases l)
    case Leaf
    then show ?thesis using Node.prems(1) k by (intro exI [of _ "[]"] exI [of _ r] exI [of _ n]) auto
  next
    case (Node l1 q l2)
    then have "tr (nodes s) (Some n) (Some q) l" "lc (nodes s n) = Some q" using Node.prems(1) by auto
    then obtain D r' m ws where "most_left k q s = Inr m" "zip_up D (Node Leaf m r') = l"
      "\<forall>v. inorder (zip_up D v) = inorder v @ ws" "length D < height l"
      using Node.IH(1) [of "Some n" q k] Node.prems(2) k by auto
    then show ?thesis using Node.prems(1) k \<open>lc (nodes s n) = Some q\<close>
      by (intro exI [of _ "D @ [(True, n, r)]"] exI [of _ r'] exI [of _ m] exI [of _ "ws @ n # inorder r"])
         (auto simp: zip_up_append)
  qed
qed simp

text \<open>The node \<open>x\<close> of \<open>C\<close> replaced by the node \<open>m\<close>, cut out of the hole of \<open>D\<close> below it.\<close>

lemma replace_ok:
  assumes a: "at (D @ (b, x, u) # C) (Node l m r) s" and e: "l = Leaf \<or> r = Leaf"
    and h: "hts (nodes s) (zip_up (D @ (b, x, u) # C) (Node l m r))" "avl (zip_up (D @ (b, x, u) # C) (Node l m r))"
    and fuel: "length D + length C + 1 < fuel"
  shows "\<exists>s'. bindE (avl_ndcut m s) (\<lambda>s'. avl_ab fuel (if f (nodes s m) = Some x then Some m else f (nodes s m)) (avl_subst m x s')) = Inr s' \<and>
    avl_good s' (inorder (zip_up (D @ (b, m, u) # C) (if l = Leaf then r else l)))"
proof -
  let ?E = "D @ (b, x, u) # C" and ?F = "D @ (b, m, u) # C" and ?c = "if l = Leaf then r else l"
  obtain s1 where s1: "avl_ndcut m s = Inr s1" "at ?E ?c s1" "\<forall>y. subth (nodes s1 y) = subth (nodes s y)"
    using ndcut_ok [OF a e] by blast
  have mE: "m \<notin> cset ?E \<union> set_tree l \<union> set_tree r" using a by (auto simp: at_def)
  have "distinct (inorder (zip_up ((b, x, u) # C) (zip_up D (Node l m r))))"
    using a unfolding at_zip zip_up_append [symmetric] by (rule conjunct2)
  then have xD: "x \<notin> cset D" unfolding distinct_zip_up set_zip_up by auto
  have a1: "at C (if b then Node (zip_up D ?c) x u else Node u x (zip_up D ?c)) s1"
    using s1(2) by (simp add: at_zip zip_up_append)
  define s2 where "s2 = avl_subst m x s1"
  have fresh: "m \<notin> set_tree (zip_up D ?c) \<union> {x} \<union> set_tree u \<union> cset C"
    using mE by (auto simp: set_zip_up)
  have sub: "at C (if b then Node (zip_up D ?c) m u else Node u m (zip_up D ?c)) s2"
    "subth (nodes s2 m) = subth (nodes s1 x)" "\<And>y. y \<noteq> m \<Longrightarrow> subth (nodes s2 y) = subth (nodes s1 y)"
    using a1 fresh subst_ok [of C "zip_up D ?c" x u s1 m] subst_ok [of C u x "zip_up D ?c" s1 m]
    by (cases b; simp add: s2_def)+
  then have a2: "at ?F ?c s2" by (simp add: at_zip zip_up_append)
  have hs: "hts (nodes s) ?c" "avl ?c" "hcx s (height (Node l m r)) ?E"
    using h hts_zip_up [of s ?E "Node l m r"] by (auto split: if_splits)
  have k: "height (Node l m r) = height ?c + 1" using e by auto
  have "m \<notin> set_tree ?c" using a by (auto simp: at_def)
  then have "subth (nodes s2 y) = subth (nodes s y)" if "y \<in> set_tree ?c" for y using that sub(3) [of y] s1(3) by metis
  then have h2: "hts (nodes s2) ?c" using hs(1) hts_cong [of ?c "nodes s2" "nodes s"] by blast
  have hc: "hcx s2 (height ?c + 1) ?F"
    by (rule hcx_rename [OF hs(3) [unfolded k]]) (use mE sub(2,3) s1(3) in auto)
  have rb: "(if f (nodes s m) = Some x then Some m else f (nodes s m)) = fa ?F"
  proof -
    have "f (nodes s m) = fa ?E" using a by (simp add: at_def)
    then show ?thesis using xD by (cases D) auto
  qed
  obtain s' where "avl_ab fuel (fa ?F) s2 = Inr s'" "avl_good s' (inorder (zip_up ?F ?c))"
    using avl_ab_ok [OF a2 h2 hs(2) hc, of fuel] fuel by auto
  then show ?thesis using s1(1) rb by (simp add: s2_def)
qed

lemma height_zip_up: "length C + height t \<le> height (zip_up C t)"
proof (induction C t rule: zip_up.induct)
  case (2 dl n u C t)
  have "height t + 1 \<le> height (if dl then Node t n u else Node u n t)" by simp
  then show ?case using 2 by simp
qed simp

lemma avl_remove_ok:
  assumes "avl_good s (xs @ x # ys)" and fuel: "length (xs @ x # ys) < fuel"
  shows "\<exists>s'. avl_remove fuel x s = Inr s' \<and> avl_good s' (xs @ ys)"
proof -
  obtain t where t: "at [] t s" "hts (nodes s) t" "avl t" "inorder t = xs @ x # ys" "height t \<le> length (xs @ x # ys)" "distinct (xs @ x # ys)"
    using avl_goodE [OF assms(1)] by metis
  have "x \<in> set_tree t" unfolding set_inorder [symmetric] t(4) by simp
  then obtain C l r where C: "t = zip_up C (Node l x r)" using zip_split by metis
  have hC: "length C + height (Node l x r) < fuel" using height_zip_up [of C "Node l x r"] C t(5) fuel by simp
  obtain as bs where ab: "\<And>t. inorder (zip_up C t) = as @ inorder t @ bs" using inorder_zip_up [of C] by metis
  have "as @ inorder l @ x # inorder r @ bs = xs @ x # ys" using t(4) ab [of "Node l x r"] C by simp
  then have xy: "xs = as @ inorder l" "ys = inorder r @ bs"
    using t(6) append_Cons_eq_iff [of x xs ys "as @ inorder l" "inorder r @ bs"] by auto
  have a: "at C (Node l x r) s" using t(1) C by (simp add: at_zip)
  then have ch: "lc (nodes s x) = None \<longleftrightarrow> l = Leaf" "rc (nodes s x) = None \<longleftrightarrow> r = Leaf" "f (nodes s x) = fa C"
    "tr (nodes s) (Some x) (lc (nodes s x)) l" "tr (nodes s) (Some x) (rc (nodes s x)) r"
    by (cases l; cases r; auto simp: at_def)+
  have hs: "hts (nodes s) (Node l x r)" "avl (Node l x r)" "hcx s (height (Node l x r)) C"
    using hts_zip_up [of s C "Node l x r"] t(2,3) C by auto
  show ?thesis
  proof (cases "l = Leaf \<or> r = Leaf")
    case True
    let ?c = "if l = Leaf then r else l"
    obtain s1 where s1: "avl_ndcut x s = Inr s1" "at C ?c s1" "\<forall>y. subth (nodes s1 y) = subth (nodes s y)"
      using ndcut_ok [OF a True] by blast
    have "hts (nodes s1) ?c" using hs(1) s1(3) hts_cong [of ?c "nodes s1" "nodes s"] by simp
    moreover have "hcx s1 (height (Node l x r)) C" using hs(3) s1(3) hcx_cong [of C s1 s] by simp
    moreover have "height (Node l x r) = height ?c + 1" "avl ?c" using True hs(2) by auto
    ultimately obtain s' where s': "avl_ab fuel (fa C) s1 = Inr s'" "avl_good s' (inorder (zip_up C ?c))"
      using avl_ab_ok [OF s1(2), of "height (Node l x r)" fuel] hC by auto
    have "avl_remove fuel x s = bindE (avl_ndcut x s) (avl_ab fuel (f (nodes s x)))"
      using True ch(1,2) by (auto simp: avl_remove_def split: option.split)
    moreover have "inorder (zip_up C ?c) = xs @ ys" using xy ab True by auto
    ultimately show ?thesis using s1(1) s' ch(3) by simp
  next
    case False
    then obtain p q where pq: "lc (nodes s x) = Some p" "rc (nodes s x) = Some q" using ch(1,2) by auto
    have hp: "subth (nodes s p) = height l" "subth (nodes s q) = height r"
      using chh_height [OF ch(4)] chh_height [OF ch(5)] hs(1) by (simp_all add: pq chh_def)
    have hf: "height l \<le> fuel" "height r \<le> fuel" "length C + 1 + height l < fuel" "length C + 1 + height r < fuel" using hC by auto
    let ?go = "\<lambda>m. bindE (avl_ndcut m s) (\<lambda>s'. avl_ab fuel (if f (nodes s m) = Some x then Some m else f (nodes s m)) (avl_subst m x s'))"
    have rem: "avl_remove fuel x s = bindE (if height r < height l then most_right fuel p s else most_left fuel q s) ?go"
      by (simp add: avl_remove_def pq hp Let_def)
    show ?thesis
    proof (cases "height r < height l")
      case True
      obtain D l' m ws where m: "most_right fuel p s = Inr m" "zip_up D (Node l' m Leaf) = l"
        "\<forall>v. inorder (zip_up D v) = ws @ inorder v" "length D < height l"
        using most_right_ok [of s "Some x" p l fuel] ch(4) pq(1) hf by metis
      have z: "zip_up (D @ (True, x, r) # C) (Node l' m Leaf) = t" using C m(2) by (simp add: zip_up_append)
      have "at (D @ (True, x, r) # C) (Node l' m Leaf) s" using t(1) z by (simp add: at_zip)
      then obtain s' where "?go m = Inr s'" "avl_good s' (inorder (zip_up (D @ (True, m, r) # C) (if l' = Leaf then Leaf else l')))"
        using replace_ok [of D True x r C l' m Leaf s fuel] z t(2,3) m(4) hf(3) by auto
      moreover have "inorder (zip_up (D @ (True, m, r) # C) (if l' = Leaf then Leaf else l')) = xs @ ys"
        using xy ab m(2,3) by (auto simp: zip_up_append)
      ultimately show ?thesis using True rem m(1) by simp
    next
      case below: False
      obtain D r' m ws where m: "most_left fuel q s = Inr m" "zip_up D (Node Leaf m r') = r"
        "\<forall>v. inorder (zip_up D v) = inorder v @ ws" "length D < height r"
        using most_left_ok [of s "Some x" q r fuel] ch(5) pq(2) hf by metis
      have z: "zip_up (D @ (False, x, l) # C) (Node Leaf m r') = t" using C m(2) by (simp add: zip_up_append)
      have "at (D @ (False, x, l) # C) (Node Leaf m r') s" using t(1) z by (simp add: at_zip)
      then obtain s' where "?go m = Inr s'" "avl_good s' (inorder (zip_up (D @ (False, m, l) # C) r'))"
        using replace_ok [of D False x l C Leaf m r' s fuel] z t(2,3) m(4) hf(4) by auto
      moreover have "inorder (zip_up (D @ (False, m, l) # C) r') = xs @ ys"
        using xy ab m(2,3) by (auto simp: zip_up_append)
      ultimately show ?thesis using below rem m(1) by simp
    qed
  qed
qed

text \<open>
  C10: \<^verbatim>\<open>avl_remove\<close> of a node of a well-formed AVL tree succeeds and takes just this node out of the
  order; the result is again an AVL tree with right father pointers and heights.
\<close>

theorem avl_remove_correct:
  assumes "avl_good s (xs @ x # ys)" and fuel: "length (xs @ x # ys) < fuel"
  shows "\<exists>s'. avl_remove fuel x s = Inr s' \<and> avl_good s' (xs @ ys)"
  by (rule avl_remove_ok) (fact assms)+

section \<open>Lookup\<close>

lemma avl_lkup_tr:
  "tr (nodes s) u p t \<Longrightarrow> height t < fuel \<Longrightarrow> inorder t = xs @ zs @ ys \<Longrightarrow> below cmpf xs \<Longrightarrow> above cmpf ys \<Longrightarrow>
     \<forall>z\<in>set zs. hits cmpf z \<Longrightarrow> length zs \<le> 1 \<Longrightarrow>
     avl_lkup fuel cmpf p s = Inr (case zs of [] \<Rightarrow> None | z # _ \<Rightarrow> if cmpf z \<in> {AVLCMP_2IN1, AVLCMP_1EQ2} then Some z else None)"
proof (induction t arbitrary: u p fuel xs ys)
  case Leaf
  then show ?case by (cases fuel) auto
next
  case (Node l n r)
  obtain m where m: "fuel = Suc m" using Node.prems(2) by (cases fuel) auto
  have p: "p = Some n" "tr (nodes s) (Some n) (lc (nodes s n)) l" "tr (nodes s) (Some n) (rc (nodes s n)) r"
    using Node.prems(1) by simp_all
  note cond = Node.prems(4-6)
  have io: "inorder l @ n # inorder r = xs @ zs @ ys" using Node.prems(3) by simp
  consider (hit) "hits cmpf n" | (less) "cmpf n = AVLCMP_1LT2" | (greater) "cmpf n = AVLCMP_1BT2" by (auto simp: hits_def)
  then show ?case
  proof cases
    case hit
    have "n \<in> set (xs @ zs @ ys)" unfolding io [symmetric] by simp
    then have "n \<in> set zs" using hit cond by (auto simp: hits_def below_def above_def)
    then have "zs = [n]" using Node.prems(7) by (cases zs) auto
    then show ?thesis using hit p m by (auto simp: hits_def split: avlcr.split)
  next
    case less
    obtain xs' where "xs = inorder l @ n # xs'" "inorder r = xs' @ zs @ ys"
      using split_below [OF io cond less] by blast
    then show ?thesis using Node.IH(2) [OF p(3), of m xs' ys] Node.prems(2,7) m cond p(1) less by simp
  next
    case greater
    obtain ys' where "ys = ys' @ n # inorder r" "inorder l = xs @ zs @ ys'"
      using split_above [OF io cond greater] by blast
    then show ?thesis using Node.IH(1) [OF p(2), of m xs ys'] Node.prems(2,7) m cond p(1) greater by simp
  qed
qed

lemma avl_lkup_ok:
  assumes "avl_good s (xs @ zs @ ys)" "below cmpf xs" "above cmpf ys" "\<forall>z\<in>set zs. hits cmpf z" "length zs \<le> 1"
    and "length (xs @ zs @ ys) < fuel"
  shows "avl_lkup fuel cmpf (root s) s =
    Inr (case zs of [] \<Rightarrow> None | z # _ \<Rightarrow> if cmpf z \<in> {AVLCMP_2IN1, AVLCMP_1EQ2} then Some z else None)"
proof -
  obtain t where t: "at [] t s" "inorder t = xs @ zs @ ys" "height t \<le> length (xs @ zs @ ys)"
    using avl_goodE [OF assms(1)] by metis
  then have "tr (nodes s) None (root s) t" "height t < fuel" using assms(6) by (simp_all add: at_def)
  then show ?thesis using avl_lkup_tr [OF _ _ t(2) assms(2-5)] by blast
qed

text \<open>
  \<^verbatim>\<open>avl_lkup\<close> in a well-formed tree that the comparison sorts returns the node whose range equals or
  contains what is searched, and nothing when there is none; in particular it ends.
\<close>

lemma avl_lkup_correct:
  assumes "avl_good s (xs @ zs @ ys)" "below cmpf xs" "above cmpf ys" "\<forall>z\<in>set zs. hits cmpf z" "length zs \<le> 1"
    and "length (xs @ zs @ ys) < fuel"
  shows "avl_lkup fuel cmpf (root s) s =
    Inr (case zs of [] \<Rightarrow> None | z # _ \<Rightarrow> if cmpf z \<in> {AVLCMP_2IN1, AVLCMP_1EQ2} then Some z else None)"
  by (rule avl_lkup_ok) (fact assms)+

section \<open>The walk\<close>

fun order :: "avlwt \<Rightarrow> 'p tree \<Rightarrow> 'p list" where
  "order wt Leaf = []"
| "order wt (Node l n r) =
     (case wt of
        AVLWT_LMR \<Rightarrow> order wt l @ n # order wt r
      | AVLWT_LRM \<Rightarrow> order wt l @ order wt r @ [n]
      | AVLWT_MLR \<Rightarrow> n # order wt l @ order wt r
      | AVLWT_MRL \<Rightarrow> n # order wt r @ order wt l
      | AVLWT_RLM \<Rightarrow> order wt r @ order wt l @ [n]
      | AVLWT_RML \<Rightarrow> order wt r @ n # order wt l)"

text \<open>An operation run over a list of nodes until it returns -1.\<close>

fun run :: "('p \<Rightarrow> 'x \<Rightarrow> int \<times> 'x) \<Rightarrow> 'p list \<Rightarrow> 'x \<Rightarrow> int \<times> 'x" where
  "run op [] x = (0, x)"
| "run op (n # ns) x = (let (r, x) = op n x in if r = - 1 then (- 1, x) else run op ns x)"

lemma order_inorder: "order AVLWT_LMR t = inorder t" "order AVLWT_RML t = rev (inorder t)"
  "order AVLWT_MLR t = preorder t" "order AVLWT_LRM t = postorder t"
  by (induction t) auto

lemma set_order: "set (order wt t) = set_tree t"
  by (induction t) (cases wt; auto)+

lemma run_append: "run op (ms @ ns) x = (let (r, x) = run op ms x in if r = - 1 then (- 1, x) else run op ns x)"
  by (induction op ms x rule: run.induct) (auto simp: Let_def split: prod.splits)

lemma run_result: "fst (run op ns x) \<in> {0, - 1}"
  by (induction op ns x rule: run.induct) (auto simp: Let_def split: prod.splits)

lemma seq_run:
  assumes "\<And>x. g x = Inr (run op ms x)" "\<And>x. seq gs x = Inr (run op ns x)"
  shows "seq (g # gs) x = Inr (run op (ms @ ns) x)"
  using assms by (auto simp: run_append Let_def split: prod.split)

lemma avl_walk_order:
  assumes "tr (nodes s) u p t" "hts (nodes s) t" "height t < fuel" and op: "\<And>n x. fst (op n x) \<in> {0, - 1}"
  shows "avl_walk fuel p wt op s x = Inr (run op (order wt t) x)"
  using assms(1-3)
proof (induction t arbitrary: u p fuel x)
  case Leaf
  then show ?case by (cases fuel) auto
next
  case (Node l n r)
  obtain k where k: "fuel = Suc k" using Node.prems(3) by (cases fuel) auto
  have p: "p = Some n" using Node.prems(1) by simp
  have one: "Inr (op n x) = Inr (run op [n] x)" for x
    using op [of n x] by (cases "op n x") auto
  have L: "avl_walk k (lc (nodes s n)) wt op s x = Inr (run op (order wt l) x)" for x
    using Node.IH(1) [of "Some n" "lc (nodes s n)" k x] Node.prems k by auto
  have R: "avl_walk k (rc (nodes s n)) wt op s x = Inr (run op (order wt r) x)" for x
    using Node.IH(2) [of "Some n" "rc (nodes s n)" k x] Node.prems k by auto
  have nil: "seq [] x = Inr (run op [] x)" for x :: 'b by simp
  note sq = seq_run [OF L seq_run [OF one seq_run [OF R nil]]] seq_run [OF L seq_run [OF R seq_run [OF one nil]]]
    seq_run [OF one seq_run [OF L seq_run [OF R nil]]] seq_run [OF one seq_run [OF R seq_run [OF L nil]]]
    seq_run [OF R seq_run [OF L seq_run [OF one nil]]] seq_run [OF R seq_run [OF one seq_run [OF L nil]]]
  show ?case
  proof (cases "subth (nodes s n) = 1")
    case True
    then have "l = Leaf" "r = Leaf" using Node.prems(2) by auto
    then have "order wt (Node l n r) = [n]" by (cases wt) auto
    then show ?thesis using True p k one by (simp add: Let_def del: run.simps)
  next
    case False
    then show ?thesis using p k sq by (cases wt) (simp_all add: Let_def del: seq.simps run.simps)
  qed
qed

section \<open>Witnesses\<close>

text \<open>Two nodes in a row: a third one on the same side needs a rotation.\<close>

definition two_nodes :: "nat avls" where
  "two_nodes = \<lparr>nodes = (\<lambda>n. if n = 1 then \<lparr>f = None, lc = None, rc = Some 2, subth = 2\<rparr>
       else \<lparr>f = Some 1, lc = None, rc = None, subth = 1\<rparr>), root = Some 1\<rparr>"

definition cmp_nat :: "nat \<Rightarrow> nat \<Rightarrow> avlcr" where
  "cmp_nat k n = (if n < k then AVLCMP_1LT2 else if k < n then AVLCMP_1BT2 else AVLCMP_1EQ2)"

lemma two_nodes_good: "avl_good two_nodes [1, 2]"
proof -
  have "tr (nodes two_nodes) None (root two_nodes) (Node Leaf 1 (Node Leaf 2 Leaf))"
    "hts (nodes two_nodes) (Node Leaf 1 (Node Leaf 2 Leaf))"
    by (simp_all add: two_nodes_def)
  moreover have "avl (Node Leaf (1 :: nat) (Node Leaf 2 Leaf))" by simp
  ultimately show ?thesis unfolding avl_good_def by fastforce
qed

theorem avl_insert_correct_witness: "\<exists>s'. avl_insert 9 3 (cmp_nat 3) two_nodes = Inr (0, s') \<and> avl_good s' [1, 2, 3]"
  using avl_insert_correct [of two_nodes "[1, 2]" "[]" "[]" "cmp_nat 3" 3 9] two_nodes_good by (simp add: cmp_nat_def)

theorem avl_remove_correct_witness: "\<exists>s'. avl_remove 9 1 two_nodes = Inr s' \<and> avl_good s' [2]"
  using avl_remove_correct [of two_nodes "[]" 1 "[2]" 9] two_nodes_good by simp

end
