(* ===== verification/Slab.thy ===== *)
theory Slab
  imports Buddy Avl
begin

text \<open>
  The slab caches of \<^verbatim>\<open>mm/slab.c\<close>, on the page allocator of \<open>Buddy\<close>, the linked lists of
  \<open>ListHead\<close> and the AVL trees of \<open>Avl\<close>. A slab is the address of the pages it lies in. A cache is
  kept with the descriptors of its slabs and the \<^verbatim>\<open>next\<close> words of its free blocks; addresses are
  natural numbers, 0 is \<^verbatim>\<open>NULL\<close>; no slab ends at 4 GB.
\<close>

section \<open>The code\<close>

datatype snode = Afh | Hfh | Nfh | Slb nat

record slab =
  rg_left :: nat
  rg_right :: nat
  freepos :: nat
  n_fblk :: nat

record memcache =
  c_name :: cstr
  c_links :: "snode lstore"
  slbt :: "nat avls"
  r_slb :: nat
  s_blk :: nat
  bps :: nat
  n_blk :: nat
  slabs :: "nat \<Rightarrow> slab"
  fnext :: "nat \<Rightarrow> nat"

definition sizeof_nfblock :: nat where "sizeof_nfblock = 4"
definition sizeof_slab :: nat where "sizeof_slab = 40"
definition sizeof_memcache :: nat where "sizeof_memcache = 84"
definition MEMCACHE_NAME_MAXLEN :: nat where "MEMCACHE_NAME_MAXLEN = 32"

definition slab_bytes :: "nat \<Rightarrow> nat" where
  "slab_bytes r = push_bit (r + 12) 1"

text \<open>A cache before \<^verbatim>\<open>init_onecache\<close>: memory full of zeros.\<close>

definition zero_cache :: memcache where
  "zero_cache = \<lparr>c_name = [], c_links = (\<lambda>_. \<lparr>lprev = None, lnext = None\<rparr>),
     slbt = \<lparr>nodes = (\<lambda>_. \<lparr>f = None, lc = None, rc = None, subth = 0\<rparr>), root = None\<rparr>,
     r_slb = 0, s_blk = 0, bps = 0, n_blk = 0, slabs = (\<lambda>_. \<lparr>rg_left = 0, rg_right = 0, freepos = 0, n_fblk = 0\<rparr>),
     fnext = (\<lambda>_. 0)\<rparr>"

definition init_onecache :: "cstr \<Rightarrow> nat \<Rightarrow> nat \<Rightarrow> memcache \<Rightarrow> memcache res" where
  "init_onecache name sz r c =
     (let c = c\<lparr>c_links := list_init Nfh (list_init Hfh (list_init Afh (c_links c))), c_name := text_of name\<rparr>;
          b = (sz + sizeof_nfblock - 1) div sizeof_nfblock * sizeof_nfblock
      in if b = 0 then Inl Fault
         else Inr (c\<lparr>s_blk := b, r_slb := r, bps := (slab_bytes r - sizeof_slab) div b, n_blk := 0,
                     slbt := (slbt c)\<lparr>root := None\<rparr>\<rparr>))"

text \<open>The loop of \<^verbatim>\<open>initslab\<close> over the blocks; with a block size of 0 it would not end.\<close>

function init_blocks :: "nat \<Rightarrow> nat \<Rightarrow> nat \<Rightarrow> nat \<Rightarrow> (nat \<Rightarrow> nat) \<Rightarrow> (nat \<times> (nat \<Rightarrow> nat)) res" where
  "init_blocks sz rgt fp pos nx =
     (if fp + sz \<le> rgt then
        if sz = 0 then Inl Stuck else init_blocks sz rgt (fp + sz) fp (nx(fp := pos))
      else Inr (pos, nx))"
  by pat_completeness auto
termination by (relation "measure (\<lambda>(sz, rgt, fp, pos, nx). rgt - fp)") auto

declare init_blocks.simps [simp del]

definition upd_slab :: "nat \<Rightarrow> (slab \<Rightarrow> slab) \<Rightarrow> memcache \<Rightarrow> memcache" where
  "upd_slab b g c = c\<lparr>slabs := (slabs c)(b := g (slabs c b))\<rparr>"

definition initslab :: "nat \<Rightarrow> memcache \<Rightarrow> memcache res" where
  "initslab b c =
     (let rgt = b + slab_bytes (r_slb c)
      in bindE (init_blocks (s_blk c) rgt (b + sizeof_slab) 0 (fnext c)) (\<lambda>(pos, nx).
         Inr (upd_slab b (\<lambda>_. \<lparr>rg_left = b + sizeof_slab, rg_right = rgt, freepos = pos, n_fblk = bps c\<rparr>)
                (c\<lparr>fnext := nx\<rparr>))))"

definition slabcmp :: "nat \<times> nat \<Rightarrow> nat \<times> nat \<Rightarrow> avlcr" where
  "slabcmp r1 r2 =
     (if snd r1 \<le> fst r2 then AVLCMP_1LT2
      else if snd r2 \<le> fst r1 then AVLCMP_1BT2
      else if fst r1 = fst r2 \<and> snd r1 = snd r2 then AVLCMP_1EQ2
      else if fst r2 \<le> fst r1 \<and> snd r1 \<le> snd r2 then AVLCMP_1IN2
      else if fst r1 \<le> fst r2 \<and> snd r2 \<le> snd r1 then AVLCMP_2IN1
      else AVLCMP_OVLP)"

definition range_of :: "memcache \<Rightarrow> nat \<Rightarrow> nat \<times> nat" where
  "range_of c b = (rg_left (slabs c b), rg_right (slabs c b))"

text \<open>\<^verbatim>\<open>list_remove\<close>, then \<^verbatim>\<open>list_add_head\<close>.\<close>

definition move_slab :: "nat \<Rightarrow> snode \<Rightarrow> memcache \<Rightarrow> memcache res" where
  "move_slab b head c =
     bindE (bindE (list_remove (Slb b) (c_links c)) (list_add_head (Slb b) head)) (\<lambda>h. Inr (c\<lparr>c_links := h\<rparr>))"

text \<open>The slab \<^verbatim>\<open>memcache_alloc\<close> takes the block from, with the state after getting new pages.\<close>

definition get_slab :: "memcache \<Rightarrow> mmstate \<Rightarrow> (nat option \<times> memcache \<times> mmstate) res" where
  "get_slab c mm =
     (if \<not> check_list_empty Hfh (c_links c) then
        (case lnext (c_links c Hfh) of Some (Slb b) \<Rightarrow> Inr (Some b, c, mm) | _ \<Rightarrow> Inl Fault)
      else if \<not> check_list_empty Afh (c_links c) then
        (case lnext (c_links c Afh) of Some (Slb b) \<Rightarrow> Inr (Some b, c, mm) | _ \<Rightarrow> Inl Fault)
      else bindE (page_alloc (r_slb c) MMAREA_NORMAL False mm) (\<lambda>(p, mm).
           (case p of
              None \<Rightarrow> Inr (None, c, mm)
            | Some b \<Rightarrow>
                bindE (initslab b c) (\<lambda>c.
                bindE (list_add_head (Slb b) Afh (c_links c)) (\<lambda>h.
                Inr (Some b, c\<lparr>c_links := h\<rparr>, mm))))))"

text \<open>The first free block of a slab is taken out.\<close>

definition take_block :: "nat \<Rightarrow> nat \<Rightarrow> memcache \<Rightarrow> (nat \<times> memcache) res" where
  "take_block fuel b c =
     (let fp = freepos (slabs c b)
      in if fp = 0 then Inl Fault
         else
           let c = upd_slab b (\<lambda>s. s\<lparr>freepos := fnext c fp\<rparr>) c
           in bindE (if n_fblk (slabs c b) = bps c then
                       bindE (move_slab b Hfh c) (\<lambda>c.
                       bindE (avl_insert fuel b (\<lambda>n. slabcmp (range_of c n) (range_of c b)) (slbt c)) (\<lambda>(r, t).
                       bindE (assertE (0 = r)) (\<lambda>_. Inr (c\<lparr>slbt := t\<rparr>))))
                     else Inr c) (\<lambda>c.
              let c = upd_slab b (\<lambda>s. s\<lparr>n_fblk := n_fblk s - 1\<rparr>) c
              in bindE (if n_fblk (slabs c b) = 0 then move_slab b Nfh c else Inr c) (\<lambda>c.
                 Inr (fp, c\<lparr>n_blk := n_blk c + 1\<rparr>))))"

definition memcache_alloc :: "nat \<Rightarrow> memcache \<Rightarrow> mmstate \<Rightarrow> (nat option \<times> memcache \<times> mmstate) res" where
  "memcache_alloc fuel c mm =
     bindE (get_slab c mm) (\<lambda>(sl, c, mm).
     (case sl of
        None \<Rightarrow> Inr (None, c, mm)
      | Some b \<Rightarrow>
          bindE (take_block fuel b c) (\<lambda>(fp, c).
          Inr (Some fp, c, mm\<lparr>ram := memset (of_nat fp) 0 (s_blk c) (ram mm)\<rparr>))))"

definition memcache_free :: "nat \<Rightarrow> nat \<Rightarrow> memcache \<Rightarrow> memcache res" where
  "memcache_free fuel bk c =
     bindE (avl_lkup fuel (\<lambda>n. slabcmp (range_of c n) (bk, bk + s_blk c)) (root (slbt c)) (slbt c)) (\<lambda>p.
     (case p of
        None \<Rightarrow> Inl Die
      | Some b \<Rightarrow>
          let c = c\<lparr>fnext := (fnext c)(bk := freepos (slabs c b))\<rparr>;
              c = upd_slab b (\<lambda>s. s\<lparr>freepos := bk\<rparr>) c
          in bindE (if n_fblk (slabs c b) = 0 then move_slab b Hfh c else Inr c) (\<lambda>c.
             let c = upd_slab b (\<lambda>s. s\<lparr>n_fblk := n_fblk s + 1\<rparr>) c
             in bindE (if n_fblk (slabs c b) = bps c then
                         bindE (move_slab b Afh c) (\<lambda>c.
                         bindE (avl_remove fuel b (slbt c)) (\<lambda>t. Inr (c\<lparr>slbt := t\<rparr>)))
                       else Inr c) (\<lambda>c.
                Inr (c\<lparr>n_blk := n_blk c - 1\<rparr>)))))"

text \<open>The lists of slabs walked by \<^verbatim>\<open>memcache_destroy\<close>.\<close>

fun free_slabs :: "snode list \<Rightarrow> mmstate \<Rightarrow> mmstate res" where
  "free_slabs [] mm = Inr mm"
| "free_slabs (Slb b # ps) mm = bindE (page_free b mm) (free_slabs ps)"
| "free_slabs (_ # ps) mm = Inl Fault"

definition release_slabs :: "nat \<Rightarrow> memcache \<Rightarrow> mmstate \<Rightarrow> mmstate res" where
  "release_slabs fuel c mm =
     bindE (list_walk fuel (c_links c) Afh (lnext (c_links c Afh))) (\<lambda>ps. bindE (free_slabs ps mm) (\<lambda>mm.
     bindE (list_walk fuel (c_links c) Hfh (lnext (c_links c Hfh))) (\<lambda>ps. bindE (free_slabs ps mm) (\<lambda>mm.
     bindE (list_walk fuel (c_links c) Nfh (lnext (c_links c Nfh))) (\<lambda>ps. free_slabs ps mm)))))"

text \<open>
  All caches: their structures are blocks of the cache \<^verbatim>\<open>cache_cache\<close>, linked in its list
  (\<open>None\<close> is the list head).
\<close>

record slabsys =
  cache_cache :: memcache
  caches :: "nat \<Rightarrow> memcache"
  cachelist :: "nat option lstore"
  sys_mm :: mmstate

definition slab_init :: "slabsys \<Rightarrow> slabsys res" where
  "slab_init s =
     bindE (init_onecache (map of_char ''cache_cache'') sizeof_memcache 0 (cache_cache s)) (\<lambda>c.
     Inr (s\<lparr>cache_cache := c, cachelist := list_init None (cachelist s)\<rparr>))"

definition memcache_create :: "nat \<Rightarrow> nat \<Rightarrow> nat \<Rightarrow> cstr \<Rightarrow> slabsys \<Rightarrow> (nat option \<times> slabsys) res" where
  "memcache_create fuel sz r name s =
     (if MEMCACHE_NAME_MAXLEN \<le> unat (strlen name) then Inr (None, s)
      else bindE (memcache_alloc fuel (cache_cache s) (sys_mm s)) (\<lambda>(p, cc, m).
           let s = s\<lparr>cache_cache := cc, sys_mm := m\<rparr>
           in (case p of
                 None \<Rightarrow> Inr (None, s)
               | Some a \<Rightarrow>
                   bindE (init_onecache name sz r zero_cache) (\<lambda>c.
                   let s = s\<lparr>caches := (caches s)(a := c), cachelist := list_init (Some a) (cachelist s)\<rparr>
                   in bindE (list_add_head (Some a) None (cachelist s)) (\<lambda>h.
                      Inr (Some a, s\<lparr>cachelist := h\<rparr>))))))"

definition memcache_destroy :: "nat \<Rightarrow> nat \<Rightarrow> slabsys \<Rightarrow> slabsys res" where
  "memcache_destroy fuel a s =
     (if a = 0 then Inr s
      else bindE (release_slabs fuel (caches s a) (sys_mm s)) (\<lambda>m.
           bindE (list_remove (Some a) (cachelist s)) (\<lambda>h.
           bindE (memcache_free fuel a (cache_cache s)) (\<lambda>cc.
           Inr (s\<lparr>sys_mm := m, cachelist := h, cache_cache := cc\<rparr>)))))"

section \<open>The invariant\<close>

fun chain :: "(nat \<Rightarrow> nat) \<Rightarrow> nat \<Rightarrow> nat list \<Rightarrow> bool" where
  "chain nx p [] = (p = 0)"
| "chain nx p (x # xs) = (p = x \<and> x \<noteq> 0 \<and> chain nx (nx x) xs)"

lemma chain_cong: "(\<And>x. x \<in> set xs \<Longrightarrow> nx' x = nx x) \<Longrightarrow> chain nx' p xs = chain nx p xs"
  by (induction xs arbitrary: p) auto

definition slab_heads :: "snode set" where
  "slab_heads = {Afh, Hfh, Nfh}"

definition in_list :: "(snode \<Rightarrow> snode list) \<Rightarrow> snode \<Rightarrow> nat set" where
  "in_list L h = {b. Slb b \<in> set (L h)}"

definition all_slabs :: "(snode \<Rightarrow> snode list) \<Rightarrow> nat set" where
  "all_slabs L = in_list L Afh \<union> in_list L Hfh \<union> in_list L Nfh"

definition blocks :: "memcache \<Rightarrow> nat \<Rightarrow> nat set" where
  "blocks c b = (\<lambda>i. b + sizeof_slab + i * s_blk c) ` {..<bps c}"

definition shape_ok :: "memcache \<Rightarrow> bool" where
  "shape_ok c \<longleftrightarrow> 0 < s_blk c \<and> bps c = (slab_bytes (r_slb c) - sizeof_slab) div s_blk c \<and> 1 \<le> bps c \<and> r_slb c < BUDDY_RANKNUM"

definition slab_ok :: "memcache \<Rightarrow> (nat \<Rightarrow> nat list) \<Rightarrow> nat \<Rightarrow> bool" where
  "slab_ok c fl b \<longleftrightarrow> range_of c b = (b + sizeof_slab, b + slab_bytes (r_slb c)) \<and>
     chain (fnext c) (freepos (slabs c b)) (fl b) \<and> distinct (fl b) \<and> set (fl b) \<subseteq> blocks c b \<and>
     n_fblk (slabs c b) = length (fl b)"

text \<open>How full the slabs of each list are.\<close>

definition count_ok :: "memcache \<Rightarrow> (snode \<Rightarrow> snode list) \<Rightarrow> (nat \<Rightarrow> nat list) \<Rightarrow> nat \<Rightarrow> bool" where
  "count_ok c L fl b \<longleftrightarrow> (b \<in> in_list L Afh \<longrightarrow> length (fl b) = bps c) \<and>
     (b \<in> in_list L Hfh \<longrightarrow> 0 < length (fl b) \<and> length (fl b) < bps c) \<and> (b \<in> in_list L Nfh \<longrightarrow> fl b = [])"

definition lists_ok :: "(snode \<Rightarrow> snode list) \<Rightarrow> snode lstore \<Rightarrow> bool" where
  "lists_ok L h \<longleftrightarrow> rings UNIV slab_heads L h \<and> (\<forall>a\<in>slab_heads. set (L a) \<subseteq> range Slb)"

definition tree_ok :: "nat avls \<Rightarrow> (snode \<Rightarrow> snode list) \<Rightarrow> nat list \<Rightarrow> bool" where
  "tree_ok t L xs \<longleftrightarrow> avl_good t xs \<and> set xs = in_list L Hfh \<union> in_list L Nfh \<and> sorted xs"

text \<open>
  The cache, with the lists \<open>L\<close>, the free blocks \<open>fl\<close> and the slabs \<open>xs\<close> of the tree in the order of
  their addresses; \<open>A\<close> are blocks of pages handed out by the page allocator.
\<close>

definition cache_inv :: "memcache \<Rightarrow> (nat \<times> nat) set \<Rightarrow> (snode \<Rightarrow> snode list) \<Rightarrow> (nat \<Rightarrow> nat list) \<Rightarrow> nat list \<Rightarrow> bool" where
  "cache_inv c A L fl xs \<longleftrightarrow> shape_ok c \<and> lists_ok L (c_links c) \<and> tree_ok (slbt c) L xs \<and>
     (\<forall>b\<in>all_slabs L. slab_ok c fl b \<and> count_ok c L fl b \<and> (\<exists>p. b = page2pa p \<and> (p, r_slb c) \<in> A)) \<and>
     (\<forall>b\<in>all_slabs L. \<forall>d\<in>all_slabs L. b < d \<longrightarrow> b + slab_bytes (r_slb c) \<le> d)"

definition used :: "memcache \<Rightarrow> (snode \<Rightarrow> snode list) \<Rightarrow> (nat \<Rightarrow> nat list) \<Rightarrow> nat set" where
  "used c L fl = {x. \<exists>b\<in>all_slabs L. x \<in> blocks c b \<and> x \<notin> set (fl b)}"

lemma slab_heads_simps [simp]: "Afh \<in> slab_heads" "Hfh \<in> slab_heads" "Nfh \<in> slab_heads" "Slb b \<notin> slab_heads"
  by (simp_all add: slab_heads_def)

lemma cache_invD:
  assumes "cache_inv c A L fl xs"
  shows "shape_ok c" "lists_ok L (c_links c)" "tree_ok (slbt c) L xs" "b \<in> all_slabs L \<Longrightarrow> slab_ok c fl b"
    "b \<in> all_slabs L \<Longrightarrow> count_ok c L fl b" "b \<in> all_slabs L \<Longrightarrow> \<exists>p. b = page2pa p \<and> (p, r_slb c) \<in> A"
    "b \<in> all_slabs L \<Longrightarrow> d \<in> all_slabs L \<Longrightarrow> b < d \<Longrightarrow> b + slab_bytes (r_slb c) \<le> d"
  using assms by (auto simp: cache_inv_def)

lemma in_list_distinct:
  assumes "lists_ok L h" "a \<in> slab_heads" "e \<in> slab_heads" "a \<noteq> e" "b \<in> in_list L a"
  shows "b \<notin> in_list L e"
  using lh.lists_apart [of UNIV slab_heads L h a e] assms by (auto simp: in_list_def lists_ok_def)

lemma shape_bytes:
  assumes "shape_ok c" "i < bps c"
  shows "sizeof_slab + i * s_blk c + s_blk c \<le> slab_bytes (r_slb c)" "sizeof_slab < slab_bytes (r_slb c)"
proof -
  have "(i + 1) * s_blk c \<le> bps c * s_blk c" using assms(2) by (intro mult_le_mono1) simp
  also have "\<dots> \<le> slab_bytes (r_slb c) - sizeof_slab" using assms(1) by (simp add: shape_ok_def)
  finally have le: "(i + 1) * s_blk c \<le> slab_bytes (r_slb c) - sizeof_slab" .
  moreover have "0 < (i + 1) * s_blk c" using assms(1) by (simp add: shape_ok_def)
  ultimately show "sizeof_slab < slab_bytes (r_slb c)" by linarith
  with le show "sizeof_slab + i * s_blk c + s_blk c \<le> slab_bytes (r_slb c)" by simp
qed

lemma in_blocks:
  assumes "shape_ok c" "x \<in> blocks c b"
  shows "b + sizeof_slab \<le> x" "x + s_blk c \<le> b + slab_bytes (r_slb c)"
  using assms shape_bytes(1) [OF assms(1)] by (fastforce simp: blocks_def)+

lemma card_blocks: "shape_ok c \<Longrightarrow> card (blocks c b) = bps c"
  unfolding blocks_def by (subst card_image) (auto simp: inj_on_def shape_ok_def)

text \<open>A block lies in one slab only.\<close>

lemma block_slab:
  assumes inv: "cache_inv c A L fl xs" and b: "b \<in> all_slabs L" "d \<in> all_slabs L" and x: "x \<in> blocks c b" "x \<in> blocks c d"
  shows "b = d"
proof (rule ccontr)
  assume "b \<noteq> d"
  note sh = cache_invD(1) [OF inv]
  have "0 < s_blk c" using sh by (simp add: shape_ok_def)
  moreover have "b + slab_bytes (r_slb c) \<le> d \<or> d + slab_bytes (r_slb c) \<le> b"
    using cache_invD(7) [OF inv] b \<open>b \<noteq> d\<close> by (metis linorder_neqE_nat)
  ultimately show False using in_blocks [OF sh x(1)] in_blocks [OF sh x(2)] by linarith
qed

lemma init_blocks_ok:
  "0 < sz \<Longrightarrow> 0 < fp \<Longrightarrow> rgt = fp + n * sz + d \<Longrightarrow> d < sz \<Longrightarrow> chain nx pos acc \<Longrightarrow> \<forall>x\<in>set acc. x < fp \<Longrightarrow>
     \<exists>pos' nx'. init_blocks sz rgt fp pos nx = Inr (pos', nx') \<and>
       chain nx' pos' (rev (map (\<lambda>i. fp + i * sz) [0..<n]) @ acc) \<and>
       (\<forall>x. x \<notin> (\<lambda>i. fp + i * sz) ` {..<n} \<longrightarrow> nx' x = nx x)"
proof (induction n arbitrary: fp pos nx acc)
  case 0
  then show ?case by (simp add: init_blocks.simps [of sz])
next
  case (Suc n)
  let ?nx = "nx(fp := pos)"
  have "chain ?nx pos acc" using Suc.prems(5,6) by (subst chain_cong [of _ _ nx]) auto
  then have ch: "chain ?nx fp (fp # acc)" using Suc.prems(2) by simp
  have ac: "\<forall>x\<in>set (fp # acc). x < fp + sz" using Suc.prems(1,6) by auto
  have eq: "rgt = fp + sz + n * sz + d" "0 < fp + sz" using Suc.prems(2,3) by simp_all
  obtain pos' nx' where IH: "init_blocks sz rgt (fp + sz) fp ?nx = Inr (pos', nx')"
    "chain nx' pos' (rev (map (\<lambda>i. fp + sz + i * sz) [0..<n]) @ fp # acc)"
    "\<forall>x. x \<notin> (\<lambda>i. fp + sz + i * sz) ` {..<n} \<longrightarrow> nx' x = ?nx x"
    using Suc.IH [OF Suc.prems(1) eq(2,1) Suc.prems(4) ch ac] by blast
  have "rev (map (\<lambda>i. fp + i * sz) [0..<Suc n]) @ acc = rev (map (\<lambda>i. fp + sz + i * sz) [0..<n]) @ fp # acc"
    by (simp add: map_upt_Suc algebra_simps del: upt_Suc)
  moreover have "(\<lambda>i. fp + i * sz) ` {..<Suc n} = insert fp ((\<lambda>i. fp + sz + i * sz) ` {..<n})"
    by (simp add: lessThan_Suc_eq_insert_0 image_image algebra_simps)
  moreover have "init_blocks sz rgt fp pos nx = init_blocks sz rgt (fp + sz) fp ?nx"
    using Suc.prems(1,3) by (subst init_blocks.simps) simp
  ultimately show ?case using IH by auto
qed

text \<open>A new slab: all its blocks are free.\<close>

lemma initslab_ok:
  assumes "shape_ok c"
  shows "\<exists>c' ys. initslab b c = Inr c' \<and> slab_ok c' (\<lambda>_. ys) b \<and> length ys = bps c \<and> set ys = blocks c b \<and>
    (\<forall>d. d \<noteq> b \<longrightarrow> slabs c' d = slabs c d) \<and> (\<forall>x. x \<notin> blocks c b \<longrightarrow> fnext c' x = fnext c x) \<and>
    c' = c\<lparr>slabs := slabs c', fnext := fnext c'\<rparr>"
proof -
  let ?fp = "b + sizeof_slab" and ?rgt = "b + slab_bytes (r_slb c)"
  have sz: "0 < s_blk c" "bps c = (slab_bytes (r_slb c) - sizeof_slab) div s_blk c" "0 < bps c" using assms by (auto simp: shape_ok_def)
  define d where "d = (slab_bytes (r_slb c) - sizeof_slab) mod s_blk c"
  have "sizeof_slab < slab_bytes (r_slb c)" using shape_bytes(2) [OF assms sz(3)] .
  moreover have "bps c * s_blk c + d = slab_bytes (r_slb c) - sizeof_slab"
    unfolding d_def sz(2) by (rule div_mult_mod_eq)
  ultimately have r: "?rgt = ?fp + bps c * s_blk c + d" by simp
  have d: "d < s_blk c" using sz(1) by (simp add: d_def)
  obtain pos nx where i: "init_blocks (s_blk c) ?rgt ?fp 0 (fnext c) = Inr (pos, nx)"
    "chain nx pos (rev (map (\<lambda>i. ?fp + i * s_blk c) [0..<bps c]) @ [])"
    "\<forall>x. x \<notin> (\<lambda>i. ?fp + i * s_blk c) ` {..<bps c} \<longrightarrow> nx x = fnext c x"
    using init_blocks_ok [OF sz(1) _ r d, of "fnext c" 0 "[]"] by (auto simp: sizeof_slab_def)
  let ?ys = "rev (map (\<lambda>i. ?fp + i * s_blk c) [0..<bps c])"
  let ?c = "upd_slab b (\<lambda>_. \<lparr>rg_left = ?fp, rg_right = ?rgt, freepos = pos, n_fblk = bps c\<rparr>) (c\<lparr>fnext := nx\<rparr>)"
  have ys: "set ?ys = blocks c b" "distinct ?ys" using sz(1) by (auto simp: blocks_def distinct_map inj_on_def)
  have "initslab b c = Inr ?c" using i(1) by (simp add: initslab_def Let_def)
  moreover have "slab_ok ?c (\<lambda>_. ?ys) b"
    using i(2) ys by (simp add: slab_ok_def range_of_def upd_slab_def blocks_def)
  ultimately show ?thesis using i(3) ys(1)
    by (intro exI [of _ ?c] exI [of _ ?ys]) (simp add: upd_slab_def blocks_def)
qed

section \<open>Moving slabs between the lists\<close>

lemma move_slab_ok:
  assumes l: "lists_ok L (c_links c)" and b: "b \<in> all_slabs L" and e: "e \<in> slab_heads"
  shows "\<exists>h L'. move_slab b e c = Inr (c\<lparr>c_links := h\<rparr>) \<and> lists_ok L' h \<and>
    (\<forall>a\<in>slab_heads. in_list L' a = (if a = e then insert b (in_list L a) else in_list L a - {b}))"
proof -
  have r: "rings UNIV slab_heads L (c_links c)" and s: "\<And>a. a \<in> slab_heads \<Longrightarrow> set (L a) \<subseteq> range Slb"
    using l by (auto simp: lists_ok_def)
  obtain a where a: "a \<in> slab_heads" "b \<in> in_list L a"
    using b slab_heads_simps(1-3) unfolding all_slabs_def by blast
  then have m: "Slb b \<in> set (L a)" by (simp add: in_list_def)
  define L1 where "L1 = L(a := remove1 (Slb b) (L a))"
  define L2 where "L2 = L1(e := Slb b # L1 e)"
  obtain h where h: "bindE (list_remove (Slb b) (c_links c)) (list_add_head (Slb b) e) = Inr h" "rings UNIV slab_heads L2 h"
    using lh.move_head [OF r a(1) e m] unfolding L1_def L2_def by blast
  have d: "set (remove1 (Slb b) (L a)) = set (L a) - {Slb b}" using lh.list_distinct [OF r a(1)] by (rule set_remove1_eq)
  have "b \<notin> in_list L g" if "g \<in> slab_heads" "g \<noteq> a" for g
    using in_list_distinct [OF l a(1) that(1) _ a(2)] that(2) by blast
  then have "in_list L2 g = (if g = e then insert b (in_list L g) else in_list L g - {b})" if "g \<in> slab_heads" for g
    using that d by (auto simp: L2_def L1_def in_list_def)
  moreover have "set (L2 g) \<subseteq> range Slb" if "g \<in> slab_heads" for g
    using s [OF that] s [OF a(1)] d by (auto simp: L2_def L1_def)
  ultimately show ?thesis using h by (intro exI [of _ h] exI [of _ L2]) (simp add: move_slab_def lists_ok_def)
qed

lemma all_slabs_move:
  assumes "\<forall>a\<in>slab_heads. in_list L' a = (if a = e then insert b (in_list L a) else in_list L a - {b})" "e \<in> slab_heads" "b \<in> all_slabs L"
  shows "all_slabs L' = all_slabs L"
  using assms by (auto simp: all_slabs_def slab_heads_def)

section \<open>The comparisons\<close>

lemma slabcmp_other:
  assumes inv: "cache_inv c A L fl xs" and d: "d \<in> all_slabs L" "b \<in> all_slabs L"
    and k: "b + sizeof_slab \<le> k" "k < k'" "k' \<le> b + slab_bytes (r_slb c)" and c': "range_of c' d = range_of c d"
  shows "d < b \<Longrightarrow> slabcmp (range_of c' d) (k, k') = AVLCMP_1LT2" "b < d \<Longrightarrow> slabcmp (range_of c' d) (k, k') = AVLCMP_1BT2"
proof -
  have r: "range_of c d = (d + sizeof_slab, d + slab_bytes (r_slb c))"
    using cache_invD(4) [OF inv d(1)] by (simp add: slab_ok_def)
  show "d < b \<Longrightarrow> slabcmp (range_of c' d) (k, k') = AVLCMP_1LT2"
    using cache_invD(7) [OF inv d] k r by (simp add: slabcmp_def c')
  show "b < d \<Longrightarrow> slabcmp (range_of c' d) (k, k') = AVLCMP_1BT2"
    using cache_invD(7) [OF inv d(2,1)] k r by (simp add: slabcmp_def c')
qed

lemma filter_split:
  assumes "sorted xs" "distinct (xs :: nat list)"
  shows "xs = filter (\<lambda>d. d < b) xs @ (if b \<in> set xs then [b] else []) @ filter (\<lambda>d. b < d) xs"
  using assms
proof (induction xs)
  case (Cons x xs)
  consider "x < b" | "x = b" | "b < x" by linarith
  then show ?case
  proof cases
    case 2
    then have "filter (\<lambda>d. d < b) xs = []" "filter (\<lambda>d. b < d) xs = xs"
      using Cons.prems by (auto simp: filter_empty_conv filter_id_conv) (metis le_neq_implies_less)
    then show ?thesis using 2 Cons.prems by auto
  next
    case 3
    then have "filter (\<lambda>d. d < b) xs = []" "filter (\<lambda>d. b < d) xs = xs" "b \<notin> set xs"
      using Cons.prems by (auto simp: filter_empty_conv filter_id_conv)
    then show ?thesis using 3 by auto
  qed (use Cons in auto)
qed simp

lemma sorted_insert:
  assumes "sorted (xs :: nat list)"
  shows "sorted (filter (\<lambda>d. d < b) xs @ b # filter (\<lambda>d. b < d) xs)"
  using assms by (auto simp: sorted_append sorted_filter [of "\<lambda>x. x", simplified])

section \<open>Taking a block\<close>

definition cset_blocks :: "memcache \<Rightarrow> memcache \<Rightarrow> bool" where
  "cset_blocks c c' \<longleftrightarrow> s_blk c' = s_blk c \<and> bps c' = bps c \<and> r_slb c' = r_slb c"

lemma take_block_ok:
  assumes inv: "cache_inv c A L fl xs" and b: "b \<in> in_list L Afh \<union> in_list L Hfh" and fuel: "length xs < fuel"
  shows "\<exists>x c' L' fl' xs'. take_block fuel b c = Inr (x, c') \<and> cache_inv c' A L' fl' xs' \<and> cset_blocks c c' \<and>
    all_slabs L' = all_slabs L \<and> fl b = x # fl' b \<and> (\<forall>d. d \<noteq> b \<longrightarrow> fl' d = fl d) \<and> length xs' \<le> Suc (length xs) \<and>
    n_blk c' = n_blk c + 1"
proof -
  have ball: "b \<in> all_slabs L" using b by (auto simp: all_slabs_def)
  note D = cache_invD [OF inv]
  have sl: "range_of c b = (b + sizeof_slab, b + slab_bytes (r_slb c))" "chain (fnext c) (freepos (slabs c b)) (fl b)"
    "distinct (fl b)" "set (fl b) \<subseteq> blocks c b" "n_fblk (slabs c b) = length (fl b)"
    using D(4) [OF ball] by (simp_all add: slab_ok_def)
  have cnt: "b \<in> in_list L Afh \<Longrightarrow> length (fl b) = bps c" "b \<in> in_list L Hfh \<Longrightarrow> 0 < length (fl b) \<and> length (fl b) < bps c"
    using D(5) [OF ball] by (simp_all add: count_ok_def)
  have bp: "1 \<le> bps c" using D(1) by (simp add: shape_ok_def)
  then obtain x rest where fl: "fl b = x # rest" using cnt b by (cases "fl b") auto
  have fp: "freepos (slabs c b) = x" "x \<noteq> 0" "chain (fnext c) (fnext c x) rest" using sl(2) fl by simp_all
  define c1 where "c1 = upd_slab b (\<lambda>s. s\<lparr>freepos := fnext c x\<rparr>) c"
  have c1: "c_links c1 = c_links c" "slbt c1 = slbt c" "n_fblk (slabs c1 b) = length (fl b)" "bps c1 = bps c"
    "range_of c1 d = range_of c d" for d
    using sl(5) by (simp_all add: c1_def upd_slab_def range_of_def)
  have tr: "avl_good (slbt c) xs" "set xs = in_list L Hfh \<union> in_list L Nfh" "sorted xs" using D(3) by (simp_all add: tree_ok_def)
  have dx: "distinct xs" using tr(1) by (auto simp: avl_good_def)
  have h0: "b \<in> in_list L Afh \<longleftrightarrow> length (fl b) = bps c" using b cnt by auto
  define step1 where "step1 = (if n_fblk (slabs c1 b) = bps c1 then
      bindE (move_slab b Hfh c1) (\<lambda>c. bindE (avl_insert fuel b (\<lambda>n. slabcmp (range_of c n) (range_of c b)) (slbt c)) (\<lambda>(r, t).
      bindE (assertE (0 = r)) (\<lambda>_. Inr (c\<lparr>slbt := t\<rparr>)))) else Inr c1)"
  have "\<exists>h t L1 xs1. step1 = Inr (c1\<lparr>c_links := h, slbt := t\<rparr>) \<and> lists_ok L1 h \<and> tree_ok t L1 xs1 \<and>
     all_slabs L1 = all_slabs L \<and> (\<forall>a\<in>slab_heads. in_list L1 a = (if a = Hfh then insert b (in_list L a) else in_list L a - {b})) \<and>
     length xs1 \<le> Suc (length xs)"
  proof (cases "b \<in> in_list L Afh")
    case True
    obtain h L1 where h: "move_slab b Hfh c1 = Inr (c1\<lparr>c_links := h\<rparr>)" "lists_ok L1 h"
      "\<forall>a\<in>slab_heads. in_list L1 a = (if a = Hfh then insert b (in_list L a) else in_list L a - {b})"
      using move_slab_ok [of L c1 b Hfh] D(2) ball c1(1) by auto
    have nb: "b \<notin> set xs" using tr(2) in_list_distinct [OF D(2), of Afh] True by auto
    let ?l = "filter (\<lambda>d. d < b) xs" and ?g = "filter (\<lambda>d. b < d) xs"
    let ?cmp = "\<lambda>n. slabcmp (range_of (c1\<lparr>c_links := h\<rparr>) n) (range_of (c1\<lparr>c_links := h\<rparr>) b)"
    have xs: "xs = ?l @ [] @ ?g" using filter_split [OF tr(3) dx, of b] nb by simp
    have rg: "range_of (c1\<lparr>c_links := h\<rparr>) d = range_of c d" for d using c1(5) by (simp add: range_of_def)
    have bb: "b + sizeof_slab < b + slab_bytes (r_slb c)" using shape_bytes(2) [OF D(1), of 0] bp by simp
    have al: "d \<in> all_slabs L" if "d \<in> set xs" for d using that tr(2) by (auto simp: all_slabs_def)
    have lt: "below ?cmp ?l" "above ?cmp ?g"
      using slabcmp_other [OF inv al ball _ bb _ rg] sl(1) by (auto simp: below_def above_def rg)
    obtain t where t: "avl_insert fuel b ?cmp (slbt c) = Inr (0, t)" "avl_good t (?l @ b # ?g)"
    proof -
      have "avl_good (slbt c) (?l @ [] @ ?g)" using tr(1) by (simp only: xs [symmetric])
      moreover have "b \<notin> set (?l @ [] @ ?g)" "length (?l @ [] @ ?g) < fuel" 
        unfolding xs [symmetric] using nb fuel by simp_all
      ultimately show thesis using avl_insert_ok [of "slbt c" ?l "[]" ?g ?cmp b fuel] lt that by auto
    qed
    have "step1 = Inr (c1\<lparr>c_links := h, slbt := t\<rparr>)"
      using True h0 c1(2-4) h(1) t(1) by (simp add: step1_def)
    moreover have "set (?l @ b # ?g) = insert b (set xs)" using nb by auto
    then have "tree_ok t L1 (?l @ b # ?g)"
      using t(2) h(3) tr(2) nb sorted_insert [OF tr(3)] by (auto simp: tree_ok_def)
    moreover have "length (?l @ b # ?g) = Suc (length xs)" using arg_cong [OF xs, of length] by simp
    ultimately show ?thesis using h all_slabs_move [OF h(3) _ ball] by (intro exI [of _ h] exI [of _ t] exI [of _ L1]) auto
  next
    case False
    then have bh: "b \<in> in_list L Hfh" using b by simp
    have "step1 = Inr (c1\<lparr>c_links := c_links c, slbt := slbt c\<rparr>)"
      using False h0 c1 by (simp add: step1_def)
    moreover have "\<forall>a\<in>slab_heads. in_list L a = (if a = Hfh then insert b (in_list L a) else in_list L a - {b})"
      using bh in_list_distinct [OF D(2) _ _ _ bh] by auto
    ultimately show ?thesis using D(2,3) by (intro exI [of _ "c_links c"] exI [of _ "slbt c"] exI [of _ L] exI [of _ xs]) simp
  qed
  then obtain h1 t L1 xs1 where s1: "step1 = Inr (c1\<lparr>c_links := h1, slbt := t\<rparr>)" "lists_ok L1 h1" "tree_ok t L1 xs1"
    "all_slabs L1 = all_slabs L" "\<forall>a\<in>slab_heads. in_list L1 a = (if a = Hfh then insert b (in_list L a) else in_list L a - {b})"
    "length xs1 \<le> Suc (length xs)" by blast
  define c2 where "c2 = upd_slab b (\<lambda>s. s\<lparr>n_fblk := n_fblk s - 1\<rparr>) (c1\<lparr>c_links := h1, slbt := t\<rparr>)"
  have c2: "c_links c2 = h1" "slbt c2 = t" "n_fblk (slabs c2 b) = length rest" "s_blk c2 = s_blk c" "bps c2 = bps c"
    "r_slb c2 = r_slb c" "fnext c2 = fnext c" "freepos (slabs c2 b) = fnext c x" "d \<noteq> b \<Longrightarrow> slabs c2 d = slabs c d"
    "range_of c2 e = range_of c e" "n_blk c2 = n_blk c" for d e
    using c1(3) fl by (simp_all add: c2_def c1_def upd_slab_def range_of_def)
  obtain h2 L2 where s2: "(if n_fblk (slabs c2 b) = 0 then move_slab b Nfh c2 else Inr c2) = Inr (c2\<lparr>c_links := h2\<rparr>)"
    "lists_ok L2 h2" "all_slabs L2 = all_slabs L"
    "\<forall>a\<in>slab_heads. in_list L2 a = (if a = (if rest = [] then Nfh else Hfh) then insert b (in_list L a) else in_list L a - {b})"
  proof (cases "rest = []")
    case True
    obtain h L2 where h: "move_slab b Nfh c2 = Inr (c2\<lparr>c_links := h\<rparr>)" "lists_ok L2 h"
      "\<forall>a\<in>slab_heads. in_list L2 a = (if a = Nfh then insert b (in_list L1 a) else in_list L1 a - {b})"
      using move_slab_ok [of L1 c2 b Nfh] s1(2,4) ball c2(1) by auto
    have "all_slabs L2 = all_slabs L" using all_slabs_move [OF h(3)] s1(4) ball by simp
    moreover have "\<forall>a\<in>slab_heads. in_list L2 a = (if a = Nfh then insert b (in_list L a) else in_list L a - {b})"
      using h(3) s1(5) by auto
    ultimately show thesis using that [of h L2] h(1,2) True c2(3) by simp
  next
    case False
    have "c2 = c2\<lparr>c_links := h1\<rparr>" using c2(1) by (cases c2) simp
    then show thesis using that [of h1 L1] s1(2,4,5) False c2(3) by simp
  qed
  define c' where "c' = c2\<lparr>c_links := h2, n_blk := n_blk c2 + 1\<rparr>"
  have res: "take_block fuel b c = Inr (x, c')"
    unfolding take_block_def Let_def fp(1) c1_def [symmetric] step1_def [symmetric] s1(1) bindE_Inr c2_def [symmetric] s2(1)
    using fp(2) by (simp add: c'_def)
  let ?fl = "fl(b := rest)"
  have "tree_ok t L2 xs1" using s1(3,5) s2(4) by (auto simp: tree_ok_def)
  moreover have "slab_ok c' ?fl d" if d: "d \<in> all_slabs L" for d
  proof (cases "d = b")
    case True
    then show ?thesis using sl(1,3,4) fl fp(3) c2 by (simp add: slab_ok_def c'_def blocks_def range_of_def)
  next
    case False
    then show ?thesis using D(4) [OF d] c2 by (simp add: slab_ok_def c'_def blocks_def range_of_def)
  qed
  moreover have "count_ok c' L2 ?fl d" if d: "d \<in> all_slabs L" for d
  proof (cases "d = b")
    case True
    have "length rest < bps c" using cnt b fl by auto
    then show ?thesis using True s2(4) c2 by (auto simp: count_ok_def c'_def)
  next
    case False
    then show ?thesis using D(5) [OF d] s2(4) c2 by (simp add: count_ok_def c'_def)
  qed
  ultimately have "cache_inv c' A L2 ?fl xs1"
    using D(1,6,7) s2(2,3) c2 by (simp add: cache_inv_def c'_def shape_ok_def)
  then show ?thesis using res s2(3) s1(6) fl c2
    by (intro exI [of _ x] exI [of _ c'] exI [of _ L2] exI [of _ ?fl] exI [of _ xs1]) (simp add: cset_blocks_def c'_def)
qed

section \<open>Getting a slab\<close>

lemma first_slab:
  assumes "lists_ok L h" "a \<in> slab_heads" "\<not> check_list_empty a h"
  shows "\<exists>b. lnext (h a) = Some (Slb b) \<and> b \<in> in_list L a"
proof -
  have r: "rings UNIV slab_heads L h" "set (L a) \<subseteq> range Slb" using assms(1,2) by (auto simp: lists_ok_def)
  have "L a \<noteq> []" using lh.is_empty [OF r(1) assms(2)] assms(3) by simp
  then obtain b bs where b: "L a = Slb b # bs" using r(2) by (cases "L a") auto
  have "ring h a (L a)" using r(1) assms(2) by (simp add: rings_def)
  then show ?thesis using b by (auto simp: ring_def in_list_def)
qed

lemma pages_apart:
  assumes "block p r \<inter> block q r = {}" "page2pa p < page2pa q"
  shows "page2pa p + slab_bytes r \<le> page2pa q"
proof -
  have "p < q" using assms(2) by (simp add: page2pa_def)
  then have "p + 2 ^ r \<le> q" using assms(1) by (auto simp: block_def disjoint_iff not_less)
  then have "(p + 2 ^ r) * 4096 \<le> q * 4096" by (rule mult_le_mono1)
  then show ?thesis by (simp add: page2pa_def slab_bytes_def push_bit_eq_mult power_add algebra_simps)
qed

lemma mem_ok_ram [simp]: "mem_ok (mm\<lparr>ram := m\<rparr>) A F = mem_ok mm A F"
proof -
  have "buddy_inv (mm\<lparr>ram := m\<rparr>) L A = buddy_inv mm L A" for L
    using same_map_area [of mm "mm\<lparr>ram := m\<rparr>"] by (simp add: buddy_inv_def rank_of_def)
  then show ?thesis by (simp add: mem_ok_def)
qed

lemma slab_ok_frame:
  assumes "slab_ok c fl d" "slabs c' d = slabs c d" "\<And>x. x \<in> set (fl d) \<Longrightarrow> fnext c' x = fnext c x" "fl' d = fl d" "cset_blocks c c'"
  shows "slab_ok c' fl' d"
  using assms chain_cong [of "fl d" "fnext c'" "fnext c"]
  by (simp add: slab_ok_def range_of_def cset_blocks_def blocks_def)

lemma finite_slabs [simp]: "finite (all_slabs L)"
proof -
  have "in_list L a \<subseteq> (\<lambda>n. case n of Slb b \<Rightarrow> b | _ \<Rightarrow> 0) ` set (L a)" for a by (force simp: in_list_def)
  then have "finite (in_list L a)" for a by (rule finite_subset) simp
  then show ?thesis by (simp add: all_slabs_def)
qed

lemma get_slab_ok:
  assumes inv: "cache_inv c A L fl xs" and m: "mem_ok mm A F"
  shows "(\<exists>mm'. get_slab c mm = Inr (None, c, mm') \<and> mem_ok mm' A F) \<or>
    (\<exists>b c' mm' L' fl' A' F'. get_slab c mm = Inr (Some b, c', mm') \<and> cache_inv c' A' L' fl' xs \<and> mem_ok mm' A' F' \<and> A \<subseteq> A' \<and>
      b \<in> in_list L' Afh \<union> in_list L' Hfh \<and> cset_blocks c c' \<and> used c' L' fl' = used c L fl \<and> n_blk c' = n_blk c \<and>
      card (all_slabs L') \<le> Suc (card (all_slabs L)))"
proof -
  note D = cache_invD [OF inv]
  have r: "r_slb c < BUDDY_RANKNUM" using D(1) by (simp add: shape_ok_def)
  show ?thesis
  proof (cases "check_list_empty Hfh (c_links c) \<and> check_list_empty Afh (c_links c)")
    case False
    obtain b where "b \<in> in_list L Hfh \<union> in_list L Afh" "get_slab c mm = Inr (Some b, c, mm)"
    proof (cases "check_list_empty Hfh (c_links c)")
      case True
      then obtain b where "lnext (c_links c Afh) = Some (Slb b)" "b \<in> in_list L Afh"
        using first_slab [OF D(2), of Afh] False by auto
      then show thesis using that [of b] True False by (simp add: get_slab_def)
    next
      case ne: False
      then obtain b where "lnext (c_links c Hfh) = Some (Slb b)" "b \<in> in_list L Hfh"
        using first_slab [OF D(2), of Hfh] by auto
      then show thesis using that [of b] ne by (simp add: get_slab_def)
    qed
    then show ?thesis using inv m
      by (intro disjI2 exI [of _ b] exI [of _ c] exI [of _ mm] exI [of _ L] exI [of _ fl] exI [of _ A] exI [of _ F])
         (auto simp: cset_blocks_def)
  next
    case True
    consider mm' where "page_alloc (r_slb c) MMAREA_NORMAL False mm = Inr (None, mm')" "mem_ok mm' A F"
      | p mm' where "page_alloc (r_slb c) MMAREA_NORMAL False mm = Inr (Some (page2pa p), mm')"
        "mem_ok mm' (insert (p, r_slb c) A) (F - block p (r_slb c))" "(p, r_slb c) \<notin> A"
      using buddy.alloc [OF m _ r, of MMAREA_NORMAL False] by (auto simp: MMAREA_NORMAL_def MMAREA_NUM_def)
    then show ?thesis
    proof cases
      case 1
      then show ?thesis using True by (simp add: get_slab_def)
    next
      case 2
      let ?b = "page2pa p" and ?r = "r_slb c" and ?A = "insert (p, r_slb c) A"
      have new: "?b \<notin> all_slabs L"
        using D(6) [of ?b] 2(3) by (auto simp: page2pa_def)
      obtain c1 ys where c1: "initslab ?b c = Inr c1" "slab_ok c1 (\<lambda>_. ys) ?b" "length ys = bps c" "set ys = blocks c ?b"
        "\<forall>d. d \<noteq> ?b \<longrightarrow> slabs c1 d = slabs c d" "\<forall>x. x \<notin> blocks c ?b \<longrightarrow> fnext c1 x = fnext c x"
        "c1 = c\<lparr>slabs := slabs c1, fnext := fnext c1\<rparr>"
        using initslab_ok [OF D(1), of ?b] by blast
      have k: "c_links c1 = c_links c" "slbt c1 = slbt c" "s_blk c1 = s_blk c" "bps c1 = bps c" "r_slb c1 = ?r" "n_blk c1 = n_blk c"
        by (subst c1(7); simp)+
      have rg: "rings UNIV slab_heads L (c_links c)" using D(2) by (simp add: lists_ok_def)
      have "Slb ?b \<notin> members slab_heads L" using new by (auto simp: members_def all_slabs_def in_list_def slab_heads_def)
      then obtain h where h: "list_add_head (Slb ?b) Afh (c_links c) = Inr h" "rings UNIV slab_heads (L(Afh := Slb ?b # L Afh)) h"
        using lh.add_head [OF rg, of Afh "Slb ?b"] by auto
      let ?L = "L(Afh := Slb ?b # L Afh)" and ?fl = "fl(?b := ys)" and ?c = "c1\<lparr>c_links := h\<rparr>"
      have get: "get_slab c mm = Inr (Some ?b, ?c, mm')"
        using True 2(1) c1(1) h(1) k(1) by (simp add: get_slab_def)
      have il: "in_list ?L Afh = insert ?b (in_list L Afh)" "in_list ?L Hfh = in_list L Hfh" "in_list ?L Nfh = in_list L Nfh"
        by (auto simp: in_list_def)
      then have al: "all_slabs ?L = insert ?b (all_slabs L)" by (auto simp: all_slabs_def)
      have apart: "?b < d \<Longrightarrow> ?b + slab_bytes ?r \<le> d" "d < ?b \<Longrightarrow> d + slab_bytes ?r \<le> ?b" if d: "d \<in> all_slabs L" for d
      proof -
        obtain q where q: "d = page2pa q" "(q, ?r) \<in> A" using D(6) [OF d] by blast
        then have "(p, ?r) \<noteq> (q, ?r)" using 2(3) by auto
        then have "block p ?r \<inter> block q ?r = {}" using buddy.apart [OF 2(2), of "(p, ?r)" "(q, ?r)"] q(2) by simp
        then show "?b < d \<Longrightarrow> ?b + slab_bytes ?r \<le> d" "d < ?b \<Longrightarrow> d + slab_bytes ?r \<le> ?b"
          using pages_apart q(1) by (auto simp: Int_commute)
      qed
      have disj: "x \<notin> blocks c ?b" if "d \<in> all_slabs L" "x \<in> blocks c d" for d x
      proof
        assume "x \<in> blocks c ?b"
        moreover have "d \<noteq> ?b" using that(1) new by auto
        ultimately show False
          using apart [OF that(1)] in_blocks [OF D(1) that(2)] in_blocks [OF D(1), of x ?b] D(1)
          by (auto simp: shape_ok_def neq_iff)
      qed
      have sl: "slab_ok ?c ?fl d" if "d \<in> all_slabs L" for d
      proof (rule slab_ok_frame [OF D(4) [OF that]])
        have nb: "d \<noteq> ?b" using that new by metis
        then show "slabs ?c d = slabs c d" "?fl d = fl d" using c1(5) by simp_all
        have sub: "set (fl d) \<subseteq> blocks c d" using D(4) [OF that] by (simp add: slab_ok_def)
        show "fnext ?c x = fnext c x" if "x \<in> set (fl d)" for x using that sub disj [OF \<open>d \<in> all_slabs L\<close>] c1(6) by auto
      qed (use k in \<open>simp add: cset_blocks_def\<close>)
      have "slab_ok ?c ?fl ?b" using c1(2) by (simp add: slab_ok_def range_of_def blocks_def)
      moreover have "count_ok ?c ?L ?fl ?b"
        using new c1(3) k il by (auto simp: count_ok_def all_slabs_def)
      moreover have "count_ok ?c ?L ?fl d" if "d \<in> all_slabs L" for d
        using D(5) [OF that] that new k il by (auto simp: count_ok_def)
      moreover have "lists_ok ?L h" using h(2) D(2) by (auto simp: lists_ok_def)
      moreover have "tree_ok (slbt ?c) ?L xs" using D(3) il k by (simp add: tree_ok_def)
      ultimately have "cache_inv ?c ?A ?L ?fl xs"
        using D(1,6,7) sl apart al k by (auto simp: cache_inv_def shape_ok_def)
      moreover have "used ?c ?L ?fl = used c L fl"
      proof -
        have bl: "blocks ?c = blocks c" using k by (simp add: blocks_def fun_eq_iff)
        have nb: "d \<in> all_slabs L \<Longrightarrow> d \<noteq> ?b" for d using new by metis
        show ?thesis unfolding used_def al bl by (simp add: c1(4) nb cong: bex_cong conj_cong)
      qed
      ultimately show ?thesis using get 2(2) il al new k
        by (intro disjI2 exI [of _ ?b] exI [of _ ?c] exI [of _ mm'] exI [of _ ?L] exI [of _ ?fl] exI [of _ ?A] exI [of _ "F - block p ?r"])
           (auto simp: cset_blocks_def)
    qed
  qed
qed

section \<open>Allocation and release\<close>

text \<open>A cache with at most \<open>n\<close> slabs in which the blocks \<open>U\<close> are in use.\<close>

definition cache_ok :: "nat \<Rightarrow> memcache \<Rightarrow> (nat \<times> nat) set \<Rightarrow> nat set \<Rightarrow> bool" where
  "cache_ok n c A U \<longleftrightarrow> (\<exists>L fl xs. cache_inv c A L fl xs \<and> U = used c L fl \<and> card (all_slabs L) \<le> n \<and> n_blk c = card U)"

lemma finite_used [simp]: "finite (used c L fl)"
  by (rule finite_subset [of _ "\<Union>b\<in>all_slabs L. blocks c b"]) (auto simp: used_def blocks_def)

lemma tree_length: "tree_ok t L xs \<Longrightarrow> length xs \<le> card (all_slabs L)"
proof -
  assume t: "tree_ok t L xs"
  then have "set xs \<subseteq> all_slabs L" "distinct xs" by (auto simp: tree_ok_def avl_good_def all_slabs_def)
  then show ?thesis using card_mono [of "all_slabs L" "set xs"] by (simp add: distinct_card)
qed

lemma used_apart:
  assumes inv: "cache_inv c A L fl xs" and x: "x \<in> blocks c b" "b \<in> all_slabs L" and y: "y \<in> blocks c d" "d \<in> all_slabs L" and ne: "x \<noteq> y"
  shows "x + s_blk c \<le> y \<or> y + s_blk c \<le> x"
proof (cases "b = d")
  case True
  obtain i j where ij: "x = b + sizeof_slab + i * s_blk c" "y = b + sizeof_slab + j * s_blk c"
    using x(1) y(1) True by (auto simp: blocks_def)
  have "i + 1 \<le> j \<or> j + 1 \<le> i" using ne ij by (metis Suc_eq_plus1 Suc_leI linorder_neqE_nat)
  then have "(i + 1) * s_blk c \<le> j * s_blk c \<or> (j + 1) * s_blk c \<le> i * s_blk c" using mult_le_mono1 by blast
  then show ?thesis using ij by auto
next
  case False
  note sh = cache_invD(1) [OF inv]
  have "b + slab_bytes (r_slb c) \<le> d \<or> d + slab_bytes (r_slb c) \<le> b"
    using cache_invD(7) [OF inv] x(2) y(2) False by (metis linorder_neqE_nat)
  then show ?thesis using in_blocks [OF sh x(1)] in_blocks [OF sh y(1)] by linarith
qed

lemma memcache_alloc_ok:
  assumes c: "cache_ok n c A U" and m: "mem_ok mm A F" and fuel: "n < fuel"
  shows "(\<exists>mm'. memcache_alloc fuel c mm = Inr (None, c, mm') \<and> mem_ok mm' A F) \<or>
    (\<exists>x c' mm' A' F' m. memcache_alloc fuel c mm = Inr (Some x, c', mm') \<and> cache_ok (n + 1) c' A' (insert x U) \<and>
       mem_ok mm' A' F' \<and> A \<subseteq> A' \<and> x \<notin> U \<and> (\<forall>y\<in>U. x + s_blk c \<le> y \<or> y + s_blk c \<le> x) \<and>
       s_blk c' = s_blk c \<and> ram mm' = memset (of_nat x) 0 (s_blk c) m)"
proof -
  obtain L fl xs where inv: "cache_inv c A L fl xs" "U = used c L fl" "card (all_slabs L) \<le> n" "n_blk c = card U"
    using c by (auto simp: cache_ok_def)
  note get_slab_ok [OF inv(1) m]
  then show ?thesis
  proof
    assume "\<exists>mm'. get_slab c mm = Inr (None, c, mm') \<and> mem_ok mm' A F"
    then show ?thesis by (auto simp: memcache_alloc_def)
  next
    assume "\<exists>b c' mm' L' fl' A' F'. get_slab c mm = Inr (Some b, c', mm') \<and> cache_inv c' A' L' fl' xs \<and> mem_ok mm' A' F' \<and> A \<subseteq> A' \<and>
      b \<in> in_list L' Afh \<union> in_list L' Hfh \<and> cset_blocks c c' \<and> used c' L' fl' = used c L fl \<and> n_blk c' = n_blk c \<and>
      card (all_slabs L') \<le> Suc (card (all_slabs L))"
    then obtain b c1 mm1 L1 fl1 A1 F1 where g: "get_slab c mm = Inr (Some b, c1, mm1)" "cache_inv c1 A1 L1 fl1 xs"
      "mem_ok mm1 A1 F1" "A \<subseteq> A1" "b \<in> in_list L1 Afh \<union> in_list L1 Hfh" "cset_blocks c c1" "used c1 L1 fl1 = used c L fl"
      "n_blk c1 = n_blk c" "card (all_slabs L1) \<le> Suc (card (all_slabs L))" by blast
    have "length xs < fuel" using tree_length [OF cache_invD(3) [OF inv(1)]] inv(3) fuel by simp
    then obtain x c2 L2 fl2 xs2 where t: "take_block fuel b c1 = Inr (x, c2)" "cache_inv c2 A1 L2 fl2 xs2" "cset_blocks c1 c2"
      "all_slabs L2 = all_slabs L1" "fl1 b = x # fl2 b" "\<forall>d. d \<noteq> b \<longrightarrow> fl2 d = fl1 d" "n_blk c2 = n_blk c1 + 1"
      using take_block_ok [OF g(2,5)] by blast
    have ball: "b \<in> all_slabs L1" using g(5) by (auto simp: all_slabs_def)
    have sb: "distinct (fl1 b)" "set (fl1 b) \<subseteq> blocks c1 b" using cache_invD(4) [OF g(2) ball] by (simp_all add: slab_ok_def)
    have k: "blocks c2 = blocks c1" "s_blk c2 = s_blk c" "s_blk c1 = s_blk c" using t(3) g(6) by (simp_all add: cset_blocks_def blocks_def fun_eq_iff)
    have xb: "x \<in> blocks c1 b" "x \<in> set (fl1 b)" using sb(2) t(5) by auto
    have xU: "x \<notin> used c1 L1 fl1" using block_slab [OF g(2) ball _ xb(1)] xb(2) by (auto simp: used_def)
    have us: "used c2 L2 fl2 = insert x (used c1 L1 fl1)"
    proof -
      have "y \<in> set (fl2 d) \<longleftrightarrow> y \<in> set (fl1 d) \<and> y \<noteq> x" if "d \<in> all_slabs L1" "y \<in> blocks c1 d" for d y
        using that t(5,6) sb(1) block_slab [OF g(2) ball that(1), of x] xb(1) by (cases "d = b") auto
      then show ?thesis using ball xb(1) t(4) k(1) by (auto simp: used_def)
    qed
    have "cache_ok (n + 1) c2 A1 (insert x U)"
      unfolding cache_ok_def using t(2,4,7) us g(7-9) inv(2-4) xU
      by (intro exI [of _ L2] exI [of _ fl2] exI [of _ xs2]) simp
    moreover have "x + s_blk c \<le> y \<or> y + s_blk c \<le> x" if "y \<in> U" for y
      using that inv(2) g(7) xU used_apart [OF g(2) xb(1) ball, of y] k(3) by (auto simp: used_def)
    moreover have "memcache_alloc fuel c mm = Inr (Some x, c2, mm1\<lparr>ram := memset (of_nat x) 0 (s_blk c) (ram mm1)\<rparr>)"
      using g(1) t(1) k(2) by (simp add: memcache_alloc_def)
    ultimately show ?thesis using g(3,4,7) inv(2) xU k(2)
      by (intro disjI2 exI [of _ x] exI [of _ c2] exI [of _ "mm1\<lparr>ram := memset (of_nat x) 0 (s_blk c) (ram mm1)\<rparr>"]
          exI [of _ A1] exI [of _ F1] exI [of _ "ram mm1"]) simp
  qed
qed

lemma memcache_free_ok:
  assumes c: "cache_ok n c A U" and x: "x \<in> U" and fuel: "n < fuel"
  shows "\<exists>c'. memcache_free fuel x c = Inr c' \<and> cache_ok n c' A (U - {x}) \<and> s_blk c' = s_blk c"
proof -
  obtain L fl xs where inv: "cache_inv c A L fl xs" "U = used c L fl" "card (all_slabs L) \<le> n" "n_blk c = card U"
    using c by (auto simp: cache_ok_def)
  note D = cache_invD [OF inv(1)]
  obtain b where b: "b \<in> all_slabs L" "x \<in> blocks c b" "x \<notin> set (fl b)" using x inv(2) by (auto simp: used_def)
  have sl: "range_of c b = (b + sizeof_slab, b + slab_bytes (r_slb c))" "chain (fnext c) (freepos (slabs c b)) (fl b)"
    "distinct (fl b)" "set (fl b) \<subseteq> blocks c b" "n_fblk (slabs c b) = length (fl b)"
    using D(4) [OF b(1)] by (simp_all add: slab_ok_def)
  have xr: "b + sizeof_slab \<le> x" "x + s_blk c \<le> b + slab_bytes (r_slb c)" "0 < s_blk c" "0 < x"
    using in_blocks [OF D(1) b(2)] D(1) by (auto simp: shape_ok_def sizeof_slab_def)
  have fin: "finite (blocks c b)" by (simp add: blocks_def)
  have "card (insert x (set (fl b))) \<le> card (blocks c b)" using sl(4) b(2) fin by (intro card_mono) auto
  then have lt: "length (fl b) < bps c" using b(3) sl(3) card_blocks [OF D(1), of b] by (simp add: distinct_card)
  then have nA: "b \<notin> in_list L Afh" using D(5) [OF b(1)] by (auto simp: count_ok_def)
  have tr: "avl_good (slbt c) xs" "set xs = in_list L Hfh \<union> in_list L Nfh" "sorted xs" using D(3) by (simp_all add: tree_ok_def)
  have bx: "b \<in> set xs" using b(1) nA tr(2) by (auto simp: all_slabs_def)
  have dx: "distinct xs" using tr(1) by (auto simp: avl_good_def)
  have lx: "length xs < fuel" using tree_length [OF D(3)] inv(3) fuel by simp
  let ?l = "filter (\<lambda>d. d < b) xs" and ?g = "filter (\<lambda>d. b < d) xs"
  have xs: "xs = ?l @ [b] @ ?g" using filter_split [OF tr(3) dx, of b] bx by simp
  let ?cmp = "\<lambda>n. slabcmp (range_of c n) (x, x + s_blk c)"
  have al: "d \<in> all_slabs L" if "d \<in> set xs" for d using that tr(2) by (auto simp: all_slabs_def)
  have xl: "x < x + s_blk c" using xr(3) by simp
  have cmp: "below ?cmp ?l" "above ?cmp ?g"
    using slabcmp_other [OF inv(1) al b(1) xr(1) xl xr(2) refl] by (auto simp: below_def above_def)
  have hit: "?cmp b \<in> {AVLCMP_2IN1, AVLCMP_1EQ2}" using sl(1) xr by (auto simp: slabcmp_def)
  have lk: "avl_lkup fuel ?cmp (root (slbt c)) (slbt c) = Inr (Some b)"
  proof -
    have "avl_good (slbt c) (?l @ [b] @ ?g)" using tr(1) by (simp only: xs [symmetric])
    moreover have "length (?l @ [b] @ ?g) < fuel" unfolding xs [symmetric] by (rule lx)
    moreover have "hits ?cmp b" using hit by (auto simp: hits_def)
    ultimately show ?thesis using avl_lkup_ok [of "slbt c" ?l "[b]" ?g ?cmp fuel] cmp hit by simp
  qed
  define c1 where "c1 = upd_slab b (\<lambda>s. s\<lparr>freepos := x\<rparr>) (c\<lparr>fnext := (fnext c)(x := freepos (slabs c b))\<rparr>)"
  have c1: "c_links c1 = c_links c" "slbt c1 = slbt c" "n_fblk (slabs c1 b) = length (fl b)"
    using sl(5) by (simp_all add: c1_def upd_slab_def)
  obtain h1 L1 where s1: "(if n_fblk (slabs c1 b) = 0 then move_slab b Hfh c1 else Inr c1) = Inr (c1\<lparr>c_links := h1\<rparr>)"
    "lists_ok L1 h1" "\<forall>a\<in>slab_heads. in_list L1 a = (if a = Hfh then insert b (in_list L a) else in_list L a - {b})"
  proof (cases "fl b = []")
    case True
    then show thesis using that move_slab_ok [of L c1 b Hfh] D(2) b(1) c1 by auto
  next
    case False
    then have bh: "b \<in> in_list L Hfh" using b(1) nA D(5) [OF b(1)] by (auto simp: all_slabs_def count_ok_def)
    have "\<forall>a\<in>slab_heads. in_list L a = (if a = Hfh then insert b (in_list L a) else in_list L a - {b})"
      using bh in_list_distinct [OF D(2) _ _ _ bh] by auto
    moreover have "c1 = c1\<lparr>c_links := c_links c\<rparr>" using c1(1) by (cases c1) simp
    ultimately show thesis using that [of "c_links c" L] False D(2) c1(3) by simp
  qed
  have al1: "all_slabs L1 = all_slabs L" using all_slabs_move [OF s1(3) _ b(1)] by simp
  define c2 where "c2 = upd_slab b (\<lambda>s. s\<lparr>n_fblk := n_fblk s + 1\<rparr>) (c1\<lparr>c_links := h1\<rparr>)"
  have c2: "c_links c2 = h1" "slbt c2 = slbt c" "n_fblk (slabs c2 b) = Suc (length (fl b))" "cset_blocks c c2"
    "fnext c2 = (fnext c)(x := freepos (slabs c b))" "freepos (slabs c2 b) = x" "d \<noteq> b \<Longrightarrow> slabs c2 d = slabs c d"
    "range_of c2 e = range_of c e" "n_blk c2 = n_blk c" for d e
    using c1(3) by (simp_all add: c2_def c1_def upd_slab_def range_of_def cset_blocks_def)
  have kb: "bps c2 = bps c" "s_blk c2 = s_blk c" "r_slb c2 = r_slb c" using c2(4) by (simp_all add: cset_blocks_def)
  define step where "step = (if n_fblk (slabs c2 b) = bps c2 then
      bindE (move_slab b Afh c2) (\<lambda>c. bindE (avl_remove fuel b (slbt c)) (\<lambda>t. Inr (c\<lparr>slbt := t\<rparr>))) else Inr c2)"
  let ?full = "Suc (length (fl b)) = bps c"
  obtain h2 t L2 xs2 where s2: "step = Inr (c2\<lparr>c_links := h2, slbt := t\<rparr>)" "lists_ok L2 h2" "tree_ok t L2 xs2"
    "\<forall>a\<in>slab_heads. in_list L2 a = (if a = (if ?full then Afh else Hfh) then insert b (in_list L a) else in_list L a - {b})"
    "all_slabs L2 = all_slabs L"
  proof (cases ?full)
    case True
    obtain h L2 where h: "move_slab b Afh c2 = Inr (c2\<lparr>c_links := h\<rparr>)" "lists_ok L2 h"
      "\<forall>a\<in>slab_heads. in_list L2 a = (if a = Afh then insert b (in_list L1 a) else in_list L1 a - {b})"
      using move_slab_ok [of L1 c2 b Afh] s1(2) al1 b(1) c2(1) by auto
    have e: "?l @ b # ?g = xs" by (rule trans [OF _ xs [symmetric]]) simp
    have "avl_good (slbt c) (?l @ b # ?g)" unfolding e by (rule tr(1))
    moreover have "length (?l @ b # ?g) < fuel" unfolding e by (rule lx)
    ultimately obtain t where t: "avl_remove fuel b (slbt c) = Inr t" "avl_good t (?l @ ?g)"
      using avl_remove_ok [of "slbt c" ?l b ?g fuel] by blast
    have il: "\<forall>a\<in>slab_heads. in_list L2 a = (if a = Afh then insert b (in_list L a) else in_list L a - {b})"
      using h(3) s1(3) by auto
    have "set (?l @ ?g) = set xs - {b}" by auto
    moreover have "sorted (?l @ ?g)" using sorted_insert [OF tr(3), of b] by (simp add: sorted_append)
    ultimately have "tree_ok t L2 (?l @ ?g)" using t(2) il tr(2) by (auto simp: tree_ok_def)
    moreover have "step = Inr (c2\<lparr>c_links := h, slbt := t\<rparr>)"
      using True c2(2,3) kb(1) h(1) t(1) by (simp add: step_def)
    moreover have "all_slabs L2 = all_slabs L" using all_slabs_move [OF il _ b(1)] by simp
    ultimately show thesis using that [of t h L2 "?l @ ?g"] h(2) il True by simp
  next
    case False
    have "tree_ok (slbt c) L1 xs" using D(3) s1(3) bx tr(2) by (auto simp: tree_ok_def)
    moreover have "c2 = c2\<lparr>c_links := h1, slbt := slbt c\<rparr>" using c2(1,2) by (cases c2) simp
    moreover have "step = Inr c2" using False c2(3) kb(1) by (simp add: step_def)
    ultimately show thesis using that [of "slbt c" h1 L1 xs] s1(2,3) al1 False by simp
  qed
  define c' where "c' = c2\<lparr>c_links := h2, slbt := t, n_blk := n_blk c2 - 1\<rparr>"
  have res: "memcache_free fuel x c = Inr c'"
    unfolding memcache_free_def lk bindE_Inr option.case Let_def c1_def [symmetric] s1(1) c2_def [symmetric] step_def [symmetric] s2(1)
    by (simp add: c'_def)
  let ?fl = "fl(b := x # fl b)"
  have k': "cset_blocks c c'" "blocks c' = blocks c" using kb by (simp_all add: cset_blocks_def c'_def blocks_def fun_eq_iff)
  have "slab_ok c' ?fl d" if d: "d \<in> all_slabs L" for d
  proof (cases "d = b")
    case True
    have "chain (fnext c') (freepos (slabs c b)) (fl b)"
      using sl(2) b(3) c2(5) by (subst chain_cong [of _ _ "fnext c"]) (auto simp: c'_def)
    then show ?thesis using True sl(1,3,4) b(2,3) c2 kb k'(2) xr(4) by (simp add: slab_ok_def c'_def range_of_def)
  next
    case False
    show ?thesis
    proof (rule slab_ok_frame [OF D(4) [OF d] _ _ _ k'(1)])
      have "set (fl d) \<subseteq> blocks c d" using D(4) [OF d] by (simp add: slab_ok_def)
      then show "fnext c' y = fnext c y" if "y \<in> set (fl d)" for y
        using that block_slab [OF inv(1) b(1) d b(2)] False c2(5) by (auto simp: c'_def)
    qed (use False c2(7) in \<open>simp_all add: c'_def\<close>)
  qed
  moreover have "count_ok c' L2 ?fl d" if d: "d \<in> all_slabs L" for d
  proof (cases "d = b")
    case True
    then show ?thesis using s2(4) lt kb(1) by (auto simp: count_ok_def c'_def)
  next
    case False
    then show ?thesis using D(5) [OF d] s2(4) kb(1) by (simp add: count_ok_def c'_def)
  qed
  ultimately have inv': "cache_inv c' A L2 ?fl xs2"
    using D(1,6,7) s2(2,3,5) kb by (simp add: cache_inv_def c'_def shape_ok_def)
  have "used c' L2 ?fl = U - {x}"
  proof -
    define F where "F = ?fl"
    have e: "y \<in> set (F d) \<longleftrightarrow> y \<in> set (fl d) \<or> y = x" if "d \<in> all_slabs L" "y \<in> blocks c d" for d y
      using block_slab [OF inv(1) b(1) that(1) b(2)] that by (auto simp: F_def)
    show ?thesis unfolding used_def s2(5) k'(2) inv(2) F_def [symmetric] by (auto simp: e)
  qed
  moreover have "n_blk c' = card (U - {x})" using inv(2,4) x c2(9) by (simp add: c'_def card_Diff_singleton)
  ultimately have "cache_ok n c' A (U - {x})"
    unfolding cache_ok_def using inv' s2(5) inv(3) by (intro exI [of _ L2] exI [of _ ?fl] exI [of _ xs2]) simp
  then show ?thesis using res kb by (intro exI [of _ c']) (simp add: c'_def)
qed

section \<open>Properties\<close>

lemma init_onecache_ok:
  assumes "0 < sz" "r < BUDDY_RANKNUM" "(sz + 3) div 4 * 4 + sizeof_slab \<le> slab_bytes r"
  shows "\<exists>c. init_onecache name sz r zero_cache = Inr c \<and> cache_ok 0 c A {} \<and> s_blk c = (sz + 3) div 4 * 4"
proof -
  let ?b = "(sz + 3) div 4 * 4"
  have b: "0 < ?b" using assms(1) by simp
  define h where "h = list_init Nfh (list_init Hfh (list_init Afh (\<lambda>_. \<lparr>lprev = None, lnext = None\<rparr>)))"
  define c where "c = zero_cache\<lparr>c_links := h, c_name := text_of name, s_blk := ?b, r_slb := r,
     bps := (slab_bytes r - sizeof_slab) div ?b, n_blk := 0\<rparr>"
  have res: "init_onecache name sz r zero_cache = Inr c"
    using b by (simp add: init_onecache_def Let_def c_def h_def zero_cache_def sizeof_nfblock_def add.commute [of sz])
  have "h x = (if x \<in> slab_heads then \<lparr>lprev = Some x, lnext = Some x\<rparr> else \<lparr>lprev = None, lnext = None\<rparr>)" for x
    by (cases x) (simp_all add: h_def list_init_def slab_heads_def)
  then have "lists_ok (\<lambda>_. []) h"
    by (simp add: lists_ok_def rings_def ring_def members_def check_node_outoflist_def check_node_inlist_def)
  moreover have "avl_good (slbt c) []"
    unfolding avl_good_def by (rule exI [of _ Leaf]) (simp add: c_def zero_cache_def)
  then have "tree_ok (slbt c) (\<lambda>_. []) []" by (simp add: tree_ok_def in_list_def)
  moreover have "shape_ok c"
  proof -
    have "?b \<le> slab_bytes r - sizeof_slab" using assms(3) by simp
    then have "?b div ?b \<le> (slab_bytes r - sizeof_slab) div ?b" by (rule div_le_mono)
    then show ?thesis using b assms(2) by (simp add: shape_ok_def c_def)
  qed
  ultimately have "cache_inv c A (\<lambda>_. []) (\<lambda>_. []) []"
    by (simp add: cache_inv_def all_slabs_def in_list_def) (simp add: c_def)
  then have "cache_ok 0 c A {}"
    unfolding cache_ok_def
    by (intro exI [of _ "\<lambda>_. []"] exI [of _ "\<lambda>_. []"] exI [of _ "[]"]) (simp add: used_def all_slabs_def in_list_def c_def)
  then show ?thesis using res by (intro exI [of _ c]) (simp add: c_def)
qed

lemma alloc_none:
  "memcache_alloc fuel c mm = Inr (None, c', mm') \<Longrightarrow> \<exists>m. page_alloc (r_slb c) MMAREA_NORMAL False mm = Inr (None, m)"
  by (auto simp: memcache_alloc_def get_slab_def bindE_eq_Inr split: if_splits option.splits snode.splits)

text \<open>
  C3: \<^verbatim>\<open>memcache_alloc\<close> on a consistent cache never goes wrong: it returns \<^verbatim>\<open>NULL\<close> and leaves the
  cache alone when the page allocator has no pages, or it returns a block that was free, apart from
  all blocks in use and full of zeros; the cache and the page allocator stay consistent.
\<close>

theorem memcache_alloc_correct:
  assumes "cache_ok n c A U" and "mem_ok mm A F" and "n < fuel"
  shows "(\<exists>mm'. memcache_alloc fuel c mm = Inr (None, c, mm') \<and> mem_ok mm' A F \<and>
       (\<exists>m. page_alloc (r_slb c) MMAREA_NORMAL False mm = Inr (None, m))) \<or>
    (\<exists>x c' mm' A' F' m. memcache_alloc fuel c mm = Inr (Some x, c', mm') \<and> cache_ok (n + 1) c' A' (insert x U) \<and>
       mem_ok mm' A' F' \<and> A \<subseteq> A' \<and> x \<notin> U \<and> (\<forall>y\<in>U. x + s_blk c \<le> y \<or> y + s_blk c \<le> x) \<and>
       s_blk c' = s_blk c \<and> ram mm' = memset (of_nat x) 0 (s_blk c) m)"
  using memcache_alloc_ok [OF assms] alloc_none by blast

text \<open>
  C16: \<^verbatim>\<open>memcache_free\<close> of a block in use finds its slab, succeeds and makes just this block free; the
  cache stays consistent, whichever lists the slab has to change.
\<close>

theorem memcache_free_correct:
  assumes "cache_ok n c A U" and "x \<in> U" and "n < fuel"
  shows "\<exists>c'. memcache_free fuel x c = Inr c' \<and> cache_ok n c' A (U - {x}) \<and> s_blk c' = s_blk c"
  by (rule memcache_free_ok) (fact assms)+

text \<open>The witness: a cache of blocks of 1000 bytes in slabs of one page, on a machine of 64 MB.\<close>

lemma new_cache:
  "\<exists>c mm. init_onecache [] 1000 0 zero_cache = Inr c \<and> page_free 0 (mm_in MMAREA_NORMAL) = Inr mm \<and>
    cache_ok 0 c {} {} \<and> (\<exists>F. mem_ok mm {} F) \<and> s_blk c = 1000 \<and>
    (\<nexists>m. page_alloc (r_slb c) MMAREA_NORMAL False mm = Inr (None, m))"
proof -
  obtain c where c: "init_onecache [] 1000 0 zero_cache = Inr c" "cache_ok 0 c {} {}" "s_blk c = (1000 + 3) div 4 * 4"
    using init_onecache_ok [of 1000 0 "[]"] by (auto simp: BUDDY_RANKNUM_def sizeof_slab_def slab_bytes_def)
  obtain mm L where m: "page_free 0 (mm_in MMAREA_NORMAL) = Inr mm" "buddy_inv mm L {}" "area_size mm MMAREA_NORMAL \<noteq> 0"
    "\<not> (\<forall>t. 0 \<le> t \<and> t < BUDDY_RANKNUM \<longrightarrow> L (Hd MMAREA_NORMAL t) = [])"
    by (rule mm_in_online [of MMAREA_NORMAL]) (simp_all add: MMAREA_NORMAL_def MMAREA_NUM_def)
  have r: "r_slb c = 0" using c(1) by (auto simp: init_onecache_def Let_def split: if_splits)
  have "\<nexists>m. page_alloc (r_slb c) MMAREA_NORMAL False mm = Inr (None, m)"
    using page_alloc_ok [OF m(2), of MMAREA_NORMAL 0 False] m(3,4) unfolding r
    by (auto simp: MMAREA_NORMAL_def MMAREA_NUM_def BUDDY_RANKNUM_def)
  moreover have "mem_ok mm {} (pages (free_blocks L))" using m(2) by (auto simp: mem_ok_def)
  ultimately show ?thesis using c m(1) by auto
qed

theorem memcache_alloc_correct_witness:
  "\<exists>c mm x c' mm'. init_onecache [] 1000 0 zero_cache = Inr c \<and> page_free 0 (mm_in MMAREA_NORMAL) = Inr mm \<and>
    memcache_alloc 1 c mm = Inr (Some x, c', mm') \<and> (\<exists>A. cache_ok 1 c' A {x})"
proof -
  obtain c mm F where c: "init_onecache [] 1000 0 zero_cache = Inr c" "page_free 0 (mm_in MMAREA_NORMAL) = Inr mm"
    "cache_ok 0 c {} {}" "mem_ok mm {} F" "\<nexists>m. page_alloc (r_slb c) MMAREA_NORMAL False mm = Inr (None, m)"
    using new_cache by blast
  have "(0::nat) < 1" by simp
  from memcache_alloc_correct [OF c(3,4) this] c(5)
  obtain x c' mm' A' where "memcache_alloc 1 c mm = Inr (Some x, c', mm')" "cache_ok (0 + 1) c' A' {x}" by blast
  then show ?thesis using c(1,2) by auto
qed

theorem memcache_free_correct_witness:
  "\<exists>c mm x c' mm' c'' A. init_onecache [] 1000 0 zero_cache = Inr c \<and> page_free 0 (mm_in MMAREA_NORMAL) = Inr mm \<and>
    memcache_alloc 1 c mm = Inr (Some x, c', mm') \<and> memcache_free 2 x c' = Inr c'' \<and> cache_ok 1 c'' A {}"
proof -
  obtain c mm F where c: "init_onecache [] 1000 0 zero_cache = Inr c" "page_free 0 (mm_in MMAREA_NORMAL) = Inr mm"
    "cache_ok 0 c {} {}" "mem_ok mm {} F" "\<nexists>m. page_alloc (r_slb c) MMAREA_NORMAL False mm = Inr (None, m)"
    using new_cache by blast
  have "(0::nat) < 1" by simp
  from memcache_alloc_ok [OF c(3,4) this] c(5) alloc_none
  obtain x c' mm' A' where x: "memcache_alloc 1 c mm = Inr (Some x, c', mm')" "cache_ok (0 + 1) c' A' {x}" by blast
  then obtain c'' where "memcache_free 2 x c' = Inr c''" "cache_ok 1 c'' A' {}"
    using memcache_free_correct [of 1 c' A' "{x}" x 2] by auto
  then show ?thesis using c(1,2) x(1) by blast
qed

end
