(* ===== verification/Paging.thy ===== *)
theory Paging
  imports Memmap
begin

text \<open>
  The page tables of \<^verbatim>\<open>mm/memory.c\<close>: \<^verbatim>\<open>pgmode_enable\<close>, \<^verbatim>\<open>mmap1page\<close> and \<^verbatim>\<open>mmap\<close> on
  top of the page allocator. A directory or table entry is a record of its bit fields at its physical
  address (the kernel sees physical memory below \<^verbatim>\<open>MM_NORMALMEM_RANGE\<close> at its own address);
  \<open>translate\<close> is what the processor does with them, and the theorems say which addresses it maps
  where after each operation.
\<close>

section \<open>The code\<close>

text \<open>\<^verbatim>\<open>pde_t\<close> and \<^verbatim>\<open>pte_t\<close> have their used fields at the same bits; no code sets the others.\<close>

record pte =
  pg_p :: bool
  pg_rw :: bool
  pg_us :: bool
  pg_pwt :: bool
  pg_pcd :: bool
  pg_base :: "20 word"

definition zero_pte :: pte where
  "zero_pte = \<lparr>pg_p = False, pg_rw = False, pg_us = False, pg_pwt = False, pg_pcd = False, pg_base = 0\<rparr>"

record pgstate =
  pg_mm :: mmstate
  ents :: "nat \<Rightarrow> pte"
  cr3 :: nat
  cr0_pg :: bool

text \<open>A pointer is its byte address; \<^verbatim>\<open>NULL\<close> is address 0, and neither caller tests for it.\<close>

definition pt_alloc :: "nat \<Rightarrow> pgstate \<Rightarrow> (nat \<times> pgstate) res" where
  "pt_alloc rank s =
     bindE (page_alloc rank MMAREA_NORMAL True (pg_mm s)) (\<lambda>(pa, mm).
     case pa of
       None \<Rightarrow> Inr (0, s\<lparr>pg_mm := mm\<rparr>)
     | Some pa \<Rightarrow> Inr (pa, s\<lparr>pg_mm := mm,
                       ents := (\<lambda>x. if pa \<le> x \<and> x < pa + 2 ^ (rank + 12) then zero_pte else ents s x)\<rparr>))"

definition set_ent :: "nat \<Rightarrow> (pte \<Rightarrow> pte) \<Rightarrow> pgstate \<Rightarrow> pgstate" where
  "set_ent x g s = s\<lparr>ents := (ents s)(x := g (ents s x))\<rparr>"

definition base_of :: "nat \<Rightarrow> 20 word" where
  "base_of pa = of_nat (drop_bit 12 pa)"

definition base_pa :: "20 word \<Rightarrow> nat" where
  "base_pa b = push_bit 12 (unat b)"

definition mmap_table :: "u32 \<Rightarrow> u32 \<Rightarrow> pgstate \<Rightarrow> (nat \<times> pgstate) res" where
  "mmap_table va usermode s =
     (let pde = cr3 s + 4 * unat (drop_bit 22 va)
      in if \<not> pg_p (ents s pde) then
           bindE (pt_alloc 0 s) (\<lambda>(pt, s).
           Inr (pt, set_ent pde (\<lambda>e. e\<lparr>pg_base := base_of pt, pg_us := (usermode \<noteq> 0),
                                       pg_rw := True, pg_p := True\<rparr>) s))
         else Inr (base_pa (pg_base (ents s pde)), s))"

definition mmap1page :: "u32 \<Rightarrow> u32 \<Rightarrow> u32 \<Rightarrow> pgstate \<Rightarrow> pgstate res" where
  "mmap1page va pa usermode s =
     bindE (mmap_table va usermode s) (\<lambda>(pt, s).
     let pte_idx = unat (drop_bit 12 va AND 0x3FF)
     in Inr (set_ent (pt + 4 * pte_idx) (\<lambda>e. e\<lparr>pg_base := base_of (unat pa), pg_us := (usermode \<noteq> 0),
                                               pg_rw := True, pg_p := True\<rparr>) s))"

text \<open>The rounded length is a multiple of the page size, so the loop runs \<^verbatim>\<open>len / PAGE_SIZE\<close> times.\<close>

fun mmap_loop :: "nat \<Rightarrow> u32 \<Rightarrow> u32 \<Rightarrow> u32 \<Rightarrow> pgstate \<Rightarrow> pgstate res" where
  "mmap_loop 0 va pa usermode s = Inr s"
| "mmap_loop (Suc n) va pa usermode s =
     bindE (mmap1page va pa usermode s) (mmap_loop n (va + PAGE_SIZE) (pa + PAGE_SIZE) usermode)"

definition mmap :: "u32 \<Rightarrow> u32 \<Rightarrow> u32 \<Rightarrow> u32 \<Rightarrow> pgstate \<Rightarrow> pgstate res" where
  "mmap va pa len usermode s =
     bindE (assertE (va AND (PAGE_SIZE - 1) = 0 \<and> pa AND (PAGE_SIZE - 1) = 0)) (\<lambda>_.
     bindE (assertE (MM_NORMALMEM_RANGE \<le> va)) (\<lambda>_.
     let len = (len + PAGE_SIZE - 1) AND NOT (PAGE_SIZE - 1)
     in mmap_loop (unat (len div PAGE_SIZE)) va pa usermode s))"

text \<open>The loop of \<^verbatim>\<open>pgmode_enable\<close>; \<open>n\<close> pages are left to map.\<close>

fun pg_loop :: "nat \<Rightarrow> nat \<Rightarrow> nat \<Rightarrow> nat \<Rightarrow> pgstate \<Rightarrow> pgstate" where
  "pg_loop 0 pa pde pte s = s"
| "pg_loop (Suc n) pa pde pte s =
     (let (pde, s) = (if take_bit 12 pte = 0
                      then (pde + 4, set_ent pde (\<lambda>e. e\<lparr>pg_base := base_of pte, pg_us := False,
                                                        pg_rw := True, pg_p := True\<rparr>) s)
                      else (pde, s));
          s = set_ent pte (\<lambda>e. e\<lparr>pg_base := base_of pa, pg_us := False, pg_rw := True, pg_p := True,
                                 pg_pcd := True\<rparr>) s
      in pg_loop n (pa + 4096) pde (pte + 4) s)"

definition pgmode_enable :: "pgstate \<Rightarrow> pgstate res" where
  "pgmode_enable s =
     bindE (pt_alloc 0 s) (\<lambda>(pgd, s).
     let ptebuf_rank = nat (log2 (drop_bit 20 MM_NORMALMEM_RANGE))
     in bindE (pt_alloc ptebuf_rank s) (\<lambda>(pte, s).
        let s = pg_loop (unat (MM_NORMALMEM_RANGE div PAGE_SIZE)) 0 pgd pte s
        in Inr (s\<lparr>cr3 := pgd, cr0_pg := True\<rparr>)))"

section \<open>The processor\<close>

text \<open>
  Address translation with 4 KB pages: the address, and the rights of the page (writable, user),
  which both levels must grant; \<open>None\<close> is a page fault.
\<close>

definition dir_ent :: "pgstate \<Rightarrow> nat \<Rightarrow> pte" where
  "dir_ent s i = ents s (cr3 s + 4 * i)"

definition tab_ent :: "pgstate \<Rightarrow> pte \<Rightarrow> nat \<Rightarrow> pte" where
  "tab_ent s d j = ents s (base_pa (pg_base d) + 4 * j)"

definition translate_pn :: "pgstate \<Rightarrow> nat \<Rightarrow> (nat \<times> bool \<times> bool) option" where
  "translate_pn s n =
     (let d = dir_ent s (n div 1024); e = tab_ent s d (n mod 1024)
      in if pg_p d \<and> pg_p e then Some (unat (pg_base e), pg_rw d \<and> pg_rw e, pg_us d \<and> pg_us e) else None)"

definition translate :: "pgstate \<Rightarrow> u32 \<Rightarrow> (nat \<times> bool \<times> bool) option" where
  "translate s va =
     map_option (\<lambda>(pn, rights). (pn * 4096 + unat va mod 4096, rights)) (translate_pn s (unat va div 4096))"

section \<open>The tables are pages handed out by the allocator\<close>

definition tables_ok :: "pgstate \<Rightarrow> (nat \<times> nat) set \<Rightarrow> nat set \<Rightarrow> bool" where
  "tables_ok s A F \<longleftrightarrow> mem_ok (pg_mm s) A F \<and> n_pages (pg_mm s) \<le> 2 ^ 20 \<and>
     (\<exists>c. cr3 s = page2pa c \<and> c \<in> pages A \<and>
       (\<forall>i<1024. pg_p (dir_ent s i) \<longrightarrow> pg_rw (dir_ent s i) \<and>
          unat (pg_base (dir_ent s i)) \<in> pages A \<and> unat (pg_base (dir_ent s i)) \<noteq> c)) \<and>
     (\<forall>i<1024. \<forall>j<1024. i \<noteq> j \<longrightarrow> pg_p (dir_ent s i) \<longrightarrow> pg_p (dir_ent s j) \<longrightarrow>
        pg_base (dir_ent s i) \<noteq> pg_base (dir_ent s j))"

definition missing :: "pgstate \<Rightarrow> nat set" where
  "missing s = {i. i < 1024 \<and> \<not> pg_p (dir_ent s i)}"

definition normal_free :: "pgstate \<Rightarrow> nat set \<Rightarrow> nat set" where
  "normal_free s F = F \<inter> area_pages (pg_mm s) MMAREA_NORMAL"

lemma base_roundtrip:
  assumes "p < 2 ^ 20"
  shows "unat (base_of (page2pa p)) = p" "base_pa (base_of (page2pa p)) = page2pa p"
proof -
  have "drop_bit 12 (page2pa p) = p" by (simp add: page2pa_def drop_bit_eq_div)
  then show "unat (base_of (page2pa p)) = p" using assms by (simp add: base_of_def unat_of_nat_small)
  then show "base_pa (base_of (page2pa p)) = page2pa p" by (simp add: base_pa_def page2pa_def push_bit_eq_mult)
qed

lemma base_pa_page: "base_pa b = page2pa (unat b)"
  by (simp add: base_pa_def page2pa_def push_bit_eq_mult)

lemma page_addr_eq:
  assumes "j < 1024" "k < 1024"
  shows "page2pa p + 4 * j = page2pa q + 4 * k \<longleftrightarrow> p = q \<and> j = k"
proof
  assume e: "page2pa p + 4 * j = page2pa q + 4 * k"
  then have "(p * 1024 + j) div 1024 = (q * 1024 + k) div 1024" by (simp add: page2pa_def)
  then have "p = q" using assms by simp
  then show "p = q \<and> j = k" using e by simp
qed simp

lemma page_range:
  assumes "j < 1024"
  shows "page2pa p \<le> page2pa q + 4 * j \<and> page2pa q + 4 * j < page2pa p + 4096 \<longleftrightarrow> p = q"
  using assms by (auto simp: page2pa_def)

lemma area_below:
  assumes "mem_ok mm A F" "p \<in> area_pages mm a" "a < MMAREA_NUM"
  shows "p < n_pages mm"
  using assms inv_facts(2) unfolding mem_ok_def areas_ok_def by blast

text \<open>A new table: one free page of the normal area, empty, apart from the directory and the other tables.\<close>

lemma pt_alloc_ok:
  assumes "tables_ok s A F" "normal_free s F \<noteq> {}"
  shows "\<exists>p s'. pt_alloc 0 s = Inr (page2pa p, s') \<and> p \<in> normal_free s F \<and> p \<notin> pages A \<and> p < 2 ^ 20 \<and>
    mem_ok (pg_mm s') (insert (p, 0) A) (F - {p}) \<and> same_map (pg_mm s) (pg_mm s') \<and> cr3 s' = cr3 s \<and>
    ents s' = (\<lambda>x. if page2pa p \<le> x \<and> x < page2pa p + 4096 then zero_pte else ents s x)"
proof -
  have ok: "mem_ok (pg_mm s) A F" "n_pages (pg_mm s) \<le> 2 ^ 20" using assms(1) by (auto simp: tables_ok_def)
  have a: "MMAREA_NORMAL < MMAREA_NUM" by (simp add: MMAREA_NORMAL_def MMAREA_NUM_def)
  obtain p mm' where p: "page_alloc 0 MMAREA_NORMAL True (pg_mm s) = Inr (Some (page2pa p), mm')"
      "mem_ok mm' (insert (p, 0) A) (F - {p})" "p \<in> normal_free s F" "p \<notin> pages A" "same_map (pg_mm s) mm'"
    using free_area [OF ok(1) _ a, where zero = True] assms(2) by (auto simp: normal_free_def)
  have "p < 2 ^ 20" using area_below [OF ok(1) _ a, of p] p(3) ok(2) by (simp add: normal_free_def)
  then show ?thesis using p by (intro exI [of _ p]) (simp add: pt_alloc_def)
qed


text \<open>Writing an entry of a table that is in use changes the translation of its page only.\<close>

lemma tables_okD:
  assumes "tables_ok s A F"
  obtains c where "cr3 s = page2pa c" "c \<in> pages A"
    "\<And>i. i < 1024 \<Longrightarrow> pg_p (dir_ent s i) \<Longrightarrow> pg_rw (dir_ent s i)"
    "\<And>i. i < 1024 \<Longrightarrow> pg_p (dir_ent s i) \<Longrightarrow> unat (pg_base (dir_ent s i)) \<in> pages A"
    "\<And>i. i < 1024 \<Longrightarrow> pg_p (dir_ent s i) \<Longrightarrow> unat (pg_base (dir_ent s i)) \<noteq> c"
    "\<And>i j. i < 1024 \<Longrightarrow> j < 1024 \<Longrightarrow> i \<noteq> j \<Longrightarrow> pg_p (dir_ent s i) \<Longrightarrow> pg_p (dir_ent s j) \<Longrightarrow>
       pg_base (dir_ent s i) \<noteq> pg_base (dir_ent s j)"
    "mem_ok (pg_mm s) A F" "n_pages (pg_mm s) \<le> 2 ^ 20"
  using assms that unfolding tables_ok_def by blast

lemma set_table:
  assumes ok: "tables_ok s A F" and n: "n < 2 ^ 20" and p: "pg_p (dir_ent s (n div 1024))"
    and s': "s' = set_ent (page2pa (unat (pg_base (dir_ent s (n div 1024)))) + 4 * (n mod 1024)) g s"
    and g: "\<And>e. pg_p (g e) \<and> pg_rw (g e) \<and> pg_base (g e) = b \<and> pg_us (g e) = u"
  shows "tables_ok s' A F \<and> (\<forall>i<1024. dir_ent s' i = dir_ent s i) \<and>
    (\<forall>m<2 ^ 20. translate_pn s' m =
       (if m = n then Some (unat b, True, pg_us (dir_ent s (n div 1024)) \<and> u) else translate_pn s m))"
proof -
  obtain c where c: "cr3 s = page2pa c" "c \<in> pages A"
    "\<And>i. i < 1024 \<Longrightarrow> pg_p (dir_ent s i) \<Longrightarrow> pg_rw (dir_ent s i)"
    "\<And>i. i < 1024 \<Longrightarrow> pg_p (dir_ent s i) \<Longrightarrow> unat (pg_base (dir_ent s i)) \<noteq> c"
    "\<And>i j. i < 1024 \<Longrightarrow> j < 1024 \<Longrightarrow> i \<noteq> j \<Longrightarrow> pg_p (dir_ent s i) \<Longrightarrow> pg_p (dir_ent s j) \<Longrightarrow>
       pg_base (dir_ent s i) \<noteq> pg_base (dir_ent s j)"
    by (rule tables_okD [OF ok]) blast
  have m1: "m div 1024 < 1024" if "m < 2 ^ 20" for m :: nat using that by simp
  have same: "cr3 s' = cr3 s" "pg_mm s' = pg_mm s" by (simp_all add: s' set_ent_def)
  have d: "dir_ent s' i = dir_ent s i" if "i < 1024" for i
    using page_addr_eq [OF that, of "n mod 1024"] c(1) c(4) [OF m1 [OF n] p]
    by (auto simp: dir_ent_def s' set_ent_def)
  have ok': "tables_ok s' A F" using ok d by (simp add: tables_ok_def same)
  have "translate_pn s' m =
       (if m = n then Some (unat b, True, pg_us (dir_ent s (n div 1024)) \<and> u) else translate_pn s m)"
    if m: "m < 2 ^ 20" for m
  proof (cases "pg_p (dir_ent s (m div 1024))")
    case False
    then have "m \<noteq> n" using p by auto
    then show ?thesis using False d [OF m1 [OF m]] by (simp add: translate_pn_def Let_def)
  next
    case True
    have "m = n \<longleftrightarrow> m div 1024 = n div 1024 \<and> m mod 1024 = n mod 1024"
      by (metis div_mult_mod_eq)
    moreover have "pg_base (dir_ent s (m div 1024)) = pg_base (dir_ent s (n div 1024)) \<longleftrightarrow> m div 1024 = n div 1024"
      using c(5) [OF m1 [OF m] m1 [OF n] _ True p] by auto
    ultimately have e: "tab_ent s' (dir_ent s (m div 1024)) (m mod 1024) =
        (if m = n then g (tab_ent s (dir_ent s (m div 1024)) (m mod 1024))
         else tab_ent s (dir_ent s (m div 1024)) (m mod 1024))"
      by (auto simp: tab_ent_def base_pa_page s' set_ent_def page_addr_eq dest!: word_unat_eq_iff [THEN iffD2])
    show ?thesis
    proof (cases "m = n")
      case False
      then show ?thesis using e d [OF m1 [OF m]] by (simp add: translate_pn_def Let_def)
    next
      case True
      show ?thesis using e d [OF m1 [OF n]] g c(3) [OF m1 [OF n] p] p
        unfolding True translate_pn_def Let_def by simp
    qed
  qed
  then show ?thesis using ok' d by blast
qed

text \<open>A directory entry for a table that is not there yet changes no translation.\<close>

lemma new_table:
  assumes ok: "tables_ok s A F" and i: "i < 1024" "\<not> pg_p (dir_ent s i)"
    and t: "t \<notin> pages A" "t < 2 ^ 20" "mem_ok mm' (insert (t, 0) A) F'" "n_pages mm' = n_pages (pg_mm s)"
    and s1: "cr3 s1 = cr3 s" "pg_mm s1 = mm'"
      "ents s1 = (\<lambda>x. if page2pa t \<le> x \<and> x < page2pa t + 4096 then zero_pte else ents s x)"
    and s2: "s2 = set_ent (cr3 s + 4 * i) g s1"
    and g: "\<And>e. pg_p (g e) \<and> pg_rw (g e) \<and> pg_base (g e) = base_of (page2pa t) \<and> pg_us (g e) = u"
  shows "tables_ok s2 (insert (t, 0) A) F' \<and> pg_p (dir_ent s2 i) \<and> pg_us (dir_ent s2 i) = u \<and>
    pg_base (dir_ent s2 i) = base_of (page2pa t) \<and>
    (\<forall>j<1024. j \<noteq> i \<longrightarrow> dir_ent s2 j = dir_ent s j) \<and> (\<forall>m<2 ^ 20. translate_pn s2 m = translate_pn s m)"
proof -
  obtain c where c: "cr3 s = page2pa c" "c \<in> pages A"
    "\<And>i. i < 1024 \<Longrightarrow> pg_p (dir_ent s i) \<Longrightarrow> pg_rw (dir_ent s i)"
    "\<And>i. i < 1024 \<Longrightarrow> pg_p (dir_ent s i) \<Longrightarrow> unat (pg_base (dir_ent s i)) \<in> pages A"
    "\<And>i. i < 1024 \<Longrightarrow> pg_p (dir_ent s i) \<Longrightarrow> unat (pg_base (dir_ent s i)) \<noteq> c"
    "\<And>i j. i < 1024 \<Longrightarrow> j < 1024 \<Longrightarrow> i \<noteq> j \<Longrightarrow> pg_p (dir_ent s i) \<Longrightarrow> pg_p (dir_ent s j) \<Longrightarrow>
       pg_base (dir_ent s i) \<noteq> pg_base (dir_ent s j)"
    "n_pages (pg_mm s) \<le> 2 ^ 20"
    by (rule tables_okD [OF ok]) blast
  have tc: "t \<noteq> c" using t(1) c(2) by auto
  have same: "cr3 s2 = page2pa c" "pg_mm s2 = mm'" by (simp_all add: s2 set_ent_def s1 c(1))
  have d: "dir_ent s2 j = (if j = i then g (ents s1 (cr3 s + 4 * i)) else dir_ent s j)" if "j < 1024" for j
    using tc page_range [OF that, of t c] by (auto simp: dir_ent_def s2 set_ent_def s1 c(1))
  have bt: "unat (base_of (page2pa t)) = t" using base_roundtrip [OF t(2)] by simp
  have old: "pg_base (dir_ent s j) \<noteq> base_of (page2pa t)" if "j < 1024" "pg_p (dir_ent s j)" for j
    using c(4) [OF that] t(1) bt by auto
  have sub: "pages (insert (t, 0) A) = insert t (pages A)" by (auto simp: block_def)
  have "tables_ok s2 (insert (t, 0) A) F'"
    unfolding tables_ok_def same
  proof (intro conjI exI [of _ c] allI impI)
    show "mem_ok mm' (insert (t, 0) A) F'" "n_pages mm' \<le> 2 ^ 20" using t c(7) by simp_all
    show "c \<in> pages (insert (t, 0) A)" using c(2) sub by simp
    fix j :: nat assume j: "j < 1024" "pg_p (dir_ent s2 j)"
    show "pg_rw (dir_ent s2 j)" "unat (pg_base (dir_ent s2 j)) \<in> pages (insert (t, 0) A)"
        "unat (pg_base (dir_ent s2 j)) \<noteq> c"
      using d [OF j(1)] j g tc bt c(3,4,5) sub by (auto split: if_splits)
    fix k :: nat assume k: "k < 1024" "j \<noteq> k" "pg_p (dir_ent s2 k)"
    show "pg_base (dir_ent s2 j) \<noteq> pg_base (dir_ent s2 k)"
      using d [OF j(1)] d [OF k(1)] j k g old [of j] old [of k] c(6) [of j k]
      by (cases "j = i"; cases "k = i") (auto split: if_splits)
  qed simp
  moreover have "translate_pn s2 m = translate_pn s m" if m: "m < 2 ^ 20" for m
  proof -
    have mi: "m div 1024 < 1024" "m mod 1024 < 1024" using m by simp_all
    have e: "tab_ent s2 x (m mod 1024) = (if unat (pg_base x) = t then zero_pte else tab_ent s x (m mod 1024))"
      if "unat (pg_base x) \<noteq> c" for x
      using that page_range [OF mi(2), of t "unat (pg_base x)"] page_addr_eq [OF mi(2) i(1)]
      by (simp add: tab_ent_def base_pa_page s2 set_ent_def s1 c(1))
    show ?thesis
    proof (cases "m div 1024 = i")
      case True
      then have "pg_base (dir_ent s2 (m div 1024)) = base_of (page2pa t)" using d [OF mi(1)] g by simp
      then have "tab_ent s2 (dir_ent s2 (m div 1024)) (m mod 1024) = zero_pte"
        using e [of "dir_ent s2 (m div 1024)"] bt tc by simp
      then show ?thesis using True i(2) by (simp add: translate_pn_def Let_def zero_pte_def)
    next
      case False
      then have dd: "dir_ent s2 (m div 1024) = dir_ent s (m div 1024)" using d [OF mi(1)] by simp
      show ?thesis
      proof (cases "pg_p (dir_ent s (m div 1024))")
        case True
        then have "tab_ent s2 (dir_ent s (m div 1024)) (m mod 1024) = tab_ent s (dir_ent s (m div 1024)) (m mod 1024)"
          using e c(5) [OF mi(1) True] c(4) [OF mi(1) True] t(1) by auto
        then show ?thesis by (simp add: translate_pn_def Let_def dd)
      qed (simp add: translate_pn_def Let_def dd)
    qed
  qed
  ultimately show ?thesis using d g i by simp
qed


definition free_left :: "pgstate \<Rightarrow> nat set \<Rightarrow> nat" where
  "free_left s F = card (normal_free s F)"

lemma finite_normal_free: "tables_ok s A F \<Longrightarrow> finite (normal_free s F)"
proof -
  assume "tables_ok s A F"
  then have "mem_ok (pg_mm s) A F" by (simp add: tables_ok_def)
  then have "normal_free s F \<subseteq> {..<n_pages (pg_mm s)}"
    using area_below by (auto simp: normal_free_def MMAREA_NORMAL_def MMAREA_NUM_def)
  then show ?thesis by (rule finite_subset) simp
qed

lemma va_index:
  fixes va :: u32
  shows "unat (drop_bit 22 va) = unat va div 4096 div 1024"
    "unat (drop_bit 12 va AND 0x3FF) = unat va div 4096 mod 1024" "unat va div 4096 < 2 ^ 20"
proof -
  show "unat (drop_bit 22 va) = unat va div 4096 div 1024"
    by (simp add: unat_drop_bit div_mult2_eq [symmetric])
  have "drop_bit 12 va AND 0x3FF = take_bit 10 (drop_bit 12 va)"
    by (simp add: take_bit_eq_mask mask_eq_exp_minus_1)
  then show "unat (drop_bit 12 va AND 0x3FF) = unat va div 4096 mod 1024"
    by (simp add: unat_take_bit unat_drop_bit)
  show "unat va div 4096 < 2 ^ 20" using unat_u32_lt [of va] by simp
qed

text \<open>The table of an address: after it there is one, and no translation has changed.\<close>

lemma mmap_table_ok:
  fixes va :: u32
  defines "i \<equiv> unat va div 4096 div 1024"
  assumes ok: "tables_ok s A F" and room: "i \<in> missing s \<longrightarrow> normal_free s F \<noteq> {}"
  shows "\<exists>s' A' F'. mmap_table va um s = Inr (page2pa (unat (pg_base (dir_ent s' i))), s') \<and>
    tables_ok s' A' F' \<and> pg_p (dir_ent s' i) \<and>
    pg_us (dir_ent s' i) = (if i \<in> missing s then um \<noteq> 0 else pg_us (dir_ent s i)) \<and>
    missing s' = missing s - {i} \<and> (\<forall>m<2 ^ 20. translate_pn s' m = translate_pn s m) \<and>
    (\<forall>j<1024. j \<noteq> i \<longrightarrow> dir_ent s' j = dir_ent s j) \<and>
    free_left s' F' = free_left s F - (if i \<in> missing s then 1 else 0)"
proof -
  have i: "i < 1024" "unat (drop_bit 22 va) = i" using va_index [of va] by (simp_all add: i_def)
  show ?thesis
  proof (cases "pg_p (dir_ent s i)")
    case True
    then have "mmap_table va um s = Inr (page2pa (unat (pg_base (dir_ent s i))), s)"
      using i(2) by (simp add: mmap_table_def dir_ent_def base_pa_page)
    then show ?thesis using ok True i by (intro exI [of _ s] exI [of _ A] exI [of _ F]) (simp add: missing_def)
  next
    case False
    then have mi: "i \<in> missing s" using i by (simp add: missing_def)
    obtain t s1 where t: "pt_alloc 0 s = Inr (page2pa t, s1)" "t \<in> normal_free s F" "t \<notin> pages A" "t < 2 ^ 20"
        "mem_ok (pg_mm s1) (insert (t, 0) A) (F - {t})" "same_map (pg_mm s) (pg_mm s1)" "cr3 s1 = cr3 s"
        "ents s1 = (\<lambda>x. if page2pa t \<le> x \<and> x < page2pa t + 4096 then zero_pte else ents s x)"
      using pt_alloc_ok [OF ok] room mi by blast
    define g where "g = (\<lambda>e :: pte. e\<lparr>pg_base := base_of (page2pa t), pg_us := (um \<noteq> 0), pg_rw := True, pg_p := True\<rparr>)"
    define s2 where "s2 = set_ent (cr3 s + 4 * i) g s1"
    have n: "n_pages (pg_mm s1) = n_pages (pg_mm s)" using t(6) by (simp add: same_map_def)
    note nt = new_table [OF ok i(1) False t(3,4,5) n t(7) refl t(8) s2_def, of "um \<noteq> 0"]
    have nt: "tables_ok s2 (insert (t, 0) A) (F - {t})" "pg_p (dir_ent s2 i)" "pg_us (dir_ent s2 i) = (um \<noteq> 0)"
      "pg_base (dir_ent s2 i) = base_of (page2pa t)" "\<forall>j<1024. j \<noteq> i \<longrightarrow> dir_ent s2 j = dir_ent s j"
      "\<forall>m<2 ^ 20. translate_pn s2 m = translate_pn s m"
      using nt by (simp_all add: g_def)
    have r: "mmap_table va um s = Inr (page2pa (unat (pg_base (dir_ent s2 i))), s2)"
      using False i(2) t(1,7) base_roundtrip [OF t(4)] nt(4)
      by (simp add: mmap_table_def dir_ent_def s2_def g_def)
    have ms: "missing s2 = missing s - {i}"
      using nt(2,5) by (auto simp: missing_def)
    have "normal_free s2 (F - {t}) = normal_free s F - {t}"
      using same_map_area(1) [OF t(6)] by (auto simp: normal_free_def s2_def set_ent_def)
    then have "free_left s2 (F - {t}) = free_left s F - 1"
      using t(2) finite_normal_free [OF ok] by (simp add: free_left_def)
    then show ?thesis using r nt ms mi
      by (intro exI [of _ s2] exI [of _ "insert (t, 0) A"] exI [of _ "F - {t}"]) simp
  qed
qed


section \<open>Mapping a range\<close>

text \<open>The directory entry lets the user through, or it will be made for this mapping.\<close>

definition usable :: "pgstate \<Rightarrow> nat \<Rightarrow> bool" where
  "usable s i \<longleftrightarrow> i \<in> missing s \<or> pg_us (dir_ent s i)"

definition rights_of :: "pgstate \<Rightarrow> u32 \<Rightarrow> nat \<Rightarrow> bool \<times> bool" where
  "rights_of s um n = (True, um \<noteq> 0 \<and> usable s (n div 1024))"

lemma mmap1page_ok:
  fixes va :: u32
  defines "n \<equiv> unat va div 4096"
  assumes ok: "tables_ok s A F" and room: "n div 1024 \<in> missing s \<longrightarrow> normal_free s F \<noteq> {}"
  shows "\<exists>s' A' F'. mmap1page va pa um s = Inr s' \<and> tables_ok s' A' F' \<and>
    missing s' = missing s - {n div 1024} \<and> (um \<noteq> 0 \<longrightarrow> (\<forall>i<1024. usable s' i = usable s i)) \<and>
    free_left s' F' = free_left s F - (if n div 1024 \<in> missing s then 1 else 0) \<and>
    (\<forall>m<2 ^ 20. translate_pn s' m =
       (if m = n then Some (unat pa div 4096, rights_of s um n) else translate_pn s m))"
proof -
  define i where "i = n div 1024"
  have n: "n < 2 ^ 20" and i: "i < 1024" using va_index [of va] by (simp_all add: n_def i_def)
  obtain s1 A1 F1 where s1: "mmap_table va um s = Inr (page2pa (unat (pg_base (dir_ent s1 i))), s1)"
    "tables_ok s1 A1 F1" "pg_p (dir_ent s1 i)"
    "pg_us (dir_ent s1 i) = (if i \<in> missing s then um \<noteq> 0 else pg_us (dir_ent s i))"
    "missing s1 = missing s - {i}" "\<forall>m<2 ^ 20. translate_pn s1 m = translate_pn s m"
    "\<forall>j<1024. j \<noteq> i \<longrightarrow> dir_ent s1 j = dir_ent s j"
    "free_left s1 F1 = free_left s F - (if i \<in> missing s then 1 else 0)"
    using mmap_table_ok [OF ok, of va um] room unfolding i_def n_def by blast
  define g where "g = (\<lambda>e :: pte. e\<lparr>pg_base := base_of (unat pa), pg_us := (um \<noteq> 0), pg_rw := True, pg_p := True\<rparr>)"
  define s2 where "s2 = set_ent (page2pa (unat (pg_base (dir_ent s1 i))) + 4 * (n mod 1024)) g s1"
  have r: "mmap1page va pa um s = Inr s2"
    by (simp add: mmap1page_def s1(1) s2_def g_def va_index n_def)
  have st: "tables_ok s2 A1 F1" "\<forall>j<1024. dir_ent s2 j = dir_ent s1 j"
      "\<forall>m<2 ^ 20. translate_pn s2 m =
         (if m = n then Some (unat (base_of (unat pa)), True, pg_us (dir_ent s1 i) \<and> um \<noteq> 0) else translate_pn s1 m)"
    using set_table [OF s1(2) n s1(3) [unfolded i_def] s2_def [unfolded i_def], of "base_of (unat pa)" "um \<noteq> 0"]
    by (simp_all add: g_def i_def)
  have b: "unat (base_of (unat pa)) = unat pa div 4096"
    using va_index(3) [of pa] by (simp add: base_of_def drop_bit_eq_div unat_of_nat_small)
  have "missing s2 = missing s1" using st(2) by (auto simp: missing_def)
  moreover have "free_left s2 F1 = free_left s1 F1" by (simp add: free_left_def normal_free_def s2_def set_ent_def)
  moreover have "um \<noteq> 0 \<longrightarrow> (\<forall>j<1024. usable s2 j = usable s j)"
  proof (intro impI allI)
    fix j :: nat assume um: "um \<noteq> 0" and j: "j < 1024"
    show "usable s2 j = usable s j"
    proof (cases "j = i")
      case True
      then show ?thesis using um j st(2) s1(4,5) \<open>missing s2 = missing s1\<close>
        by (cases "i \<in> missing s") (simp_all add: usable_def)
    next
      case False
      then show ?thesis using j st(2) s1(5,7) \<open>missing s2 = missing s1\<close> by (simp add: usable_def)
    qed
  qed
  ultimately show ?thesis
    using r st s1(4,5,6,8) b
    by (intro exI [of _ s2] exI [of _ A1] exI [of _ F1]) (auto simp: i_def rights_of_def usable_def)
qed

lemma va_step:
  fixes va :: u32
  assumes "unat va div 4096 + 1 < 2 ^ 20"
  shows "unat (va + PAGE_SIZE) div 4096 = unat va div 4096 + 1"
proof -
  have "unat va < 4096 * (unat va div 4096 + 1)" by simp
  also have "\<dots> \<le> 4096 * (2 ^ 20 - 1)" using assms by simp
  finally have "unat va + 4096 < 2 ^ 32" by simp
  then have "unat (va + PAGE_SIZE) = unat va + 4096"
    by (simp add: PAGE_SIZE_eq unat_add_no_wrap)
  then show ?thesis by simp
qed

definition dirs :: "nat \<Rightarrow> nat \<Rightarrow> nat set" where
  "dirs n k = (\<lambda>m. m div 1024) ` {n..<n + k}"

lemma dirs_Suc: "dirs n (Suc k) = insert (n div 1024) (dirs (n + 1) k)"
proof -
  have "{n..<n + Suc k} = insert n {n + 1..<n + 1 + k}" by auto
  then show ?thesis by (simp only: dirs_def image_insert)
qed

lemma mmap_loop_ok:
  "tables_ok s A F \<Longrightarrow> unat va div 4096 + k \<le> 2 ^ 20 \<Longrightarrow> unat pa div 4096 + k \<le> 2 ^ 20 \<Longrightarrow>
   card (missing s \<inter> dirs (unat va div 4096) k) \<le> free_left s F \<Longrightarrow>
   \<exists>s' A' F'. mmap_loop k va pa um s = Inr s' \<and> tables_ok s' A' F' \<and>
     (\<forall>m<2 ^ 20. translate_pn s' m =
        (if unat va div 4096 \<le> m \<and> m < unat va div 4096 + k
         then Some (unat pa div 4096 + (m - unat va div 4096), rights_of s um m) else translate_pn s m))"
proof (induction k arbitrary: s A F va pa)
  case 0
  then show ?case by auto
next
  case (Suc k)
  define n where "n = unat va div 4096"
  have fin: "finite (missing s)" by (simp add: missing_def)
  have D: "dirs n (Suc k) = insert (n div 1024) (dirs (n + 1) k)" by (rule dirs_Suc)
  have c: "card (missing s \<inter> dirs n (Suc k)) \<le> free_left s F" using Suc.prems(4) by (simp add: n_def)
  have room: "n div 1024 \<in> missing s \<longrightarrow> normal_free s F \<noteq> {}"
  proof
    assume "n div 1024 \<in> missing s"
    then have "missing s \<inter> dirs n (Suc k) \<noteq> {}" by (auto simp: D)
    then have "0 < card (missing s \<inter> dirs n (Suc k))" using fin by (simp add: card_gt_0_iff)
    then show "normal_free s F \<noteq> {}" using c by (auto simp: free_left_def)
  qed
  obtain s1 A1 F1 where s1: "mmap1page va pa um s = Inr s1" "tables_ok s1 A1 F1"
    "missing s1 = missing s - {n div 1024}" "um \<noteq> 0 \<longrightarrow> (\<forall>i<1024. usable s1 i = usable s i)"
    "free_left s1 F1 = free_left s F - (if n div 1024 \<in> missing s then 1 else 0)"
    "\<forall>m<2 ^ 20. translate_pn s1 m =
       (if m = n then Some (unat pa div 4096, rights_of s um n) else translate_pn s m)"
    using mmap1page_ok [OF Suc.prems(1), of va pa um] room unfolding n_def by blast
  show ?case
  proof (cases k)
    case 0
    have "mmap_loop (Suc k) va pa um s = Inr s1" using s1(1) 0 by simp
    then show ?thesis using s1(2,6) 0 by (auto simp: n_def)
  next
    case (Suc k')
    have va': "unat (va + PAGE_SIZE) div 4096 = n + 1" "unat (pa + PAGE_SIZE) div 4096 = unat pa div 4096 + 1"
      using Suc.prems(2,3) Suc by (simp_all add: va_step n_def)
    have "missing s1 \<inter> dirs (n + 1) k \<subseteq> missing s \<inter> dirs n (Suc k) - {n div 1024}"
      using s1(3) by (auto simp: D)
    then have "card (missing s1 \<inter> dirs (n + 1) k) \<le> card (missing s \<inter> dirs n (Suc k) - {n div 1024})"
      using fin by (intro card_mono) auto
    also have "\<dots> = card (missing s \<inter> dirs n (Suc k)) - (if n div 1024 \<in> missing s then 1 else 0)"
      using fin by (simp add: card_Diff_singleton_if D)
    finally have "card (missing s1 \<inter> dirs (n + 1) k) \<le> free_left s1 F1" using c s1(5) by simp
    then obtain s' A' F' where s': "mmap_loop k (va + PAGE_SIZE) (pa + PAGE_SIZE) um s1 = Inr s'" "tables_ok s' A' F'"
      "\<forall>m<2 ^ 20. translate_pn s' m =
        (if n + 1 \<le> m \<and> m < n + 1 + k
         then Some (unat pa div 4096 + 1 + (m - (n + 1)), rights_of s1 um m) else translate_pn s1 m)"
      using Suc.IH [OF s1(2), of "va + PAGE_SIZE" "pa + PAGE_SIZE"] Suc.prems(2,3) unfolding va'
      by (auto simp: n_def)
    have "mmap_loop (Suc k) va pa um s = Inr s'" using s1(1) s'(1) by simp
    moreover have "rights_of s1 um m = rights_of s um m" if "m < 2 ^ 20" for m
      using s1(4) that by (auto simp: rights_of_def)
    ultimately show ?thesis using s'(2,3) s1(6)
      by (intro exI [of _ s'] exI [of _ A'] exI [of _ F']) (auto simp: n_def)
  qed
qed


section \<open>\<^verbatim>\<open>mmap\<close>\<close>

definition page_count :: "u32 \<Rightarrow> nat" where
  "page_count len = (unat len + 4095) div 4096"

definition in_map :: "u32 \<Rightarrow> u32 \<Rightarrow> u32 \<Rightarrow> bool" where
  "in_map va len w \<longleftrightarrow> unat va \<le> unat w \<and> unat w < unat va + 4096 * page_count len"

lemma page_aligned:
  fixes va :: u32
  shows "va AND (PAGE_SIZE - 1) = 0 \<longleftrightarrow> unat va mod 4096 = 0"
proof -
  have "va AND (PAGE_SIZE - 1) = take_bit 12 va"
    by (simp add: PAGE_SIZE_eq take_bit_eq_mask mask_eq_exp_minus_1)
  then have "va AND (PAGE_SIZE - 1) = 0 \<longleftrightarrow> unat (take_bit 12 va) = 0"
    by (simp add: unat_eq_0)
  then show ?thesis by (simp add: unat_take_bit)
qed

lemma page_rounds:
  assumes "unat len + 4096 \<le> 2 ^ 32"
  shows "unat (((len + PAGE_SIZE - 1) AND NOT (PAGE_SIZE - 1)) div PAGE_SIZE) = page_count len"
proof -
  have "unat (get_upper_range len (2 ^ 12)) = (unat len + (2 ^ 12 - 1)) div 2 ^ 12 * 2 ^ 12"
    using get_upper_range_unat [of 12 len] assms by simp
  then have "unat ((len + PAGE_SIZE - 1) AND NOT (PAGE_SIZE - 1)) = page_count len * 4096"
    by (simp add: get_upper_range_def PAGE_SIZE_eq page_count_def)
  then show ?thesis by (simp add: unat_div_distrib PAGE_SIZE_eq)
qed

lemma mmap_ok:
  assumes ok: "tables_ok s A F" and al: "unat va mod 4096 = 0" "unat pa mod 4096 = 0"
    and lo: "MM_NORMALMEM_RANGE \<le> va"
    and hi: "unat va + unat len \<le> 2 ^ 32" "unat pa + unat len \<le> 2 ^ 32"
    and room: "card (missing s \<inter> dirs (unat va div 4096) (page_count len)) \<le> free_left s F"
  shows "\<exists>s' A' F'. mmap va pa len um s = Inr s' \<and> tables_ok s' A' F' \<and>
    (\<forall>w. translate s' w =
       (if in_map va len w then Some (unat pa + (unat w - unat va), rights_of s um (unat w div 4096))
        else translate s w))"
proof -
  define n q k where "n = unat va div 4096" and "q = unat pa div 4096" and "k = page_count len"
  have v: "unat va = 4096 * n" "unat pa = 4096 * q" using al by (auto simp: n_def q_def)
  have "unat va \<ge> 2 ^ 28" using lo by (simp add: word_le_nat_alt MM_NORMALMEM_RANGE_def)
  then have len: "unat len + 4096 \<le> 2 ^ 32" using hi(1) by simp
  have b: "n + k \<le> 2 ^ 20" "q + k \<le> 2 ^ 20" using hi v by (simp_all add: k_def page_count_def)
  obtain s' A' F' where s': "mmap_loop k va pa um s = Inr s'" "tables_ok s' A' F'"
    "\<forall>m<2 ^ 20. translate_pn s' m =
        (if n \<le> m \<and> m < n + k then Some (q + (m - n), rights_of s um m) else translate_pn s m)"
    using mmap_loop_ok [OF ok, of va k pa um] b room unfolding n_def q_def k_def by blast
  have "mmap va pa len um s = Inr s'"
    using s'(1) al lo page_rounds [OF len] by (simp add: mmap_def page_aligned k_def)
  moreover have "translate s' w =
       (if in_map va len w then Some (unat pa + (unat w - unat va), rights_of s um (unat w div 4096))
        else translate s w)" for w
  proof -
    define m where "m = unat w div 4096"
    have m: "m < 2 ^ 20" using va_index(3) [of w] by (simp add: m_def)
    have w: "unat w = 4096 * m + unat w mod 4096" by (simp add: m_def)
    have "in_map va len w \<longleftrightarrow> n \<le> m \<and> m < n + k"
      unfolding in_map_def v(1) k_def [symmetric] m_def
      by (simp add: less_eq_div_iff_mult_less_eq div_less_iff_less_mult algebra_simps)
    moreover have "(q + (m - n)) * 4096 + unat w mod 4096 = unat pa + (unat w - unat va)" if "n \<le> m"
    proof -
      have "4096 * n \<le> 4096 * m" using that by simp
      then show ?thesis using w v by (simp add: algebra_simps)
    qed
    ultimately show ?thesis using s'(3) m by (auto simp: translate_def m_def [symmetric])
  qed
  ultimately show ?thesis using s'(2) by blast
qed


section \<open>\<^verbatim>\<open>pgmode_enable\<close>\<close>

definition low_pte :: "nat \<Rightarrow> pte" where
  "low_pte j = \<lparr>pg_p = True, pg_rw = True, pg_us = False, pg_pwt = False, pg_pcd = True, pg_base = of_nat j\<rparr>"

definition low_pde :: "nat \<Rightarrow> nat \<Rightarrow> pte" where
  "low_pde t i = \<lparr>pg_p = True, pg_rw = True, pg_us = False, pg_pwt = False, pg_pcd = False,
     pg_base = base_of (page2pa (t + i))\<rparr>"

text \<open>The entries after the loop has mapped \<open>k\<close> pages: directory at page \<open>c\<close>, tables from page \<open>t\<close> on.\<close>

definition low_ents :: "nat \<Rightarrow> nat \<Rightarrow> (nat \<Rightarrow> pte) \<Rightarrow> nat \<Rightarrow> nat \<Rightarrow> pte" where
  "low_ents c t e k x =
     (if \<exists>j<k. x = page2pa t + 4 * j then low_pte ((x - page2pa t) div 4)
      else if \<exists>i<(k + 1023) div 1024. x = page2pa c + 4 * i then low_pde t ((x - page2pa c) div 4)
      else e x)"

lemma low_apart:
  assumes "c \<notin> block t 8" "i < 1024" "j < 2 ^ 18"
  shows "page2pa c + 4 * i \<noteq> page2pa t + 4 * j"
proof
  assume e: "page2pa c + 4 * i = page2pa t + 4 * j"
  then have "(c * 1024 + i) div 1024 = (t * 1024 + j) div 1024" by (simp add: page2pa_def)
  then have "c = t + j div 1024" using assms(2) by simp
  then show False using assms(1,3) by (auto simp: block_def)
qed

lemma pg_loop_ok:
  assumes apart: "c \<notin> block t 8" and z: "\<And>i. i < 1024 \<Longrightarrow> ents s (page2pa c + 4 * i) = zero_pte"
    "\<And>j. j < 2 ^ 18 \<Longrightarrow> ents s (page2pa t + 4 * j) = zero_pte"
  shows "k + n \<le> 65536 \<Longrightarrow>
    pg_loop n (4096 * k) (page2pa c + 4 * ((k + 1023) div 1024)) (page2pa t + 4 * k)
      (s\<lparr>ents := low_ents c t (ents s) k\<rparr>) = s\<lparr>ents := low_ents c t (ents s) (k + n)\<rparr>"
proof (induction n arbitrary: k)
  case (Suc n)
  define E where "E = low_ents c t (ents s)"
  define d where "d = (\<lambda>k :: nat. (k + 1023) div 1024)"
  have dk: "d k \<le> 64" using Suc.prems by (simp add: d_def)
  have ap: "page2pa c + 4 * i \<noteq> page2pa t + 4 * j" if "i < 1024" "j < 2 ^ 18" for i j
    by (rule low_apart [OF apart that])
  have tb: "take_bit 12 (page2pa t + 4 * k) = 0 \<longleftrightarrow> k mod 1024 = 0"
  proof -
    have "take_bit 12 (page2pa t + 4 * k) = (4 * k) mod (4 * 1024)"
      by (simp add: take_bit_eq_mod page2pa_def)
    then show ?thesis by (simp only: mult_mod_right [symmetric]) simp
  qed
  have dS: "d (k + 1) = (if k mod 1024 = 0 then d k + 1 else d k)"
  proof -
    have "k = 1024 * (k div 1024) + k mod 1024" by simp
    then obtain q r where k: "k = 1024 * q + r" "r < 1024" by (metis mod_less_divisor zero_less_numeral)
    have "d (k + 1) = (r + 1024 * (q + 1)) div 1024" "d k = (r + 1023 + 1024 * q) div 1024"
      by (simp_all add: d_def k(1) algebra_simps)
    then have D: "d (k + 1) = q + 1" "d k = q + (r + 1023) div 1024" using k(2) by simp_all
    have "r + 1023 = (r - 1) + 1024" if "r \<noteq> 0" using that by simp
    then have "(r + 1023) div 1024 = (if r = 0 then 0 else 1)" using k(2) by (auto simp del: One_nat_def)
    then show ?thesis using D k by (cases "r = 0") simp_all
  qed
  have dz: "k = 1024 * d k" if "k mod 1024 = 0" using that by (auto simp: d_def)
  have z1: "E k (page2pa t + 4 * k) = zero_pte" "E k (page2pa c + 4 * d k) = zero_pte"
  proof -
    have "\<not> (\<exists>i<d k. page2pa t + 4 * k = page2pa c + 4 * i)" "\<not> (\<exists>j<k. page2pa c + 4 * d k = page2pa t + 4 * j)"
      using ap [THEN not_sym, of _ k] ap [of "d k"] dk Suc.prems by auto
    moreover have "E k x = (if \<exists>j<k. x = page2pa t + 4 * j then low_pte ((x - page2pa t) div 4)
      else if \<exists>i<d k. x = page2pa c + 4 * i then low_pde t ((x - page2pa c) div 4) else ents s x)" for x
      unfolding E_def low_ents_def d_def by (rule refl)
    ultimately show "E k (page2pa t + 4 * k) = zero_pte" "E k (page2pa c + 4 * d k) = zero_pte"
      using z(1) [of "d k"] z(2) [of k] dk Suc.prems by auto
  qed
  have E': "E (k + 1) = (if k mod 1024 = 0 then (E k)(page2pa c + 4 * d k := low_pde t (d k)) else E k)
              (page2pa t + 4 * k := low_pte k)" (is "_ = ?R")
  proof
    fix x
    have A: "(\<exists>j<k + 1. x = page2pa t + 4 * j) \<longleftrightarrow> x = page2pa t + 4 * k \<or> (\<exists>j<k. x = page2pa t + 4 * j)"
      by (auto simp: less_Suc_eq)
    have B: "(\<exists>i<d (k + 1). x = page2pa c + 4 * i) \<longleftrightarrow>
        (k mod 1024 = 0 \<and> x = page2pa c + 4 * d k) \<or> (\<exists>i<d k. x = page2pa c + 4 * i)"
      unfolding dS by (cases "k mod 1024 = 0") (simp_all add: less_Suc_eq, auto)
    have C: "\<not> (\<exists>j<k. x = page2pa t + 4 * j)" if "x = page2pa c + 4 * d k"
      using that ap [of "d k"] dk Suc.prems by auto
    have El: "E l x = (if \<exists>j<l. x = page2pa t + 4 * j then low_pte ((x - page2pa t) div 4)
      else if \<exists>i<d l. x = page2pa c + 4 * i then low_pde t ((x - page2pa c) div 4) else ents s x)" for l
      unfolding E_def low_ents_def d_def by (rule refl)
    show "E (k + 1) x = ?R x"
    proof (cases "x = page2pa t + 4 * k")
      case True
      then show ?thesis unfolding El A by simp
    next
      case x: False
      then have R: "?R x = (if k mod 1024 = 0 \<and> x = page2pa c + 4 * d k then low_pde t (d k) else E k x)" by simp
      show ?thesis
      proof (cases "k mod 1024 = 0 \<and> x = page2pa c + 4 * d k")
        case True
        then have "\<not> (\<exists>j<k. x = page2pa t + 4 * j)" using C by blast
        then show ?thesis using True x unfolding R El [of "k + 1"] A B by auto
      next
        case False
        then show ?thesis using x unfolding R El A B by (simp only: if_not_P if_False simp_thms)
      qed
    qed
  qed
  have b: "base_of (page2pa t + 4 * k) = base_of (page2pa (t + d k))" if "k mod 1024 = 0"
  proof -
    have "page2pa t + 4 * k = page2pa (t + d k)"
      by (subst dz [OF that]) (simp add: page2pa_def)
    then show ?thesis by simp
  qed
  have b2: "base_of (4096 * k) = of_nat k" by (simp add: base_of_def drop_bit_eq_div)
  have step: "pg_loop (Suc n) (4096 * k) (page2pa c + 4 * d k) (page2pa t + 4 * k) (s\<lparr>ents := E k\<rparr>) =
      pg_loop n (4096 * (k + 1)) (page2pa c + 4 * d (k + 1)) (page2pa t + 4 * (k + 1)) (s\<lparr>ents := E (k + 1)\<rparr>)"
    using z1 ap [of "d k" k] dk Suc.prems b b2 unfolding E' pg_loop.simps tb dS
    by (cases "k mod 1024 = 0")
      (simp_all add: Let_def set_ent_def low_pde_def low_pte_def zero_pte_def algebra_simps)
  show ?case
    using step Suc.IH [of "k + 1"] Suc.prems unfolding E_def d_def by simp
qed simp


lemma low_ents_at:
  assumes apart: "c \<notin> block t 8"
    and z: "\<And>i. i < 1024 \<Longrightarrow> e (page2pa c + 4 * i) = zero_pte"
  shows "i < 1024 \<Longrightarrow> low_ents c t e 65536 (page2pa c + 4 * i) = (if i < 64 then low_pde t i else zero_pte)"
    "j < 65536 \<Longrightarrow> low_ents c t e 65536 (page2pa t + 4 * j) = low_pte j"
proof -
  show "low_ents c t e 65536 (page2pa t + 4 * j) = low_pte j" if "j < 65536"
    using that by (auto simp: low_ents_def)
  show "low_ents c t e 65536 (page2pa c + 4 * i) = (if i < 64 then low_pde t i else zero_pte)" if i: "i < 1024"
  proof -
    have "\<not> (\<exists>j<65536. page2pa c + 4 * i = page2pa t + 4 * j)" using low_apart [OF apart i] by auto
    then show ?thesis using z [OF i] by (auto simp: low_ents_def)
  qed
qed

lemma log2_256: "nat (log2 (drop_bit 20 MM_NORMALMEM_RANGE)) = 8"
proof -
  have "drop_bit 20 MM_NORMALMEM_RANGE = 256" by (simp add: MM_NORMALMEM_RANGE_def drop_bit_eq_div)
  then show ?thesis by (simp add: log2_def log2_step_def Let_def)
qed

lemma low_pages: "unat (MM_NORMALMEM_RANGE div PAGE_SIZE) = 65536"
  by (simp add: MM_NORMALMEM_RANGE_def PAGE_SIZE_eq unat_div_distrib)

lemma block_pages: "(p, r) \<in> A \<Longrightarrow> block p r \<subseteq> pages A"
  by (auto simp: pages_def)

lemma alloc_block:
  assumes "mem_ok mm A F" "rank < BUDDY_RANKNUM" "page_alloc rank MMAREA_NORMAL True mm = Inr (Some pa, mm')"
  obtains p F' where "pa = page2pa p" "mem_ok mm' (insert (p, rank) A) F'" "block p rank \<inter> pages A = {}"
    "n_pages mm' = n_pages mm" "p + 2 ^ rank \<le> n_pages mm"
proof -
  obtain L where L: "buddy_inv mm L A" using assms(1) by (auto simp: mem_ok_def)
  have a: "MMAREA_NORMAL < MMAREA_NUM" by (simp add: MMAREA_NORMAL_def MMAREA_NUM_def)
  obtain p L' where p: "pa = page2pa p" "buddy_inv mm' L' (insert (p, rank) A)" "good mm' MMAREA_NORMAL p rank"
      "block p rank \<subseteq> pages (free_blocks L)"
    using page_alloc_ok [OF L a assms(2), of True] assms(3) by auto
  have m: "same_map mm mm'" using page_alloc_map [OF assms(3)] by simp
  have d: "block p rank \<inter> pages A = {}" using free_apart [OF L] p(4) by (fastforce simp: pages_def)
  have "(1 :: nat) \<le> 2 ^ rank" by simp
  then have "p + 2 ^ rank - 1 \<in> block p rank" unfolding block_def atLeastLessThan_iff by linarith
  then have "p + 2 ^ rank - 1 \<in> area_pages mm' MMAREA_NORMAL" using p(3) by (auto simp: good_def)
  then have "p + 2 ^ rank - 1 < n_pages mm'" using area_below p(2) a unfolding mem_ok_def by blast
  then have "p + 2 ^ rank \<le> n_pages mm" using m by (simp add: same_map_def)
  then show ?thesis using that p d m by (auto simp: mem_ok_def same_map_def)
qed

text \<open>After \<^verbatim>\<open>pgmode_enable\<close> the normal memory is mapped at its own address, and nothing else is.\<close>

lemma pgmode_enable_ok:
  assumes ok: "mem_ok (pg_mm s) A F" "n_pages (pg_mm s) \<le> 2 ^ 20"
    and al: "page_alloc 0 MMAREA_NORMAL True (pg_mm s) = Inr (Some pgd, mm1)"
      "page_alloc 8 MMAREA_NORMAL True mm1 = Inr (Some pte, mm2)"
  shows "\<exists>s' A' F'. pgmode_enable s = Inr s' \<and> tables_ok s' A' F' \<and> cr0_pg s' \<and>
    (\<forall>w. translate s' w = (if w < MM_NORMALMEM_RANGE then Some (unat w, True, False) else None))"
proof -
  obtain c F1 where c: "pgd = page2pa c" "mem_ok mm1 (insert (c, 0) A) F1" "n_pages mm1 = n_pages (pg_mm s)"
    by (rule alloc_block [OF ok(1) _ al(1)]) (simp_all add: BUDDY_RANKNUM_def)
  obtain t F2 where t: "pte = page2pa t" "mem_ok mm2 (insert (t, 8) (insert (c, 0) A)) F2"
      "block t 8 \<inter> pages (insert (c, 0) A) = {}" "n_pages mm2 = n_pages mm1" "t + 2 ^ 8 \<le> n_pages mm1"
    by (rule alloc_block [OF c(2) _ al(2)]) (simp_all add: BUDDY_RANKNUM_def)
  define A2 where "A2 = insert (t, 8 :: nat) (insert (c, 0 :: nat) A)"
  have cA: "c \<in> pages (insert (c, 0) A)" using block_pages [of c 0 "insert (c, 0) A"] in_block [of c 0] by auto
  have cA2: "c \<in> pages A2" and tA2: "block t 8 \<subseteq> pages A2"
    using block_pages [of c 0 A2] block_pages [of t 8 A2] in_block [of c 0] by (auto simp: A2_def)
  have apart: "c \<notin> block t 8" using t(3) cA by auto
  define s2 where "s2 = s\<lparr>pg_mm := mm2, ents := (\<lambda>x. if pte \<le> x \<and> x < pte + 2 ^ 20 \<or> pgd \<le> x \<and> x < pgd + 2 ^ 12
      then zero_pte else ents s x)\<rparr>"
  have s2: "pt_alloc 8 (s\<lparr>pg_mm := mm1, ents := (\<lambda>x. if pgd \<le> x \<and> x < pgd + 2 ^ 12 then zero_pte else ents s x)\<rparr>) =
      Inr (pte, s2)" "pg_mm s2 = mm2"
      "ents s2 = (\<lambda>x. if pte \<le> x \<and> x < pte + 2 ^ 20 \<or> pgd \<le> x \<and> x < pgd + 2 ^ 12 then zero_pte else ents s x)"
    using al(2) by (auto simp: pt_alloc_def s2_def fun_eq_iff)
  have z: "ents s2 (page2pa c + 4 * i) = zero_pte" if "i < 1024" for i using that by (simp add: s2(3) c(1))
  have z2: "ents s2 (page2pa t + 4 * j) = zero_pte" if "j < 2 ^ 18" for j using that by (simp add: s2(3) t(1))
  define s' where "s' = s2\<lparr>ents := low_ents c t (ents s2) 65536, cr3 := page2pa c, cr0_pg := True\<rparr>"
  have l0: "low_ents c t (ents s2) 0 = ents s2" by (rule ext) (simp add: low_ents_def)
  have "pg_loop 65536 0 pgd pte s2 = s2\<lparr>ents := low_ents c t (ents s2) 65536\<rparr>"
    using pg_loop_ok [OF apart z z2, of 0 65536] by (simp add: l0 c(1) t(1))
  then have run: "pgmode_enable s = Inr s'"
    using al(1) s2(1) by (simp add: pgmode_enable_def log2_256 low_pages s'_def c(1) Let_def pt_alloc_def [of 0])
  have n: "t + 256 \<le> 2 ^ 20" using t(5) c(3) ok(2) by simp
  have de: "dir_ent s' i = (if i < 64 then low_pde t i else zero_pte)" if "i < 1024" for i
    using low_ents_at(1) [where e = "ents s2", OF apart z that] by (simp add: dir_ent_def s'_def)
  have base: "unat (pg_base (low_pde t i)) = t + i" if "i < 64" for i
    using that n base_roundtrip(1) [of "t + i"] by (simp add: low_pde_def)
  have pd: "pg_p (dir_ent s' i) \<longleftrightarrow> i < 64" if "i < 1024" for i
    using de [OF that] by (simp add: low_pde_def zero_pte_def)
  have "tables_ok s' A2 F2"
    unfolding tables_ok_def
  proof (intro conjI exI [of _ c] allI impI)
    show "mem_ok (pg_mm s') A2 F2" "n_pages (pg_mm s') \<le> 2 ^ 20" "cr3 s' = page2pa c" "c \<in> pages A2"
      using t(2,4) c(3) ok(2) cA2 by (simp_all add: s'_def s2(2) A2_def)
    fix i :: nat assume i: "i < 1024" "pg_p (dir_ent s' i)"
    then have i64: "i < 64" "dir_ent s' i = low_pde t i" using pd de by auto
    have "t + i \<in> block t 8" using i64 by (simp add: block_def)
    then show "pg_rw (dir_ent s' i)" "unat (pg_base (dir_ent s' i)) \<in> pages A2" "unat (pg_base (dir_ent s' i)) \<noteq> c"
      using i64 base [OF i64(1)] tA2 apart by (auto simp: low_pde_def)
    fix j :: nat assume j: "j < 1024" "i \<noteq> j" "pg_p (dir_ent s' j)"
    then have "j < 64" "dir_ent s' j = low_pde t j" using pd de by auto
    then show "pg_base (dir_ent s' i) \<noteq> pg_base (dir_ent s' j)"
      using i64 base [of i] base [of j] j(2) by auto
  qed
  moreover have "translate s' w = (if w < MM_NORMALMEM_RANGE then Some (unat w, True, False) else None)" for w
  proof -
    define m where "m = unat w div 4096"
    have m: "m < 2 ^ 20" "m div 1024 < 1024" using va_index(3) [of w] by (simp_all add: m_def)
    have lt: "w < MM_NORMALMEM_RANGE \<longleftrightarrow> m < 65536"
      by (simp add: m_def word_less_nat_alt MM_NORMALMEM_RANGE_def div_less_iff_less_mult)
    show ?thesis
    proof (cases "m < 65536")
      case True
      then have i: "m div 1024 < 64" by simp
      have "page2pa (t + m div 1024) + 4 * (m mod 1024) = page2pa t + 4 * m"
        using div_mult_mod_eq [of m 1024] by (simp only: page2pa_def distrib_right)
      then have "tab_ent s' (low_pde t (m div 1024)) (m mod 1024) = low_pte m"
        using low_ents_at(2) [where e = "ents s2", OF apart z True] base [OF i] by (simp add: tab_ent_def base_pa_page s'_def)
      moreover have "unat (of_nat m :: 20 word) = m" using m(1) by (simp add: unat_of_nat_small)
      ultimately have "translate_pn s' m = Some (m, True, False)"
        using i de [OF m(2)] by (simp add: translate_pn_def Let_def low_pde_def low_pte_def)
      then show ?thesis using True lt by (simp add: translate_def m_def [symmetric]) (simp add: m_def)
    next
      case False
      then have "\<not> m div 1024 < 64" by simp
      then show ?thesis using False lt pd [OF m(2)] by (simp add: translate_def m_def [symmetric] translate_pn_def Let_def)
    qed
  qed
  ultimately show ?thesis using run by (intro exI [of _ s'] exI [of _ A2] exI [of _ F2]) (simp add: s'_def)
qed

section \<open>Properties\<close>

text \<open>
  C4: on a machine whose page tables are pages handed out by the allocator, and with a free page of
  the normal area for every missing table, \<^verbatim>\<open>mmap\<close> returns; afterwards exactly the pages of the
  rounded range are mapped, writable, at their offsets from \<open>pa\<close>, for the user only when asked and
  when the directory entry lets the user through, and every other address is translated as before.
\<close>

theorem mmap_correct:
  assumes "tables_ok s A F" and "unat va mod 4096 = 0" "unat pa mod 4096 = 0" and "MM_NORMALMEM_RANGE \<le> va"
    and "unat va + unat len \<le> 2 ^ 32" "unat pa + unat len \<le> 2 ^ 32"
    and "card (missing s \<inter> dirs (unat va div 4096) (page_count len)) \<le> free_left s F"
  shows "\<exists>s' A' F'. mmap va pa len um s = Inr s' \<and> tables_ok s' A' F' \<and>
    (\<forall>w. translate s' w =
       (if in_map va len w then Some (unat pa + (unat w - unat va), rights_of s um (unat w div 4096))
        else translate s w))"
  using mmap_ok [OF assms] by blast

text \<open>A machine with two blocks free, of one and of 256 pages, and one page handed out.\<close>

definition mm_two :: mmstate where
  "mm_two = (mm_in 1)\<lparr>
     pagelist := (\<lambda>p. \<lparr>buddy_rank = if p = 256 then 8 else 0, refcount = 0\<rparr>),
     links := (case list_add_head (Pg 0) (Hd 1 0) (links (mm_in 1)) of Inl _ \<Rightarrow> links (mm_in 1)
               | Inr h \<Rightarrow> (case list_add_head (Pg 256) (Hd 1 8) h of Inl _ \<Rightarrow> h | Inr h \<Rightarrow> h))\<rparr>"

definition two_lists_of :: "node \<Rightarrow> node list" where
  "two_lists_of = (\<lambda>_. [])(Hd 1 0 := [Pg 0], Hd 1 8 := [Pg 256])"

lemma in_two_lists: "x \<in> set (two_lists_of h) \<longleftrightarrow> (h = Hd 1 0 \<and> x = Pg 0) \<or> (h = Hd 1 8 \<and> x = Pg 256)"
  by (auto simp: two_lists_of_def)

lemma mm_two_rings: "rings UNIV heads two_lists_of (links mm_two)"
proof -
  have h: "Hd 1 0 \<in> heads" "Hd 1 8 \<in> heads" by (simp_all add: MMAREA_NUM_def BUDDY_RANKNUM_def)
  have "rings UNIV heads (\<lambda>_. []) (links (mm_in 1))"
    using inv_facts(1) [OF mm_in_inv [of 1]] by (simp add: MMAREA_NUM_def)
  note r0 = this
  obtain h1 where h1: "list_add_head (Pg 0) (Hd 1 0) (links (mm_in 1)) = Inr h1"
      "rings UNIV heads ((\<lambda>_. [])(Hd 1 0 := [Pg 0])) h1"
    using lh.add_head [OF r0 h(1), of "Pg 0"] by (auto simp: members_def)
  obtain h2 where h2: "list_add_head (Pg 256) (Hd 1 8) h1 = Inr h2" "rings UNIV heads two_lists_of h2"
    using lh.add_head [OF h1(2) h(2), of "Pg 256"] by (auto simp: members_def two_lists_of_def split: if_splits)
  show ?thesis using h1(1) h2 by (simp add: mm_two_def)
qed

lemma mm_two_inv: "buddy_inv mm_two two_lists_of {(1, 0)}"
proof (rule buddy_invI)
  have k: "(1 :: nat) < MMAREA_NUM" by (simp add: MMAREA_NUM_def)
  have m: "same_map (mm_in 1) mm_two" by (simp add: same_map_def mm_two_def)
  show ao: "areas_ok mm_two" using inv_facts(2) [OF mm_in_inv [OF k]] same_map_area(3) [OF m] by simp
  have ap: "area_pages mm_two a = (if a = 1 then {..<2 ^ 14} else {})" for a
    by (auto simp: area_pages_def mm_two_def mm_in_def page2pa_def)
  have fb: "free_blocks two_lists_of = {(0, 0), (256, 8)}"
  proof -
    have n: "(1 :: nat) < MMAREA_NUM" "(0 :: nat) < BUDDY_RANKNUM" "(8 :: nat) < BUDDY_RANKNUM"
      by (simp_all add: MMAREA_NUM_def BUDDY_RANKNUM_def)
    show ?thesis
    proof (rule set_eqI)
      fix x :: "nat \<times> nat"
      show "x \<in> free_blocks two_lists_of \<longleftrightarrow> x \<in> {(0, 0), (256, 8)}"
        using n unfolding free_blocks_def in_two_lists by (cases x) auto
    qed
  qed
  show "rings UNIV heads two_lists_of (links mm_two)" by (rule mm_two_rings)
  show "disjoint_blocks ({(1, 0)} \<union> free_blocks two_lists_of)" by (auto simp: fb disjoint_blocks_def block_def)
  show "refcount (pagelist mm_two p) = 0" for p by (simp add: mm_two_def)
  show "r < BUDDY_RANKNUM \<and> rank_of mm_two p = r \<and> Pg p \<notin> members heads two_lists_of" if "(p, r) \<in> {(1, 0)}" for p r
    using that by (auto simp: BUDDY_RANKNUM_def rank_of_def mm_two_def members_def in_two_lists split: if_splits)
  show "\<exists>a<MMAREA_NUM. good mm_two a p r" if "(p, r) \<in> {(1, 0)}" for p r
    using that by (intro exI [of _ 1]) (auto simp: MMAREA_NUM_def good_def ap block_def)
  have rk: "rank_of mm_two p = (if p = 256 then 8 else 0)" for p by (simp add: rank_of_def mm_two_def)
  have g: "good mm_two 1 0 0" "good mm_two 1 256 8" by (auto simp: good_def ap block_def)
  show "\<exists>p. x = Pg p \<and> rank_of mm_two p = r \<and> good mm_two a p r" if "x \<in> set (two_lists_of (Hd a r))" for a r x
    using that g unfolding in_two_lists by (auto simp: rk)
qed

lemma alloc_head:
  assumes r: "rings UNIV heads L (links s)" and a: "a < MMAREA_NUM" "r < BUDDY_RANKNUM" "area_size s a \<noteq> 0"
    and L: "L (Hd a r) = Pg p # xs" and rk: "rank_of s p = r"
  shows "\<exists>s'. page_alloc r a True s = Inr (Some (page2pa p), s') \<and>
    rings UNIV heads (L(Hd a r := xs)) (links s') \<and> area_size s' = area_size s \<and> pagelist s' = pagelist s"
proof -
  have h: "Hd a r \<in> heads" using a by simp
  have "check_list_empty (Hd a r) (links s) \<longleftrightarrow> False" using lh.is_empty [OF r h] L by simp
  moreover obtain n where "BUDDY_RANKNUM - r = Suc n" using a(2) by (cases "BUDDY_RANKNUM - r") auto
  ultimately have f: "find_rank s a r (BUDDY_RANKNUM - r) = Some r" by simp
  obtain h' where h': "list_remove_head (Hd a r) (links s) = Inr (Pg p, h')" "rings UNIV heads (L(Hd a r := xs)) h'"
    using lh.remove_head [OF r h L] by auto
  show ?thesis using a f h' rk by (simp add: page_alloc_def Let_def)
qed

lemma mm_two_allocs:
  "\<exists>m1 m2. page_alloc 0 MMAREA_NORMAL True mm_two = Inr (Some (page2pa 0), m1) \<and>
     page_alloc 8 MMAREA_NORMAL True m1 = Inr (Some (page2pa 256), m2)"
proof -
  have n: "1 < MMAREA_NUM" "0 < BUDDY_RANKNUM" "8 < BUDDY_RANKNUM" by (simp_all add: MMAREA_NUM_def BUDDY_RANKNUM_def)
  have sz: "area_size mm_two 1 \<noteq> 0" by (simp add: mm_two_def mm_in_def)
  have rk: "rank_of mm_two p = (if p = 256 then 8 else 0)" for p by (simp add: rank_of_def mm_two_def)
  obtain m1 where m1: "page_alloc 0 1 True mm_two = Inr (Some (page2pa 0), m1)"
      "rings UNIV heads (two_lists_of(Hd 1 0 := [])) (links m1)" "area_size m1 = area_size mm_two"
      "pagelist m1 = pagelist mm_two"
    using alloc_head [OF mm_two_rings n(1,2) sz, of 0 "[]"] rk by (auto simp: two_lists_of_def)
  have "rank_of m1 256 = 8" using rk [of 256] m1(4) by (simp add: rank_of_def)
  then obtain m2 where "page_alloc 8 1 True m1 = Inr (Some (page2pa 256), m2)"
    using alloc_head [OF m1(2) n(1,3), of 256 "[]"] sz m1(3) by (auto simp: two_lists_of_def)
  then show ?thesis using m1(1) by (auto simp: MMAREA_NORMAL_def)
qed

definition one_dir :: pgstate where
  "one_dir = \<lparr>pg_mm = mm_two, ents = (\<lambda>_. zero_pte), cr3 = page2pa 1, cr0_pg = True\<rparr>"

lemma one_dir_ok: "tables_ok one_dir {(1, 0)} (pages (free_blocks two_lists_of))"
proof -
  have "1 \<in> pages {(1, 0)}" by (simp add: block_def)
  moreover have "mem_ok mm_two {(1, 0)} (pages (free_blocks two_lists_of))"
    using mm_two_inv by (auto simp: mem_ok_def)
  moreover have "n_pages mm_two \<le> 2 ^ 20" by (simp add: mm_two_def mm_in_def)
  ultimately show ?thesis by (auto simp: tables_ok_def one_dir_def dir_ent_def zero_pte_def)
qed

theorem mmap_correct_witness:
  "\<exists>s'. mmap 0x80000000 0x1000 4096 1 one_dir = Inr s' \<and>
     translate s' 0x80000123 = Some (0x1123, True, True) \<and> translate s' 0x80001000 = None"
proof -
  have z: "dir_ent one_dir i = zero_pte" for i by (simp add: dir_ent_def one_dir_def)
  have ms: "missing one_dir = {..<1024}" by (auto simp: missing_def z zero_pte_def)
  have "0 \<in> normal_free one_dir (pages (free_blocks two_lists_of))"
  proof -
    have "0 \<in> area_pages mm_two 1" by (simp add: area_pages_def mm_two_def mm_in_def page2pa_def)
    moreover have "(0, 0) \<in> free_blocks two_lists_of"
      by (auto simp: free_blocks_def in_two_lists MMAREA_NUM_def BUDDY_RANKNUM_def)
    ultimately show ?thesis using block_pages in_block [of 0 0]
      by (fastforce simp: normal_free_def MMAREA_NORMAL_def one_dir_def)
  qed
  then have "1 \<le> free_left one_dir (pages (free_blocks two_lists_of))"
    using finite_normal_free [OF one_dir_ok] by (auto simp: free_left_def Suc_le_eq card_gt_0_iff)
  moreover have pc: "page_count 4096 = 1" by (simp add: page_count_def)
  moreover have "{524288..<524288 + 1} = {524288 :: nat}" by auto
  then have "dirs 524288 1 = {512}" by (simp add: dirs_def)
  ultimately have "card (missing one_dir \<inter> dirs (unat (0x80000000 :: u32) div 4096) (page_count 4096)) \<le>
      free_left one_dir (pages (free_blocks two_lists_of))"
    by (simp add: ms)
  then obtain s' where s': "mmap 0x80000000 0x1000 4096 1 one_dir = Inr s'"
    "\<forall>w. translate s' w = (if in_map 0x80000000 4096 w
        then Some (unat (0x1000 :: u32) + (unat w - unat (0x80000000 :: u32)), rights_of one_dir 1 (unat w div 4096))
        else translate one_dir w)"
    using mmap_correct [OF one_dir_ok, of "0x80000000" "0x1000" 4096 1] by (auto simp: MM_NORMALMEM_RANGE_def)
  have n: "translate one_dir 0x80001000 = None" by (simp add: translate_def translate_pn_def z zero_pte_def Let_def)
  have "translate s' 0x80000123 = Some (0x1123, True, True)" "translate s' 0x80001000 = None"
    using s'(2) [rule_format, of "0x80000123"] s'(2) [rule_format, of "0x80001000"] n
    by (simp_all add: in_map_def pc rights_of_def usable_def ms)
  then show ?thesis using s'(1) by blast
qed

text \<open>
  C28: when its two allocations succeed, \<^verbatim>\<open>pgmode_enable\<close> turns paging on with the normal
  memory mapped at its own address, writable and for the kernel only, and no other address mapped.
\<close>

theorem pgmode_enable_correct:
  assumes "mem_ok (pg_mm s) A F" "n_pages (pg_mm s) \<le> 2 ^ 20"
    and "page_alloc 0 MMAREA_NORMAL True (pg_mm s) = Inr (Some pgd, mm1)"
      "page_alloc 8 MMAREA_NORMAL True mm1 = Inr (Some pte, mm2)"
  shows "\<exists>s' A' F'. pgmode_enable s = Inr s' \<and> tables_ok s' A' F' \<and> cr0_pg s' \<and>
    (\<forall>w. translate s' w = (if w < MM_NORMALMEM_RANGE then Some (unat w, True, False) else None))"
  using pgmode_enable_ok [OF assms] by blast

theorem pgmode_enable_correct_witness:
  "\<exists>s'. pgmode_enable one_dir = Inr s' \<and> translate s' 0x00ABCDEF = Some (0x00ABCDEF, True, False)"
proof -
  obtain m1 m2 where m: "page_alloc 0 MMAREA_NORMAL True (pg_mm one_dir) = Inr (Some (page2pa 0), m1)"
      "page_alloc 8 MMAREA_NORMAL True m1 = Inr (Some (page2pa 256), m2)"
    using mm_two_allocs by (auto simp: one_dir_def)
  have "mem_ok (pg_mm one_dir) {(1, 0)} (pages (free_blocks two_lists_of))" "n_pages (pg_mm one_dir) \<le> 2 ^ 20"
    using one_dir_ok by (auto simp: tables_ok_def)
  from pgmode_enable_correct [OF this m] obtain s' where "pgmode_enable one_dir = Inr s'"
    "\<forall>w. translate s' w = (if w < MM_NORMALMEM_RANGE then Some (unat w, True, False) else None)" by blast
  then show ?thesis by (auto simp: MM_NORMALMEM_RANGE_def)
qed

text \<open>
  The user bit of a directory entry that is already there is not changed: a user mapping below an
  entry made for the kernel is mapped, but the user cannot reach it.
\<close>

lemma mmap1page_us_kept:
  assumes "tables_ok s A F" "unat va div 4096 div 1024 \<notin> missing s" "\<not> pg_us (dir_ent s (unat va div 4096 div 1024))"
  shows "\<exists>s'. mmap1page va pa 1 s = Inr s' \<and> translate s' va = Some (unat pa div 4096 * 4096 + unat va mod 4096, True, False)"
proof -
  obtain s' where s': "mmap1page va pa 1 s = Inr s'"
    "\<forall>m<2 ^ 20. translate_pn s' m =
       (if m = unat va div 4096 then Some (unat pa div 4096, rights_of s 1 (unat va div 4096)) else translate_pn s m)"
    using mmap1page_ok [OF assms(1), of va pa 1] assms(2) by blast
  have n: "unat va div 4096 < 2 ^ 20" by (rule va_index)
  have "translate_pn s' (unat va div 4096) = Some (unat pa div 4096, True, False)"
    using s'(2) [rule_format, OF n] assms(2,3) by (simp add: rights_of_def usable_def)
  then show ?thesis using s'(1) by (intro exI [of _ s'] conjI) (simp_all add: translate_def)
qed

end
