(* ===== verification/Intr.thy ===== *)
theory Intr
  imports Slab
begin

text \<open>
  The interrupts of \<^verbatim>\<open>io/interrupt.c\<close>: the set-up of the two 8259A chips, the registration of
  handlers, with the gates of \<^verbatim>\<open>include/desc.h\<close>, and the walk over the handlers of a line. The
  port instructions are parameters; the locale \<open>pic_chip\<close> states what the code relies on of the
  chips, and it is interpreted on a model of their programming interface.
\<close>

section \<open>The code\<close>

definition PORT_8259A_MASTER_A0 :: u16 where "PORT_8259A_MASTER_A0 = 0x20"
definition PORT_8259A_MASTER_A1 :: u16 where "PORT_8259A_MASTER_A1 = 0x21"
definition PORT_8259A_SLAVER_A0 :: u16 where "PORT_8259A_SLAVER_A0 = 0xA0"
definition PORT_8259A_SLAVER_A1 :: u16 where "PORT_8259A_SLAVER_A1 = 0xA1"
definition X86_VECTOR_IRQ_20 :: nat where "X86_VECTOR_IRQ_20 = 0x20"
definition SYSTEMCALL_VECTOR :: nat where "SYSTEMCALL_VECTOR = 0x80"

text \<open>A gate; its reserved byte is never written.\<close>

record idtdesc =
  funcaddr_l16 :: u16
  g_desc :: u16
  g_type :: "4 word"
  g_s :: "1 word"
  g_dpl :: "2 word"
  g_p :: "1 word"
  funcaddr_h16 :: u16

definition zero_gate :: idtdesc where
  "zero_gate = \<lparr>funcaddr_l16 = 0, g_desc = 0, g_type = 0, g_s = 0, g_dpl = 0, g_p = 0, funcaddr_h16 = 0\<rparr>"

definition set_intgate :: "nat \<Rightarrow> u32 \<Rightarrow> (nat \<Rightarrow> idtdesc) \<Rightarrow> nat \<Rightarrow> idtdesc" where
  "set_intgate vect addr idt =
     idt(vect := \<lparr>funcaddr_l16 = ucast addr, g_desc = 0x10, g_type = 0xE, g_s = 0, g_dpl = 0, g_p = 1,
                  funcaddr_h16 = ucast (drop_bit 16 addr)\<rparr>)"

definition set_trap :: "nat \<Rightarrow> u32 \<Rightarrow> (nat \<Rightarrow> idtdesc) \<Rightarrow> nat \<Rightarrow> idtdesc" where
  "set_trap vect addr idt =
     idt(vect := \<lparr>funcaddr_l16 = ucast addr, g_desc = 0x10, g_type = 0xF, g_s = 0, g_dpl = 3, g_p = 1,
                  funcaddr_h16 = ucast (drop_bit 16 addr)\<rparr>)"

text \<open>The address a gate leads to, as the processor puts it together.\<close>

definition gate_addr :: "idtdesc \<Rightarrow> u32" where
  "gate_addr g = (push_bit 16 (ucast (funcaddr_h16 g)) OR ucast (funcaddr_l16 g))"

datatype inode = IH nat | IP nat

record int_proc =
  intf :: nat
  iparam :: nat

record 'd irqstate =
  iq_links :: "inode lstore"
  int_procs :: "nat \<Rightarrow> int_proc"
  pubent_init :: "nat \<Rightarrow> bool"
  idt_table :: "nat \<Rightarrow> idtdesc"
  intproc_cache :: "nat option"
  iq_sys :: slabsys
  if_flag :: bool
  dev :: 'd

definition int_list_init :: "inode lstore \<Rightarrow> inode lstore" where
  "int_list_init h = fold (\<lambda>i. list_init (IH i)) [0..<16] h"

definition pic_setup :: "(u8 \<Rightarrow> u16 \<Rightarrow> 'd \<Rightarrow> 'd) \<Rightarrow> 'd \<Rightarrow> 'd" where
  "pic_setup outb d =
     (let d = outb 0x11 PORT_8259A_MASTER_A0 d; d = outb 0x11 PORT_8259A_SLAVER_A0 d;
          d = outb 0x20 PORT_8259A_MASTER_A1 d; d = outb 0x28 PORT_8259A_SLAVER_A1 d;
          d = outb 0x04 PORT_8259A_MASTER_A1 d; d = outb 0x02 PORT_8259A_SLAVER_A1 d;
          d = outb 0x01 PORT_8259A_MASTER_A1 d; d = outb 0x01 PORT_8259A_SLAVER_A1 d;
          d = outb (0xFF AND NOT 0x04) PORT_8259A_MASTER_A1 d
      in outb 0xFF PORT_8259A_SLAVER_A1 d)"

definition interrupt_init :: "(u8 \<Rightarrow> u16 \<Rightarrow> 'd \<Rightarrow> 'd) \<Rightarrow> 'd irqstate \<Rightarrow> 'd irqstate" where
  "interrupt_init outb s =
     s\<lparr>iq_links := int_list_init (iq_links s), dev := pic_setup outb (dev s),
       idt_table := (\<lambda>v. if v < 256 then zero_gate else idt_table s v), if_flag := True\<rparr>"

definition sizeof_int_proc :: nat where "sizeof_int_proc = 16"

definition get_intcache :: "nat \<Rightarrow> 'd irqstate \<Rightarrow> (nat \<times> 'd irqstate) res" where
  "get_intcache fuel s =
     (case intproc_cache s of
        Some c \<Rightarrow> Inr (c, s)
      | None \<Rightarrow>
          bindE (memcache_create fuel sizeof_int_proc 0 (map of_char ''int_proc_t'') (iq_sys s)) (\<lambda>(p, sys).
          (case p of
             None \<Rightarrow> Inl Die
           | Some c \<Rightarrow> Inr (c, s\<lparr>intproc_cache := Some c, iq_sys := sys\<rparr>))))"

definition irq_unmask ::
  "(u16 \<Rightarrow> 'd \<Rightarrow> u8 \<times> 'd) \<Rightarrow> (u8 \<Rightarrow> u16 \<Rightarrow> 'd \<Rightarrow> 'd) \<Rightarrow> nat \<Rightarrow> 'd \<Rightarrow> 'd" where
  "irq_unmask inb outb irq d =
     (if irq < 8 then
        let (intmask, d) = inb PORT_8259A_MASTER_A1 d
        in outb (intmask AND NOT (push_bit irq 1)) PORT_8259A_MASTER_A1 d
      else
        let (intmask, d) = inb PORT_8259A_SLAVER_A1 d
        in outb (intmask AND NOT (push_bit (irq - 8) 1)) PORT_8259A_SLAVER_A1 d)"

text \<open>The first registration on a line; \<open>ent\<close> are the addresses in \<^verbatim>\<open>intprocarray\<close>.\<close>

definition irq_enable ::
  "(u16 \<Rightarrow> 'd \<Rightarrow> u8 \<times> 'd) \<Rightarrow> (u8 \<Rightarrow> u16 \<Rightarrow> 'd \<Rightarrow> 'd) \<Rightarrow> (nat \<Rightarrow> u32) \<Rightarrow> nat \<Rightarrow> 'd irqstate \<Rightarrow> 'd irqstate" where
  "irq_enable inb outb ent irq s =
     (if pubent_init s irq then s
      else s\<lparr>dev := irq_unmask inb outb irq (dev s),
             idt_table := set_intgate (X86_VECTOR_IRQ_20 + irq) (ent irq) (idt_table s),
             pubent_init := (pubent_init s)(irq := True), if_flag := True\<rparr>)"

fun has_intf :: "nat \<Rightarrow> nat \<Rightarrow> inode \<Rightarrow> inode option \<Rightarrow> 'd irqstate \<Rightarrow> bool res" where
  "has_intf 0 fn head p s = Inl Stuck"
| "has_intf (Suc fuel) fn head None s = Inl Fault"
| "has_intf (Suc fuel) fn head (Some (IH i)) s = (if IH i = head then Inr False else Inl Fault)"
| "has_intf (Suc fuel) fn head (Some (IP a)) s =
     (if IP a = head then Inr False
      else if intf (int_procs s a) = fn then Inr True
      else has_intf fuel fn head (lnext (iq_links s (IP a))) s)"

text \<open>The structure \<^verbatim>\<open>memcache_alloc\<close> returns is used without a test for \<^verbatim>\<open>NULL\<close>.\<close>

definition add_intproc :: "nat \<Rightarrow> nat \<Rightarrow> nat \<Rightarrow> nat \<Rightarrow> nat \<Rightarrow> 'd irqstate \<Rightarrow> 'd irqstate res" where
  "add_intproc fuel c irq fn param s =
     bindE (memcache_alloc fuel (caches (iq_sys s) c) (sys_mm (iq_sys s))) (\<lambda>(p, cc, m).
     let s = s\<lparr>iq_sys := (iq_sys s)\<lparr>caches := (caches (iq_sys s))(c := cc), sys_mm := m\<rparr>\<rparr>
     in (case p of
           None \<Rightarrow> Inl Fault
         | Some a \<Rightarrow>
             let s = s\<lparr>int_procs := (int_procs s)(a := \<lparr>intf = fn, iparam = param\<rparr>)\<rparr>
             in bindE (list_add_head (IP a) (IH irq) (iq_links s)) (\<lambda>h. Inr (s\<lparr>iq_links := h\<rparr>))))"

definition interrup_register ::
  "(u16 \<Rightarrow> 'd \<Rightarrow> u8 \<times> 'd) \<Rightarrow> (u8 \<Rightarrow> u16 \<Rightarrow> 'd \<Rightarrow> 'd) \<Rightarrow> (nat \<Rightarrow> u32) \<Rightarrow> nat \<Rightarrow>
     int \<Rightarrow> nat \<Rightarrow> nat \<Rightarrow> 'd irqstate \<Rightarrow> (int \<times> 'd irqstate) res" where
  "interrup_register inb outb ent fuel irq fn param s =
     bindE (get_intcache fuel s) (\<lambda>(c, s).
     bindE (assertE (irq \<noteq> 2 \<and> irq < 16)) (\<lambda>_.
     if irq < 0 then Inl Fault
     else let i = nat irq; s = irq_enable inb outb ent i s
          in bindE (has_intf fuel fn (IH i) (lnext (iq_links s (IH i))) s) (\<lambda>found.
             if found then Inr (- 2, s)
             else bindE (add_intproc fuel c i fn param s) (\<lambda>s. Inr (0, s)))))"

text \<open>
  The walk of a line when it interrupts: \<open>call\<close> runs a handler; the next link is read after the
  handler has returned.
\<close>

fun irq_walk ::
  "(nat \<Rightarrow> nat \<Rightarrow> 'd irqstate \<Rightarrow> 'd irqstate res) \<Rightarrow> nat \<Rightarrow> inode \<Rightarrow> inode option \<Rightarrow> 'd irqstate \<Rightarrow> 'd irqstate res" where
  "irq_walk call 0 head p s = Inl Stuck"
| "irq_walk call (Suc fuel) head None s = Inl Fault"
| "irq_walk call (Suc fuel) head (Some (IH i)) s = (if IH i = head then Inr s else Inl Fault)"
| "irq_walk call (Suc fuel) head (Some (IP a)) s =
     (if IP a = head then Inr s
      else bindE (call (intf (int_procs s a)) (iparam (int_procs s a)) s)
             (\<lambda>s. irq_walk call fuel head (lnext (iq_links s (IP a))) s))"

definition sendeoi_master :: "(u8 \<Rightarrow> u16 \<Rightarrow> 'd \<Rightarrow> 'd) \<Rightarrow> 'd irqstate \<Rightarrow> 'd irqstate" where
  "sendeoi_master outb s = s\<lparr>dev := outb 0x20 PORT_8259A_MASTER_A0 (dev s)\<rparr>"

definition sendeoi_slaver :: "(u8 \<Rightarrow> u16 \<Rightarrow> 'd \<Rightarrow> 'd) \<Rightarrow> 'd irqstate \<Rightarrow> 'd irqstate" where
  "sendeoi_slaver outb s = sendeoi_master outb (s\<lparr>dev := outb 0x20 PORT_8259A_SLAVER_A0 (dev s)\<rparr>)"

definition intprocjmp_master ::
  "(u8 \<Rightarrow> u16 \<Rightarrow> 'd \<Rightarrow> 'd) \<Rightarrow> (nat \<Rightarrow> nat \<Rightarrow> 'd irqstate \<Rightarrow> 'd irqstate res) \<Rightarrow> nat \<Rightarrow> nat \<Rightarrow> 'd irqstate \<Rightarrow> 'd irqstate res" where
  "intprocjmp_master outb call fuel irq s =
     bindE (assertE (irq < 7)) (\<lambda>_.
     bindE (irq_walk call fuel (IH irq) (lnext (iq_links s (IH irq))) s) (\<lambda>s. Inr (sendeoi_master outb s)))"

definition intprocjmp_slaver ::
  "(u8 \<Rightarrow> u16 \<Rightarrow> 'd \<Rightarrow> 'd) \<Rightarrow> (nat \<Rightarrow> nat \<Rightarrow> 'd irqstate \<Rightarrow> 'd irqstate res) \<Rightarrow> nat \<Rightarrow> nat \<Rightarrow> 'd irqstate \<Rightarrow> 'd irqstate res" where
  "intprocjmp_slaver outb call fuel irq s =
     bindE (assertE (8 \<le> irq \<and> irq < 16)) (\<lambda>_.
     bindE (irq_walk call fuel (IH irq) (lnext (iq_links s (IH irq))) s) (\<lambda>s. Inr (sendeoi_slaver outb s)))"

text \<open>The exceptions: \<open>ent\<close> gives the entry of each vector.\<close>

definition trap_init :: "(nat \<Rightarrow> u32) \<Rightarrow> (nat \<Rightarrow> idtdesc) \<Rightarrow> nat \<Rightarrow> idtdesc" where
  "trap_init ent idt =
     set_trap SYSTEMCALL_VECTOR (ent SYSTEMCALL_VECTOR)
       (fold (\<lambda>v. set_intgate v (ent v)) [2, 8, 10, 11, 12, 13, 14] idt)"

section \<open>Gates\<close>

lemma gate_addr_parts: "(push_bit 16 (ucast (ucast (drop_bit 16 a) :: u16)) OR ucast (ucast a :: u16)) = (a :: u32)"
  by (rule bit_word_eqI) (auto simp: bit_or_iff bit_push_bit_iff bit_ucast_iff bit_drop_bit_eq dest: bit_imp_le_length)

lemma set_gates [simp]:
  "gate_addr (set_intgate v a idt v) = a" "gate_addr (set_trap v a idt v) = a"
  "w \<noteq> v \<Longrightarrow> set_intgate v a idt w = idt w" "w \<noteq> v \<Longrightarrow> set_trap v a idt w = idt w"
  by (simp_all add: gate_addr_def set_intgate_def set_trap_def gate_addr_parts)

lemma trap_init_gates:
  "gate_addr (trap_init ent idt v) = (if v \<in> {2, 8, 10, 11, 12, 13, 14, 0x80} then ent v else gate_addr (idt v))"
proof -
  have "gate_addr (set_intgate w (ent w) idt v) = (if v = w then ent v else gate_addr (idt v))" for w idt
    by (cases "v = w") simp_all
  moreover have "gate_addr (set_trap w (ent w) idt v) = (if v = w then ent v else gate_addr (idt v))" for w idt
    by (cases "v = w") simp_all
  ultimately show ?thesis by (simp add: trap_init_def SYSTEMCALL_VECTOR_def)
qed

section \<open>The chips\<close>

text \<open>
  What the code relies on: once a chip is set up, its second port reads and writes the mask
  register, and the sequence of \<^verbatim>\<open>interrupt_init\<close> sets both up.
\<close>

definition irq_masked :: "u8 \<Rightarrow> u8 \<Rightarrow> nat \<Rightarrow> bool" where
  "irq_masked m s i = (if i < 8 then bit m i else bit s (i - 8))"

locale pic_chip =
  fixes inb :: "u16 \<Rightarrow> 'd \<Rightarrow> u8 \<times> 'd" and outb :: "u8 \<Rightarrow> u16 \<Rightarrow> 'd \<Rightarrow> 'd"
    and ready :: "'d \<Rightarrow> bool" and imr_m imr_s :: "'d \<Rightarrow> u8"
  assumes read_m: "ready d \<Longrightarrow> inb PORT_8259A_MASTER_A1 d = (imr_m d, d)"
    and read_s: "ready d \<Longrightarrow> inb PORT_8259A_SLAVER_A1 d = (imr_s d, d)"
    and write_m: "ready d \<Longrightarrow> ready (outb v PORT_8259A_MASTER_A1 d) \<and>
      imr_m (outb v PORT_8259A_MASTER_A1 d) = v \<and> imr_s (outb v PORT_8259A_MASTER_A1 d) = imr_s d"
    and write_s: "ready d \<Longrightarrow> ready (outb v PORT_8259A_SLAVER_A1 d) \<and>
      imr_s (outb v PORT_8259A_SLAVER_A1 d) = v \<and> imr_m (outb v PORT_8259A_SLAVER_A1 d) = imr_m d"
    and ready_setup: "ready (pic_setup outb d) \<and> imr_m (pic_setup outb d) = 0xFB \<and> imr_s (pic_setup outb d) = 0xFF"
begin

lemma bit_cleared: "i < 8 \<Longrightarrow> k < 8 \<Longrightarrow> bit (m AND NOT (push_bit k 1) :: u8) i = (bit m i \<and> i \<noteq> k)"
  by (auto simp: bit_and_iff bit_not_iff bit_exp_iff)

lemma unmask_ok:
  assumes "ready d" "irq < 16"
  shows "ready (irq_unmask inb outb irq d)"
    "i < 16 \<Longrightarrow> irq_masked (imr_m (irq_unmask inb outb irq d)) (imr_s (irq_unmask inb outb irq d)) i =
      (irq_masked (imr_m d) (imr_s d) i \<and> i \<noteq> irq)"
proof -
  define v where "v = (if irq < 8 then imr_m d AND NOT (push_bit irq 1) else imr_s d AND NOT (push_bit (irq - 8) 1))"
  have e: "irq_unmask inb outb irq d =
      (if irq < 8 then outb v PORT_8259A_MASTER_A1 d else outb v PORT_8259A_SLAVER_A1 d)"
    using assms(1) by (simp add: irq_unmask_def v_def read_m read_s)
  show "ready (irq_unmask inb outb irq d)" using assms(1) write_m write_s by (simp add: e)
  show "irq_masked (imr_m (irq_unmask inb outb irq d)) (imr_s (irq_unmask inb outb irq d)) i =
      (irq_masked (imr_m d) (imr_s d) i \<and> i \<noteq> irq)" if "i < 16"
    using that assms write_m [OF assms(1), of v] write_s [OF assms(1), of v]
    by (auto simp: e irq_masked_def v_def bit_cleared simp del: push_bit_of_1)
qed

lemma setup_masks: "i < 16 \<Longrightarrow> irq_masked (imr_m (pic_setup outb d)) (imr_s (pic_setup outb d)) i = (i \<noteq> 2)"
proof -
  assume i: "i < 16"
  have m: "bit (0xFB :: u8) i = (i \<noteq> 2)" if "i < 8"
  proof -
    have "i \<in> {0, 1, 2, 3, 4, 5, 6, 7}" using that by auto
    then show ?thesis by (elim insertE) (simp_all add: bit_numeral_rec)
  qed
  have s: "bit (0xFF :: u8) i" if "i < 8" for i
  proof -
    have "i \<in> {0, 1, 2, 3, 4, 5, 6, 7}" using that by auto
    then show ?thesis by (elim insertE) (simp_all add: bit_numeral_rec)
  qed
  show ?thesis using i m s [of "i - 8"] ready_setup [of d] by (auto simp: irq_masked_def)
qed

end

text \<open>
  The chips: \<open>icw\<close> is the initialization word a chip expects next on its second port, 0 when it is
  set up. A first word (bit 4 set) on the first port starts the sequence and clears the mask.
\<close>

record pic8259 =
  icw :: nat
  vec_base :: u8
  imr :: u8
  n_eoi :: nat

definition chip_a0 :: "u8 \<Rightarrow> pic8259 \<Rightarrow> pic8259" where
  "chip_a0 v c = (if bit v 4 then c\<lparr>icw := 2, imr := 0\<rparr> else if v = 0x20 then c\<lparr>n_eoi := n_eoi c + 1\<rparr> else c)"

definition chip_a1 :: "u8 \<Rightarrow> pic8259 \<Rightarrow> pic8259" where
  "chip_a1 v c =
     (if icw c = 2 then c\<lparr>icw := 3, vec_base := v AND 0xF8\<rparr>
      else if icw c = 3 then c\<lparr>icw := 4\<rparr>
      else if icw c = 4 then c\<lparr>icw := 0\<rparr>
      else c\<lparr>imr := v\<rparr>)"

definition pics_out :: "u8 \<Rightarrow> u16 \<Rightarrow> pic8259 \<times> pic8259 \<Rightarrow> pic8259 \<times> pic8259" where
  "pics_out v port d =
     (if port = 0x20 then (chip_a0 v (fst d), snd d)
      else if port = 0x21 then (chip_a1 v (fst d), snd d)
      else if port = 0xA0 then (fst d, chip_a0 v (snd d))
      else if port = 0xA1 then (fst d, chip_a1 v (snd d))
      else d)"

definition pics_in :: "u16 \<Rightarrow> pic8259 \<times> pic8259 \<Rightarrow> u8 \<times> (pic8259 \<times> pic8259)" where
  "pics_in port d = (if port = 0x21 then imr (fst d) else if port = 0xA1 then imr (snd d) else 0, d)"

lemmas pic_ports = PORT_8259A_MASTER_A0_def PORT_8259A_MASTER_A1_def PORT_8259A_SLAVER_A0_def PORT_8259A_SLAVER_A1_def

definition pics_ready :: "pic8259 \<times> pic8259 \<Rightarrow> bool" where
  "pics_ready d \<longleftrightarrow> icw (fst d) = 0 \<and> icw (snd d) = 0"

lemma pics_setup:
  "pic_setup pics_out d =
     ((fst d)\<lparr>icw := 0, vec_base := 0x20, imr := 0xFB\<rparr>, (snd d)\<lparr>icw := 0, vec_base := 0x28, imr := 0xFF\<rparr>)"
proof (cases d)
  case (Pair a b)
  have o: "pics_out v 0x20 (a, b) = (chip_a0 v a, b)" "pics_out v 0x21 (a, b) = (chip_a1 v a, b)"
    "pics_out v 0xA0 (a, b) = (a, chip_a0 v b)" "pics_out v 0xA1 (a, b) = (a, chip_a1 v b)" for v a b
    by (simp_all add: pics_out_def)
  have i: "chip_a0 0x11 c = c\<lparr>icw := 2, imr := 0\<rparr>" for c by (simp add: chip_a0_def bit_numeral_rec)
  show ?thesis unfolding Pair pic_setup_def pic_ports Let_def o i
    by (simp add: chip_a1_def)
qed

interpretation pics: pic_chip pics_in pics_out pics_ready "\<lambda>d. imr (fst d)" "\<lambda>d. imr (snd d)"
  by unfold_locales
    (simp_all add: pic_ports pics_in_def pics_out_def pics_ready_def chip_a1_def pics_setup)

section \<open>The handlers of the lines\<close>

text \<open>\<open>H i\<close> are the structures registered on line \<open>i\<close>, blocks in use of the cache.\<close>

definition irq_heads :: "inode set" where
  "irq_heads = IH ` {..<16}"

definition irq_lists :: "(nat \<Rightarrow> nat list) \<Rightarrow> inode \<Rightarrow> inode list" where
  "irq_lists H h = (case h of IH i \<Rightarrow> map IP (H i) | IP _ \<Rightarrow> [])"

definition irq_ok :: "nat \<Rightarrow> 'd irqstate \<Rightarrow> (nat \<times> nat) set \<Rightarrow> nat set \<Rightarrow> (nat \<Rightarrow> nat list) \<Rightarrow> bool" where
  "irq_ok n s A U H \<longleftrightarrow> rings UNIV irq_heads (irq_lists H) (iq_links s) \<and> (\<forall>i<16. set (H i) \<subseteq> U) \<and>
     (\<exists>c. intproc_cache s = Some c \<and> cache_ok n (caches (iq_sys s) c) A U) \<and>
     (\<exists>F. mem_ok (sys_mm (iq_sys s)) A F)"

definition handler :: "'d irqstate \<Rightarrow> nat \<Rightarrow> nat \<times> nat" where
  "handler s a = (intf (int_procs s a), iparam (int_procs s a))"

text \<open>The lines that have been opened are unmasked and have their gates.\<close>

definition lines_open :: "(nat \<Rightarrow> u32) \<Rightarrow> u8 \<Rightarrow> u8 \<Rightarrow> 'd irqstate \<Rightarrow> bool" where
  "lines_open ent mm ms s \<longleftrightarrow> (\<forall>i<16. pubent_init s i \<longrightarrow>
     \<not> irq_masked mm ms i \<and> gate_addr (idt_table s (X86_VECTOR_IRQ_20 + i)) = ent i)"

lemma irq_ring:
  assumes "rings UNIV irq_heads (irq_lists H) h" "i < 16"
  shows "ring h (IH i) (map IP (H i))"
  using assms by (auto simp: rings_def irq_heads_def irq_lists_def dest!: bspec)

lemma has_intf_walk:
  "linked (iq_links s) (map IP xs @ [IH i]) \<Longrightarrow> length xs < fuel \<Longrightarrow>
     has_intf fuel fn (IH i) (Some (hd (map IP xs @ [IH i]))) s = Inr (\<exists>a\<in>set xs. intf (int_procs s a) = fn)"
proof (induction xs arbitrary: fuel)
  case Nil
  then show ?case by (cases fuel) auto
next
  case (Cons x xs)
  then obtain g where g: "fuel = Suc g" by (cases fuel) auto
  have "linked (iq_links s) (map IP xs @ [IH i])" "lnext (iq_links s (IP x)) = Some (hd (map IP xs @ [IH i]))"
    using Cons.prems(1) linked_app [of "[IP x]" "map IP xs @ [IH i]" "iq_links s"] by simp_all
  with Cons g show ?case by auto
qed

lemma has_intf_ok:
  assumes "ring (iq_links s) (IH i) (map IP xs)" "length xs < fuel"
  shows "has_intf fuel fn (IH i) (lnext (iq_links s (IH i))) s = Inr (\<exists>a\<in>set xs. intf (int_procs s a) = fn)"
proof -
  have "linked (iq_links s) (map IP xs @ [IH i])"
    using assms(1) ring_split [of "iq_links s" "IH i" "[]" "map IP xs"] by simp
  then show ?thesis using has_intf_walk [OF _ assms(2)] ring_next [OF assms(1)] by simp
qed

lemma add_intproc_ok:
  assumes ok: "irq_ok n s A U H" and i: "i < 16" and n: "n < fuel" and c: "intproc_cache s = Some c"
  shows "(add_intproc fuel c i fn param s = Inl Fault \<and>
      (\<exists>m. page_alloc (r_slb (caches (iq_sys s) c)) MMAREA_NORMAL False (sys_mm (iq_sys s)) = Inr (None, m))) \<or>
    (\<exists>s' a A' U'. add_intproc fuel c i fn param s = Inr s' \<and> irq_ok (n + 1) s' A' U' (H(i := a # H i)) \<and>
       (\<forall>j<16. a \<notin> set (H j)) \<and> int_procs s' = (int_procs s)(a := \<lparr>intf = fn, iparam = param\<rparr>) \<and>
       dev s' = dev s \<and> pubent_init s' = pubent_init s \<and> idt_table s' = idt_table s \<and> intproc_cache s' = Some c)"
proof -
  obtain F where m: "mem_ok (sys_mm (iq_sys s)) A F" and r: "rings UNIV irq_heads (irq_lists H) (iq_links s)"
    and U: "\<forall>i<16. set (H i) \<subseteq> U" and cc: "cache_ok n (caches (iq_sys s) c) A U"
    using ok c by (auto simp: irq_ok_def)
  from memcache_alloc_ok [OF cc m n] show ?thesis
  proof
    assume "\<exists>mm'. memcache_alloc fuel (caches (iq_sys s) c) (sys_mm (iq_sys s)) = Inr (None, caches (iq_sys s) c, mm') \<and> mem_ok mm' A F"
    then obtain mm' where al: "memcache_alloc fuel (caches (iq_sys s) c) (sys_mm (iq_sys s)) = Inr (None, caches (iq_sys s) c, mm')"
      by blast
    then show ?thesis using alloc_none [OF al] by (simp add: add_intproc_def)
  next
    assume "\<exists>x c' mm' A' F' m. memcache_alloc fuel (caches (iq_sys s) c) (sys_mm (iq_sys s)) = Inr (Some x, c', mm') \<and>
       cache_ok (n + 1) c' A' (insert x U) \<and> mem_ok mm' A' F' \<and> A \<subseteq> A' \<and> x \<notin> U \<and>
       (\<forall>y\<in>U. x + s_blk (caches (iq_sys s) c) \<le> y \<or> y + s_blk (caches (iq_sys s) c) \<le> x) \<and>
       s_blk c' = s_blk (caches (iq_sys s) c) \<and> ram mm' = memset (of_nat x) 0 (s_blk (caches (iq_sys s) c)) m"
    then obtain x c' mm' A' F' where x: "memcache_alloc fuel (caches (iq_sys s) c) (sys_mm (iq_sys s)) = Inr (Some x, c', mm')"
      "cache_ok (n + 1) c' A' (insert x U)" "mem_ok mm' A' F'" "x \<notin> U" by blast
    have hi: "IH i \<in> irq_heads" using i by (simp add: irq_heads_def)
    have new: "IP x \<notin> members irq_heads (irq_lists H)" "IP x \<notin> irq_heads"
      using x(4) U by (auto simp: members_def irq_heads_def irq_lists_def)
    obtain h where h: "list_add_head (IP x) (IH i) (iq_links s) = Inr h"
      "rings UNIV irq_heads ((irq_lists H)(IH i := IP x # irq_lists H (IH i))) h"
      using lh.add_head [OF r hi, of "IP x"] new by auto
    have L: "(irq_lists H)(IH i := IP x # irq_lists H (IH i)) = irq_lists (H(i := x # H i))"
      by (auto simp: irq_lists_def fun_eq_iff split: inode.splits)
    define s' where "s' = s\<lparr>iq_sys := (iq_sys s)\<lparr>caches := (caches (iq_sys s))(c := c'), sys_mm := mm'\<rparr>,
        int_procs := (int_procs s)(x := \<lparr>intf = fn, iparam = param\<rparr>), iq_links := h\<rparr>"
    have "add_intproc fuel c i fn param s = Inr s'"
      using h(1) by (simp add: add_intproc_def x(1) Let_def s'_def)
    moreover have "irq_ok (n + 1) s' A' (insert x U) (H(i := x # H i))"
      using h(2) U x(2,3) c unfolding irq_ok_def L by (auto simp: s'_def)
    moreover have "\<forall>j<16. x \<notin> set (H j)" using x(4) U by blast
    ultimately show ?thesis using c by (intro disjI2 exI [of _ s'] exI [of _ x] exI [of _ A'] exI [of _ "insert x U"])
      (simp add: s'_def)
  qed
qed

lemma irq_enable_same:
  "iq_links (irq_enable inb outb ent i s) = iq_links s" "int_procs (irq_enable inb outb ent i s) = int_procs s"
  "iq_sys (irq_enable inb outb ent i s) = iq_sys s" "intproc_cache (irq_enable inb outb ent i s) = intproc_cache s"
  "pubent_init (irq_enable inb outb ent i s) = (pubent_init s)(i := True)"
  by (auto simp: irq_enable_def fun_eq_iff)

context pic_chip begin

lemma irq_enable_lines:
  assumes "ready (dev s)" "lines_open ent (imr_m (dev s)) (imr_s (dev s)) s" "i < 16"
  defines "t \<equiv> irq_enable inb outb ent i s"
  shows "ready (dev t) \<and> lines_open ent (imr_m (dev t)) (imr_s (dev t)) t \<and>
    (\<forall>j<16. irq_masked (imr_m (dev t)) (imr_s (dev t)) j = (irq_masked (imr_m (dev s)) (imr_s (dev s)) j \<and> j \<noteq> i))"
proof (cases "pubent_init s i")
  case True
  then show ?thesis using assms by (auto simp: t_def irq_enable_def lines_open_def)
next
  case False
  then have t: "t = s\<lparr>dev := irq_unmask inb outb i (dev s), idt_table := set_intgate (X86_VECTOR_IRQ_20 + i) (ent i) (idt_table s),
      pubent_init := (pubent_init s)(i := True), if_flag := True\<rparr>" by (simp add: t_def irq_enable_def)
  note u = unmask_ok [OF assms(1,3)]
  have "lines_open ent (imr_m (dev t)) (imr_s (dev t)) t"
    unfolding lines_open_def
  proof (intro allI impI)
    fix j :: nat assume j: "j < 16" "pubent_init t j"
    show "\<not> irq_masked (imr_m (dev t)) (imr_s (dev t)) j \<and> gate_addr (idt_table t (X86_VECTOR_IRQ_20 + j)) = ent j"
      using j u(2) [OF j(1)] assms(2) by (cases "j = i") (auto simp: t lines_open_def)
  qed
  then show ?thesis using u by (simp add: t)
qed

text \<open>
  Registration: a handler that is on the line already is refused; another one is put first on the
  line. Either way the line is open, and no other line changes. (Only memory can fail.)
\<close>

lemma register_ok:
  assumes ok: "irq_ok n s A U H" and rd: "ready (dev s)" "lines_open ent (imr_m (dev s)) (imr_s (dev s)) s"
    and irq: "0 \<le> irq" "irq < 16" "irq \<noteq> 2" and fuel: "n < fuel" "length (H (nat irq)) < fuel"
  defines "i \<equiv> nat irq"
  shows "(\<exists>s' A' U' H' r n'. interrup_register inb outb ent fuel irq fn param s = Inr (r, s') \<and> irq_ok n' s' A' U' H' \<and>
      ready (dev s') \<and> lines_open ent (imr_m (dev s')) (imr_s (dev s')) s' \<and> pubent_init s' i \<and>
      (\<forall>j<16. irq_masked (imr_m (dev s')) (imr_s (dev s')) j = (irq_masked (imr_m (dev s)) (imr_s (dev s)) j \<and> j \<noteq> i)) \<and>
      (\<forall>j<16. map (handler s') (H' j) =
         (if j = i \<and> r = 0 then (fn, param) # map (handler s) (H j) else map (handler s) (H j))) \<and>
      r = (if fn \<in> fst ` set (map (handler s) (H i)) then - 2 else 0)) \<or>
    (interrup_register inb outb ent fuel irq fn param s = Inl Fault \<and>
      (\<exists>c m. intproc_cache s = Some c \<and>
         page_alloc (r_slb (caches (iq_sys s) c)) MMAREA_NORMAL False (sys_mm (iq_sys s)) = Inr (None, m)))"
proof -
  have i: "i < 16" using irq by (simp add: i_def)
  obtain c where c: "intproc_cache s = Some c" using ok by (auto simp: irq_ok_def)
  define t where "t = irq_enable inb outb ent i s"
  have okt: "irq_ok n t A U H" using ok by (simp add: irq_ok_def t_def irq_enable_same)
  have ct: "intproc_cache t = Some c" "int_procs t = int_procs s" "iq_sys t = iq_sys s" "pubent_init t i"
    by (simp_all add: t_def irq_enable_same c)
  note ln = irq_enable_lines [OF rd i, folded t_def]
  have r: "ring (iq_links t) (IH i) (map IP (H i))"
    using okt i irq_ring unfolding irq_ok_def by blast
  have f: "has_intf fuel fn (IH i) (lnext (iq_links t (IH i))) t = Inr (\<exists>a\<in>set (H i). intf (int_procs s a) = fn)"
    using has_intf_ok [OF r] fuel(2) ct(2) by (simp add: i_def)
  have fs: "fn \<in> fst ` set (map (handler s) (H i)) \<longleftrightarrow> (\<exists>a\<in>set (H i). intf (int_procs s a) = fn)"
    by (force simp: handler_def)
  have ht: "handler t = handler s" by (simp add: handler_def ct fun_eq_iff)
  have reg: "interrup_register inb outb ent fuel irq fn param s =
      (if \<exists>a\<in>set (H i). intf (int_procs s a) = fn then Inr (- 2, t)
       else bindE (add_intproc fuel c i fn param t) (\<lambda>s. Inr (0, s)))"
    using irq f by (simp add: interrup_register_def get_intcache_def c Let_def i_def [symmetric] t_def [symmetric])
  show ?thesis
  proof (cases "\<exists>a\<in>set (H i). intf (int_procs s a) = fn")
    case True
    then show ?thesis using okt ln ct(4) reg fs ht
      by (intro disjI1 exI [of _ t] exI [of _ A] exI [of _ U] exI [of _ H] exI [of _ "- 2"] exI [of _ n]) simp
  next
    case False
    from add_intproc_ok [OF okt i fuel(1) ct(1)] show ?thesis
    proof
      assume "add_intproc fuel c i fn param t = Inl Fault \<and>
        (\<exists>m. page_alloc (r_slb (caches (iq_sys t) c)) MMAREA_NORMAL False (sys_mm (iq_sys t)) = Inr (None, m))"
      then show ?thesis using reg False c ct(3) by auto
    next
      assume "\<exists>s' a A' U'. add_intproc fuel c i fn param t = Inr s' \<and> irq_ok (n + 1) s' A' U' (H(i := a # H i)) \<and>
         (\<forall>j<16. a \<notin> set (H j)) \<and> int_procs s' = (int_procs t)(a := \<lparr>intf = fn, iparam = param\<rparr>) \<and>
         dev s' = dev t \<and> pubent_init s' = pubent_init t \<and> idt_table s' = idt_table t \<and> intproc_cache s' = Some c"
      then obtain s' a A' U' where s': "add_intproc fuel c i fn param t = Inr s'" "irq_ok (n + 1) s' A' U' (H(i := a # H i))"
         "\<forall>j<16. a \<notin> set (H j)" "int_procs s' = (int_procs t)(a := \<lparr>intf = fn, iparam = param\<rparr>)"
         "dev s' = dev t" "pubent_init s' = pubent_init t" "idt_table s' = idt_table t" by blast
      have "map (handler s') (H j) = map (handler s) (H j)" if "j < 16" for j
        using s'(3,4) ct(2) that by (auto simp: handler_def)
      moreover have "handler s' a = (fn, param)" by (simp add: handler_def s'(4))
      moreover have "lines_open ent (imr_m (dev s')) (imr_s (dev s')) s'"
        using ln s'(5,6,7) by (simp add: lines_open_def)
      ultimately show ?thesis using s'(1,2,5,6) ln ct(4) reg False fs
        by (intro disjI1 exI [of _ s'] exI [of _ A'] exI [of _ U'] exI [of _ "H(i := a # H i)"] exI [of _ 0]
            exI [of _ "n + 1"]) auto
    qed
  qed
qed

end

section \<open>Dispatch\<close>

fun run_handlers ::
  "(nat \<Rightarrow> nat \<Rightarrow> 'd irqstate \<Rightarrow> 'd irqstate res) \<Rightarrow> (nat \<times> nat) list \<Rightarrow> 'd irqstate \<Rightarrow> 'd irqstate res" where
  "run_handlers call [] s = Inr s"
| "run_handlers call ((fn, param) # cs) s = bindE (call fn param s) (run_handlers call cs)"

text \<open>Handlers do not register handlers while they run.\<close>

definition keeps_lines :: "(nat \<Rightarrow> nat \<Rightarrow> 'd irqstate \<Rightarrow> 'd irqstate res) \<Rightarrow> bool" where
  "keeps_lines call \<longleftrightarrow> (\<forall>fn param s s'. call fn param s = Inr s' \<longrightarrow>
     iq_links s' = iq_links s \<and> int_procs s' = int_procs s)"

lemma irq_walk_ok:
  assumes k: "keeps_lines call"
  shows "linked (iq_links s) (map IP xs @ [IH i]) \<Longrightarrow> length xs < fuel \<Longrightarrow>
    irq_walk call fuel (IH i) (Some (hd (map IP xs @ [IH i]))) s = run_handlers call (map (handler s) xs) s"
proof (induction xs arbitrary: fuel s)
  case Nil
  then show ?case by (cases fuel) auto
next
  case (Cons x xs)
  obtain g where g: "fuel = Suc g" using Cons.prems by (cases fuel) auto
  have l: "linked (iq_links s) (map IP xs @ [IH i])" "lnext (iq_links s (IP x)) = Some (hd (map IP xs @ [IH i]))"
    using Cons.prems(1) linked_app [of "[IP x]" "map IP xs @ [IH i]" "iq_links s"] by simp_all
  have "irq_walk call g (IH i) (lnext (iq_links s' (IP x))) s' = run_handlers call (map (handler s) xs) s'"
    if "call (intf (int_procs s x)) (iparam (int_procs s x)) s = Inr s'" for s'
  proof -
    have e: "iq_links s' = iq_links s" "int_procs s' = int_procs s" using k that by (auto simp: keeps_lines_def)
    then have "handler s' = handler s" by (simp add: handler_def fun_eq_iff)
    then show ?thesis using Cons.IH [of s' g] l Cons.prems(2) g e(1) by simp
  qed
  then show ?case using g
    by (cases "call (intf (int_procs s x)) (iparam (int_procs s x)) s") (simp_all add: handler_def [of s x])
qed

lemma dispatch_ok:
  assumes "irq_ok n s A U H" "keeps_lines call" "irq < 16" "length (H irq) < fuel"
  shows "irq_walk call fuel (IH irq) (lnext (iq_links s (IH irq))) s = run_handlers call (map (handler s) (H irq)) s"
proof -
  have r: "ring (iq_links s) (IH irq) (map IP (H irq))"
    using assms(1,3) irq_ring unfolding irq_ok_def by blast
  then have "linked (iq_links s) (map IP (H irq) @ [IH irq])"
    using ring_split [of "iq_links s" "IH irq" "[]" "map IP (H irq)"] by simp
  then show ?thesis using irq_walk_ok [OF assms(2) _ assms(4)] ring_next [OF r] by simp
qed

section \<open>The state after \<^verbatim>\<open>interrupt_init\<close>\<close>

lemma int_lists_empty:
  "int_list_init h x = (case x of IH i \<Rightarrow> if i < 16 then \<lparr>lprev = Some x, lnext = Some x\<rparr> else h x | IP _ \<Rightarrow> h x)"
proof -
  have "fold (\<lambda>i. list_init (IH i)) [0..<n] h x =
      (case x of IH i \<Rightarrow> if i < n then \<lparr>lprev = Some x, lnext = Some x\<rparr> else h x | IP _ \<Rightarrow> h x)" for n
    by (induction n) (auto simp: list_init_def less_Suc_eq split: inode.splits)
  then show ?thesis by (simp add: int_list_init_def)
qed

lemma init_rings:
  assumes "\<And>x. h x = \<lparr>lprev = None, lnext = None\<rparr>"
  shows "rings UNIV irq_heads (irq_lists (\<lambda>_. [])) (int_list_init h)"
  by (auto simp: rings_def ring_def irq_heads_def irq_lists_def members_def int_lists_empty assms
      check_node_outoflist_def check_node_inlist_def split: inode.splits)

lemma init_ok:
  assumes "\<And>x. iq_links s x = \<lparr>lprev = None, lnext = None\<rparr>"
    and "intproc_cache s = Some c" "cache_ok n (caches (iq_sys s) c) A U" "mem_ok (sys_mm (iq_sys s)) A F"
  shows "irq_ok n (interrupt_init outb s) A U (\<lambda>_. [])"
  using init_rings [OF assms(1)] assms(2-4) by (auto simp: irq_ok_def interrupt_init_def)

lemma init_lines:
  fixes s :: "(pic8259 \<times> pic8259) irqstate"
  assumes "\<And>i. \<not> pubent_init s i"
  defines "t \<equiv> interrupt_init pics_out s"
  shows "pics_ready (dev t)" "lines_open ent (imr (fst (dev t))) (imr (snd (dev t))) t" "if_flag t"
    "i < 16 \<Longrightarrow> irq_masked (imr (fst (dev t))) (imr (snd (dev t))) i = (i \<noteq> 2)"
    "v < 256 \<Longrightarrow> idt_table t v = zero_gate"
  using assms pics.setup_masks [of i "dev s"] pics.ready_setup [of "dev s"]
  by (simp_all add: t_def interrupt_init_def lines_open_def)

section \<open>Properties\<close>

text \<open>
  C22: \<^verbatim>\<open>interrup_register\<close> on a usable line refuses a function that the line has already, and puts any
  other one first on the line; the line is then open (unmasked, with its gate), no other line
  changes, and all invariants hold again. It can only fail when the page allocator has no page
  left - and then it writes through the null pointer.
\<close>

theorem interrup_register_correct:
  fixes s :: "(pic8259 \<times> pic8259) irqstate"
  assumes "irq_ok n s A U H" "pics_ready (dev s)" "lines_open ent (imr (fst (dev s))) (imr (snd (dev s))) s"
    and "0 \<le> irq" "irq < 16" "irq \<noteq> 2" and "n < fuel" "length (H (nat irq)) < fuel"
  shows "(\<exists>s' A' U' H' r n'. interrup_register pics_in pics_out ent fuel irq fn param s = Inr (r, s') \<and> irq_ok n' s' A' U' H' \<and>
      pics_ready (dev s') \<and> lines_open ent (imr (fst (dev s'))) (imr (snd (dev s'))) s' \<and> pubent_init s' (nat irq) \<and>
      (\<forall>j<16. irq_masked (imr (fst (dev s'))) (imr (snd (dev s'))) j =
         (irq_masked (imr (fst (dev s))) (imr (snd (dev s))) j \<and> j \<noteq> nat irq)) \<and>
      (\<forall>j<16. map (handler s') (H' j) =
         (if j = nat irq \<and> r = 0 then (fn, param) # map (handler s) (H j) else map (handler s) (H j))) \<and>
      r = (if fn \<in> fst ` set (map (handler s) (H (nat irq))) then - 2 else 0)) \<or>
    (interrup_register pics_in pics_out ent fuel irq fn param s = Inl Fault \<and>
      (\<exists>c m. intproc_cache s = Some c \<and>
         page_alloc (r_slb (caches (iq_sys s) c)) MMAREA_NORMAL False (sys_mm (iq_sys s)) = Inr (None, m)))"
  using assms by (rule pics.register_ok)

text \<open>A machine with memory and an empty cache, after \<^verbatim>\<open>interrupt_init\<close>.\<close>

definition irq_start :: "memcache \<Rightarrow> mmstate \<Rightarrow> (pic8259 \<times> pic8259) irqstate" where
  "irq_start c mm = interrupt_init pics_out
     \<lparr>iq_links = (\<lambda>_. \<lparr>lprev = None, lnext = None\<rparr>), int_procs = (\<lambda>_. \<lparr>intf = 0, iparam = 0\<rparr>),
      pubent_init = (\<lambda>_. False), idt_table = (\<lambda>_. zero_gate), intproc_cache = Some 0,
      iq_sys = \<lparr>cache_cache = zero_cache, caches = (\<lambda>_. c),
        cachelist = (\<lambda>_. \<lparr>lprev = None, lnext = None\<rparr>), sys_mm = mm\<rparr>,
      if_flag = False, dev = (\<lparr>icw = 7, vec_base = 0, imr = 0, n_eoi = 0\<rparr>, \<lparr>icw = 7, vec_base = 0, imr = 0, n_eoi = 0\<rparr>)\<rparr>"

lemma irq_start_ok:
  assumes "cache_ok n c A U" "mem_ok mm A F"
  shows "irq_ok n (irq_start c mm) A U (\<lambda>_. [])" "pics_ready (dev (irq_start c mm))"
    "lines_open ent (imr (fst (dev (irq_start c mm)))) (imr (snd (dev (irq_start c mm)))) (irq_start c mm)"
proof -
  show "irq_ok n (irq_start c mm) A U (\<lambda>_. [])"
    unfolding irq_start_def by (rule init_ok [where c = 0 and F = F]) (simp_all add: assms)
  show "pics_ready (dev (irq_start c mm))"
    unfolding irq_start_def by (rule init_lines) simp
  show "lines_open ent (imr (fst (dev (irq_start c mm)))) (imr (snd (dev (irq_start c mm)))) (irq_start c mm)"
    unfolding irq_start_def by (rule init_lines) simp
qed

lemma irq_start_mem:
  "intproc_cache (irq_start c mm) = Some 0" "caches (iq_sys (irq_start c mm)) 0 = c" "sys_mm (iq_sys (irq_start c mm)) = mm"
  by (simp_all add: irq_start_def interrupt_init_def)

theorem interrup_register_correct_witness:
  "\<exists>c mm s' n' A' U' H'. page_free 0 (mm_in MMAREA_NORMAL) = Inr mm \<and>
     interrup_register pics_in pics_out (\<lambda>i. 0x40000 + of_nat i) 1 14 77 5 (irq_start c mm) = Inr (0, s') \<and>
     irq_ok n' s' A' U' H' \<and> map (handler s') (H' 14) = [(77, 5)]"
proof -
  obtain c mm F where c: "page_free 0 (mm_in MMAREA_NORMAL) = Inr mm" "cache_ok 0 c {} {}" "mem_ok mm {} F"
    "\<nexists>m. page_alloc (r_slb c) MMAREA_NORMAL False mm = Inr (None, m)"
    using new_cache by blast
  note st = irq_start_ok(1,2) [OF c(2,3)] irq_start_ok(3) [OF c(2,3), where ent = "\<lambda>i. 0x40000 + of_nat i"]
  have "(0::int) \<le> 14" "(14::int) < 16" "(14::int) \<noteq> 2" "(0::nat) < 1" "length ((\<lambda>_. []) (nat 14)) < 1" by simp_all
  from interrup_register_correct [where ent = "\<lambda>i. 0x40000 + of_nat i", OF st this, of 77 5] c(4)
  obtain s' A' U' H' n' where "interrup_register pics_in pics_out (\<lambda>i. 0x40000 + of_nat i) 1 14 77 5 (irq_start c mm) = Inr (0, s')"
    "irq_ok n' s' A' U' H'" "map (handler s') (H' 14) = [(77, 5)]"
    by (auto simp: irq_start_mem)
  then show ?thesis using c(1) by (intro exI conjI)
qed

text \<open>
  C23: an interrupt of a line calls the handlers of the line once each, the last registered first,
  and then acknowledges the interrupt at the chips concerned; an interrupt of line 7 of the master,
  whose registration is accepted, stops the machine.
\<close>

theorem irq_dispatch_correct:
  assumes "irq_ok n s A U H" "keeps_lines call" "irq < 16" "length (H irq) < fuel"
  shows "(irq < 7 \<longrightarrow> intprocjmp_master outb call fuel irq s =
      bindE (run_handlers call (map (handler s) (H irq)) s) (\<lambda>s. Inr (s\<lparr>dev := outb 0x20 0x20 (dev s)\<rparr>))) \<and>
    (8 \<le> irq \<longrightarrow> intprocjmp_slaver outb call fuel irq s =
      bindE (run_handlers call (map (handler s) (H irq)) s) (\<lambda>s. Inr (s\<lparr>dev := outb 0x20 0x20 (outb 0x20 0xA0 (dev s))\<rparr>))) \<and>
    (irq = 7 \<longrightarrow> intprocjmp_master outb call fuel irq s = Inl Die)"
  using dispatch_ok [OF assms] assms(3)
  by (simp_all add: intprocjmp_master_def intprocjmp_slaver_def sendeoi_master_def sendeoi_slaver_def pic_ports)

theorem irq_dispatch_correct_witness:
  "\<exists>c mm s' call. interrup_register pics_in pics_out (\<lambda>i. 0x40000 + of_nat i) 1 14 77 5 (irq_start c mm) = Inr (0, s') \<and>
     intprocjmp_slaver pics_out call 2 14 s' = Inr (s'\<lparr>if_flag := False, dev := pics_out 0x20 0x20 (pics_out 0x20 0xA0 (dev s'))\<rparr>)"
proof -
  obtain c mm F where c: "cache_ok 0 c {} {}" "mem_ok mm {} F" "\<nexists>m. page_alloc (r_slb c) MMAREA_NORMAL False mm = Inr (None, m)"
    using new_cache by blast
  note st = irq_start_ok(1,2) [OF c(1,2)] irq_start_ok(3) [OF c(1,2), where ent = "\<lambda>i. 0x40000 + of_nat i"]
  have "(0::int) \<le> 14" "(14::int) < 16" "(14::int) \<noteq> 2" "(0::nat) < 1" "length ((\<lambda>_. []) (nat 14)) < 1" by simp_all
  from pics.register_ok [where ent = "\<lambda>i. 0x40000 + of_nat i", OF st this, of 77 5] c(3)
  obtain s' A' U' H' n' where s': "interrup_register pics_in pics_out (\<lambda>i. 0x40000 + of_nat i) 1 14 77 5 (irq_start c mm) = Inr (0, s')"
    "irq_ok n' s' A' U' H'" "map (handler s') (H' 14) = [(77, 5)]"
    by (auto simp: irq_start_mem)
  define call :: "nat \<Rightarrow> nat \<Rightarrow> (pic8259 \<times> pic8259) irqstate \<Rightarrow> (pic8259 \<times> pic8259) irqstate res"
    where "call = (\<lambda>fn param s. if fn = 77 then Inr (s\<lparr>if_flag := False\<rparr>) else Inr s)"
  have "keeps_lines call" by (auto simp: keeps_lines_def call_def split: if_splits)
  moreover have "length (H' 14) < 2" using s'(3) by (cases "H' 14") auto
  ultimately have "intprocjmp_slaver pics_out call 2 14 s' =
      Inr (s'\<lparr>if_flag := False, dev := pics_out 0x20 0x20 (pics_out 0x20 0xA0 (dev s'))\<rparr>)"
    using irq_dispatch_correct [OF s'(2), of call 14 2 pics_out] s'(3) by (simp add: call_def)
  then show ?thesis using s'(1) by blast
qed

end
