(* ===== verification/Ext2.thy ===== *)
theory Ext2
  imports Slab Paging
begin

text \<open>
  The reading side of the ext2 file system, \<^verbatim>\<open>fs/ext2.c\<close>, and the file access of \<^verbatim>\<open>fs/fs.c\<close> on
  top of it. Buffers, the super block, the group descriptors and directory blocks are bytes in
  memory; the driver of the partition is a parameter. The locale \<open>block_dev\<close> states what a driver
  does to memory, and reading a file is proved to put the blocks that the inode maps there, in order.
\<close>

section \<open>The code\<close>

subsection \<open>Data\<close>

definition LOGIC_BLOCK_SIZE :: u32 where "LOGIC_BLOCK_SIZE = 1024"
definition EXT2_ROOT_INODEIDX :: u32 where "EXT2_ROOT_INODEIDX = 2"
definition EXT2_MAGICNUM :: u16 where "EXT2_MAGICNUM = 0xEF53"
definition EXT2_MAXDIRSIZE :: nat where "EXT2_MAXDIRSIZE = 1024"
definition EXT2_IND_BLOCK :: nat where "EXT2_IND_BLOCK = 12"
definition EXT2_DIND_BLOCK :: nat where "EXT2_DIND_BLOCK = 13"
definition EXT2_N_BLOCKS :: nat where "EXT2_N_BLOCKS = 15"
definition FS_FILENAME_LEN :: nat where "FS_FILENAME_LEN = 64"
definition sizeof_ext2_inode :: u16 where "sizeof_ext2_inode = 128"
definition sizeof_group_desc :: u32 where "sizeof_group_desc = 32"
definition sizeof_dentry :: u32 where "sizeof_dentry = 168"

definition S_ISDIR :: "u16 \<Rightarrow> bool" where
  "S_ISDIR m \<longleftrightarrow> m AND 0xF000 = 0x4000"

record fs_inode =
  i_mode :: u16
  i_uid :: u16
  i_size :: u32
  i_atime :: u32
  i_ctime :: u32
  i_mtime :: u32
  i_gid :: u16
  i_blocks :: u32
  i_block :: "u32 list"

record dentry =
  d_name :: "u8 list"
  d_inode_idx :: u32
  d_inode :: fs_inode

record ext2_info =
  fsparam :: nat
  e_sb :: u32
  grp_desc :: u32
  fsblock_buff01 :: u32
  fsblock_buff02 :: u32
  blk_size :: u32
  inode_per_block :: u8
  curdir_idx :: nat
  dentry_buf :: "nat \<Rightarrow> dentry"

text \<open>Little-endian loads.\<close>

definition ld16 :: "mem \<Rightarrow> u32 \<Rightarrow> u16" where
  "ld16 m a = (ucast (m a) OR push_bit 8 (ucast (m (a + 1))))"

definition ld32 :: "mem \<Rightarrow> u32 \<Rightarrow> u32" where
  "ld32 m a = (ucast (m a) OR push_bit 8 (ucast (m (a + 1))) OR push_bit 16 (ucast (m (a + 2))) OR
     push_bit 24 (ucast (m (a + 3))))"

definition sb_log_block_size :: "mem \<Rightarrow> u32 \<Rightarrow> u32" where "sb_log_block_size m sb = ld32 m (sb + 24)"
definition sb_inodes_per_group :: "mem \<Rightarrow> u32 \<Rightarrow> u32" where "sb_inodes_per_group m sb = ld32 m (sb + 40)"
definition sb_magic :: "mem \<Rightarrow> u32 \<Rightarrow> u16" where "sb_magic m sb = ld16 m (sb + 56)"
definition sb_inode_size :: "mem \<Rightarrow> u32 \<Rightarrow> u16" where "sb_inode_size m sb = ld16 m (sb + 88)"
definition bg_inode_table :: "mem \<Rightarrow> u32 \<Rightarrow> u32" where "bg_inode_table m g = ld32 m (g + 8)"
definition de_inode :: "mem \<Rightarrow> u32 \<Rightarrow> u32" where "de_inode m e = ld32 m e"
definition de_rec_len :: "mem \<Rightarrow> u32 \<Rightarrow> u16" where "de_rec_len m e = ld16 m (e + 4)"
definition de_name_len :: "mem \<Rightarrow> u32 \<Rightarrow> u8" where "de_name_len m e = m (e + 6)"

text \<open>The fields of the inode on the disk that are copied.\<close>

definition load_inode :: "mem \<Rightarrow> u32 \<Rightarrow> fs_inode" where
  "load_inode m a = \<lparr>i_mode = ld16 m a, i_uid = ld16 m (a + 2), i_size = ld32 m (a + 4),
     i_atime = ld32 m (a + 8), i_ctime = ld32 m (a + 12), i_mtime = ld32 m (a + 16),
     i_gid = ld16 m (a + 24), i_blocks = ld32 m (a + 28),
     i_block = map (\<lambda>k. ld32 m (a + 40 + 4 * of_nat k)) [0..<EXT2_N_BLOCKS]\<rparr>"

definition zero_inode :: fs_inode where
  "zero_inode = \<lparr>i_mode = 0, i_uid = 0, i_size = 0, i_atime = 0, i_ctime = 0, i_mtime = 0, i_gid = 0,
     i_blocks = 0, i_block = replicate EXT2_N_BLOCKS 0\<rparr>"

subsection \<open>Blocks and inodes\<close>

text \<open>\<open>dread addr buff n\<close> is the driver's read of \<open>n\<close> logic blocks of the partition.\<close>

definition ext2_load_block :: "(u32 \<Rightarrow> u32 \<Rightarrow> u32 \<Rightarrow> mem \<Rightarrow> mem) \<Rightarrow> ext2_info \<Rightarrow> u32 \<Rightarrow> u32 \<Rightarrow> mmstate \<Rightarrow> mmstate" where
  "ext2_load_block dread info blockidx buff s =
     s\<lparr>ram := dread (blockidx * blk_size info div LOGIC_BLOCK_SIZE) buff (blk_size info div LOGIC_BLOCK_SIZE) (ram s)\<rparr>"

text \<open>
  A division by zero is an exception of the processor, which stops the machine. The info structure
  lies 1K behind the start of the second buffer, so a greater block would be read over it.
\<close>

definition ext2_get_inode ::
  "(u32 \<Rightarrow> u32 \<Rightarrow> u32 \<Rightarrow> mem \<Rightarrow> mem) \<Rightarrow> ext2_info \<Rightarrow> u32 \<Rightarrow> mmstate \<Rightarrow> (fs_inode \<times> mmstate) res" where
  "ext2_get_inode dread info inode_idx s =
     (let per_grp = sb_inodes_per_group (ram s) (e_sb info); per_block = ucast (inode_per_block info)
      in if per_grp = 0 \<or> per_block = 0 then Inl Die
         else
           let curgrp = grp_desc info + sizeof_group_desc * ((inode_idx - 1) div per_grp);
               inode_idxingrp = (inode_idx - 1) mod per_grp;
               inode_bkidx = bg_inode_table (ram s) curgrp + inode_idxingrp div per_block;
               inode_offsetinbk = inode_idxingrp mod per_block;
               s = ext2_load_block dread info inode_bkidx (fsblock_buff02 info) s
           in if LOGIC_BLOCK_SIZE < blk_size info then Inl Fault
              else Inr (load_inode (ram s) (fsblock_buff02 info + 128 * inode_offsetinbk), s))"

subsection \<open>Mounting\<close>

definition ext2_load_sb ::
  "(u32 \<Rightarrow> u32 \<Rightarrow> u32 \<Rightarrow> mem \<Rightarrow> mem) \<Rightarrow> ext2_info \<Rightarrow> mmstate \<Rightarrow> (ext2_info option \<times> mmstate) res" where
  "ext2_load_sb dread old s =
     bindE (page_alloc 1 MMAREA_NORMAL False s) (\<lambda>(p, s).
     (case p of
        None \<Rightarrow> Inr (None, s)
      | Some fp \<Rightarrow>
          let sb = of_nat fp;
              s = s\<lparr>ram := dread 1 sb 1 (ram s)\<rparr>
          in if sb_magic (ram s) sb \<noteq> EXT2_MAGICNUM then
               bindE (page_free fp s) (\<lambda>s. Inr (None, s))
             else if sb_inode_size (ram s) sb \<noteq> sizeof_ext2_inode then
               bindE (page_free fp s) (\<lambda>s. Inr (None, s))
             else
               let grpdesc_logicbkidx = (if sb_log_block_size (ram s) sb = 2 then 4 else 2);
                   grp = sb + LOGIC_BLOCK_SIZE;
                   s = s\<lparr>ram := dread grpdesc_logicbkidx grp 1 (ram s)\<rparr>;
                   bs = push_bit (10 + unat (sb_log_block_size (ram s) sb)) 1
               in if sb_inode_size (ram s) sb = 0 then Inl Die
                  else Inr (Some (old\<lparr>fsparam := fp, e_sb := sb, grp_desc := grp,
                         fsblock_buff01 := grp + LOGIC_BLOCK_SIZE, fsblock_buff02 := grp + 2 * LOGIC_BLOCK_SIZE,
                         blk_size := bs, inode_per_block := ucast (bs div ucast (sb_inode_size (ram s) sb))\<rparr>), s)))"

text \<open>\<open>old\<close> is what the memory of the info structure held.\<close>

definition ext2_mount ::
  "(u32 \<Rightarrow> u32 \<Rightarrow> u32 \<Rightarrow> mem \<Rightarrow> mem) \<Rightarrow> ext2_info \<Rightarrow> mmstate \<Rightarrow> (int \<times> ext2_info option \<times> mmstate) res" where
  "ext2_mount dread old s =
     bindE (ext2_load_sb dread old s) (\<lambda>(info, s).
     (case info of
        None \<Rightarrow> Inr (- 1, None, s)
      | Some info \<Rightarrow>
          bindE (ext2_get_inode dread info EXT2_ROOT_INODEIDX s) (\<lambda>(inode, s).
          Inr (0, Some (info\<lparr>curdir_idx := 0,
                 dentry_buf := (dentry_buf info)(0 := \<lparr>d_name = replicate FS_FILENAME_LEN 0,
                   d_inode_idx = EXT2_ROOT_INODEIDX, d_inode = inode\<rparr>)\<rparr>), s))))"

definition ext2_unmount :: "bool \<Rightarrow> ext2_info \<Rightarrow> mmstate \<Rightarrow> mmstate res" where
  "ext2_unmount mounted info s =
     (if \<not> mounted then Inr s else if fsparam info \<noteq> 0 then page_free (fsparam info) s else Inr s)"

subsection \<open>Directories\<close>

text \<open>\<^verbatim>\<open>ext2_getcurdir\<close>: the static buffer holds \<^verbatim>\<open>EXT2_MAXDIRSIZE\<close> bytes.\<close>

definition ext2_getcurdir :: "ext2_info \<Rightarrow> u8 list res" where
  "ext2_getcurdir info =
     (let path = (if curdir_idx info = 0 then [chr CHR ''/'']
                  else concat (map (\<lambda>i. chr CHR ''/'' # text_of (d_name (dentry_buf info i))) [1..<curdir_idx info + 1]))
      in if EXT2_MAXDIRSIZE \<le> length path then Inl Fault else Inr path)"

text \<open>The two buffers take 2K, then comes the info structure.\<close>

fun load_dir ::
  "(u32 \<Rightarrow> u32 \<Rightarrow> u32 \<Rightarrow> mem \<Rightarrow> mem) \<Rightarrow> ext2_info \<Rightarrow> u32 list \<Rightarrow> nat \<Rightarrow> u32 \<Rightarrow> mmstate \<Rightarrow> mmstate res" where
  "load_dir dread info blks 0 buff s = Inr s"
| "load_dir dread info [] (Suc n) buff s = Inl Fault"
| "load_dir dread info (b # blks) (Suc n) buff s =
     (if 2 * LOGIC_BLOCK_SIZE < buff - fsblock_buff01 info + blk_size info then Inl Fault
      else load_dir dread info blks n (buff + blk_size info) (ext2_load_block dread info b buff s))"

text \<open>Counting the entries: the record lengths on the disk need not add up to the size, so fuel.\<close>

fun count_entries :: "nat \<Rightarrow> mem \<Rightarrow> u32 \<Rightarrow> u32 \<Rightarrow> u32 \<Rightarrow> u32 res" where
  "count_entries 0 m e cnt n = Inl Stuck"
| "count_entries (Suc fuel) m e cnt n =
     (if cnt = 0 then Inr n
      else count_entries fuel m (e + ucast (de_rec_len m e)) (cnt - ucast (de_rec_len m e)) (n + 1))"

text \<open>A name longer than \<^verbatim>\<open>FS_FILENAME_LEN\<close> is copied over the following fields.\<close>

fun read_entries ::
  "(u32 \<Rightarrow> u32 \<Rightarrow> u32 \<Rightarrow> mem \<Rightarrow> mem) \<Rightarrow> ext2_info \<Rightarrow> nat \<Rightarrow> u32 \<Rightarrow> mmstate \<Rightarrow> (dentry list \<times> mmstate) res" where
  "read_entries dread info 0 e s = Inr ([], s)"
| "read_entries dread info (Suc n) e s =
     (let len = unat (de_name_len (ram s) e)
      in if FS_FILENAME_LEN < len then Inl Fault
         else let name = mem_bytes (ram s) (e + 8) len @ replicate (FS_FILENAME_LEN - len) 0;
                  idx = de_inode (ram s) e
              in bindE (ext2_get_inode dread info idx s) (\<lambda>(inode, s).
                 bindE (read_entries dread info n (e + ucast (de_rec_len (ram s) e)) s) (\<lambda>(ds, s).
                 Inr (\<lparr>d_name = name, d_inode_idx = idx, d_inode = inode\<rparr> # ds, s))))"

text \<open>The array of entries and the pages it is in, for \<^verbatim>\<open>page_free\<close>.\<close>

definition ext2_stat ::
  "(u32 \<Rightarrow> u32 \<Rightarrow> u32 \<Rightarrow> mem \<Rightarrow> mem) \<Rightarrow> nat \<Rightarrow> ext2_info \<Rightarrow> mmstate \<Rightarrow> (nat \<times> dentry list \<times> mmstate) res" where
  "ext2_stat dread fuel info s =
     (let curdir = dentry_buf info (curdir_idx info); inode = d_inode curdir; entryp = fsblock_buff01 info
      in bindE (assertE (S_ISDIR (i_mode inode))) (\<lambda>_.
         if blk_size info = 0 then Inl Die
         else
           bindE (load_dir dread info (i_block inode) (unat (i_size inode div blk_size info)) entryp s) (\<lambda>s.
           bindE (count_entries fuel (ram s) entryp (i_size inode) 0) (\<lambda>n_dentry.
           bindE (page_alloc (unat (get_pagerank (n_dentry * sizeof_dentry))) MMAREA_NORMAL False s) (\<lambda>(p, s).
           (case p of
              None \<Rightarrow> Inl Fault
            | Some a \<Rightarrow>
                bindE (read_entries dread info (unat n_dentry) entryp s) (\<lambda>(ds, s). Inr (a, ds, s))))))))"

text \<open>The entry that a path component selects: one whose name is a prefix of the component.\<close>

fun find_dentry :: "cstr \<Rightarrow> dentry list \<Rightarrow> dentry option" where
  "find_dentry sub [] = None"
| "find_dentry sub (d # ds) =
     (if \<not> S_ISDIR (i_mode (d_inode d)) then find_dentry sub ds
      else let len = unat (strlen (d_name d))
           in if memcmp (take len sub) (take len (d_name d)) = 0 then Some d else find_dentry sub ds)"

fun walk_path :: "dentry list \<Rightarrow> cstr list \<Rightarrow> ext2_info \<Rightarrow> int \<times> ext2_info" where
  "walk_path ds [] info = (0, info)"
| "walk_path ds (sub # subs) info =
     (if memcmp (take 2 sub) (map chr ''..'') = 0 then
        walk_path ds subs (if curdir_idx info \<noteq> 0 then info\<lparr>curdir_idx := curdir_idx info - 1\<rparr> else info)
      else if memcmp (take 1 sub) (map chr ''.'') = 0 then walk_path ds subs info
      else case find_dentry sub ds of
             None \<Rightarrow> (- 1, info)
           | Some d \<Rightarrow> walk_path ds subs (info\<lparr>curdir_idx := curdir_idx info + 1,
                                            dentry_buf := (dentry_buf info)(curdir_idx info + 1 := d)\<rparr>))"

definition ext2_changecurdir ::
  "(u32 \<Rightarrow> u32 \<Rightarrow> u32 \<Rightarrow> mem \<Rightarrow> mem) \<Rightarrow> nat \<Rightarrow> cstr \<Rightarrow> ext2_info \<Rightarrow> mmstate \<Rightarrow> (int \<times> ext2_info \<times> mmstate) res" where
  "ext2_changecurdir dread fuel dirname info s =
     bindE (ext2_stat dread fuel info s) (\<lambda>(a, ds, s).
     let info = (if ch_at dirname = chr CHR ''/'' then info\<lparr>curdir_idx := 0\<rparr> else info);
         (buf, args) = parse_str_by_inteflag [chr CHR ''/'', 10] dirname
     in if 16 < length args then Inl Fault
        else let (ret, info) = walk_path ds (map (\<lambda>i. drop i buf @ [0]) args) info
             in bindE (page_free a s) (\<lambda>s. Inr (ret, info, s)))"

subsection \<open>Files\<close>

text \<open>The index page is written and freed without a test for \<^verbatim>\<open>NULL\<close>.\<close>

definition index_page :: "mmstate \<Rightarrow> (nat \<times> mmstate) res" where
  "index_page s =
     bindE (page_alloc 0 MMAREA_NORMAL False s) (\<lambda>(p, s). case p of None \<Rightarrow> Inl Fault | Some a \<Rightarrow> Inr (a, s))"

fun ind_loop ::
  "(u32 \<Rightarrow> u32 \<Rightarrow> u32 \<Rightarrow> mem \<Rightarrow> mem) \<Rightarrow> ext2_info \<Rightarrow> u32 \<Rightarrow> u32 \<Rightarrow> nat \<Rightarrow> nat \<Rightarrow> mmstate \<Rightarrow> mmstate" where
  "ind_loop dread info idx mem i 0 s = s"
| "ind_loop dread info idx mem i (Suc n) s =
     ind_loop dread info idx mem (i + 1) n
       (ext2_load_block dread info (ld32 (ram s) (idx + 4 * of_nat i)) (mem + of_nat i * blk_size info) s)"

definition ext2_readfile_ind ::
  "(u32 \<Rightarrow> u32 \<Rightarrow> u32 \<Rightarrow> mem \<Rightarrow> mem) \<Rightarrow> ext2_info \<Rightarrow> u32 \<Rightarrow> u32 \<Rightarrow> u32 \<Rightarrow> mmstate \<Rightarrow> (u32 \<times> mmstate) res" where
  "ext2_readfile_ind dread info blkidx cnt mem s =
     bindE (index_page s) (\<lambda>(a, s).
     let s = ext2_load_block dread info blkidx (of_nat a) s;
         ret = (if blk_size info div 4 < cnt then blk_size info div 4 else cnt);
         s = ind_loop dread info (of_nat a) mem 0 (unat ret) s
     in bindE (page_free a s) (\<lambda>s. Inr (ret, s)))"

fun dind_loop ::
  "(u32 \<Rightarrow> u32 \<Rightarrow> u32 \<Rightarrow> mem \<Rightarrow> mem) \<Rightarrow> ext2_info \<Rightarrow> nat \<Rightarrow> u32 \<Rightarrow> u32 \<Rightarrow> u32 \<Rightarrow> nat \<Rightarrow> mmstate \<Rightarrow> (nat \<times> mmstate) res" where
  "dind_loop dread info 0 idx cnt mem i s = Inl Stuck"
| "dind_loop dread info (Suc fuel) idx cnt mem i s =
     (if cnt = 0 then Inr (i, s)
      else bindE (ext2_readfile_ind dread info (ld32 (ram s) (idx + 4 * of_nat i)) cnt mem s) (\<lambda>(n, s).
           dind_loop dread info fuel idx (cnt - n) (mem + blk_size info div 4 * blk_size info) (i + 1) s))"

definition ext2_readfile_dind ::
  "(u32 \<Rightarrow> u32 \<Rightarrow> u32 \<Rightarrow> mem \<Rightarrow> mem) \<Rightarrow> nat \<Rightarrow> ext2_info \<Rightarrow> u32 \<Rightarrow> u32 \<Rightarrow> u32 \<Rightarrow> mmstate \<Rightarrow> (u32 \<times> mmstate) res" where
  "ext2_readfile_dind dread fuel info blkidx cnt mem s =
     bindE (index_page s) (\<lambda>(a, s).
     let s = ext2_load_block dread info blkidx (of_nat a) s;
         per = blk_size info div 4;
         ret = (if per * per < cnt then per * per else cnt)
     in bindE (dind_loop dread info fuel (of_nat a) ret mem 0 s) (\<lambda>(i, s).
        bindE (assertE (i \<le> unat per)) (\<lambda>_.
        bindE (page_free a s) (\<lambda>s. Inr (ret, s)))))"

text \<open>The loop of \<^verbatim>\<open>ext2_readfile\<close>: \<open>k\<close> entries of the block map are left, \<open>tmp\<close> blocks were read last.\<close>

fun readfile_loop ::
  "(u32 \<Rightarrow> u32 \<Rightarrow> u32 \<Rightarrow> mem \<Rightarrow> mem) \<Rightarrow> nat \<Rightarrow> ext2_info \<Rightarrow> fs_inode \<Rightarrow> nat \<Rightarrow> u32 \<Rightarrow> u32 \<Rightarrow> u32 \<Rightarrow> mmstate \<Rightarrow> mmstate res" where
  "readfile_loop dread fuel info inode 0 n_block tmp addr s = Inl Die"
| "readfile_loop dread fuel info inode (Suc k) n_block tmp addr s =
     (let i = EXT2_N_BLOCKS - Suc k; b = i_block inode ! i
      in bindE (if i < EXT2_IND_BLOCK then Inr (1, ext2_load_block dread info b addr s)
                else if i = EXT2_IND_BLOCK then ext2_readfile_ind dread info b n_block addr s
                else if i = EXT2_DIND_BLOCK then ext2_readfile_dind dread fuel info b n_block addr s
                else Inr (tmp, s)) (\<lambda>(tmp, s).
         if n_block - tmp = 0 then Inr s
         else readfile_loop dread fuel info inode k (n_block - tmp) tmp (addr + tmp * blk_size info) s))"

definition ext2_readfile ::
  "(u32 \<Rightarrow> u32 \<Rightarrow> u32 \<Rightarrow> mem \<Rightarrow> mem) \<Rightarrow> nat \<Rightarrow> ext2_info \<Rightarrow> fs_inode \<Rightarrow> u32 \<Rightarrow> mmstate \<Rightarrow> (int \<times> mmstate) res" where
  "ext2_readfile dread fuel info inode mem s =
     (if blk_size info = 0 then Inl Die
      else let n_block = (i_size inode + blk_size info - 1) div blk_size info
           in bindE (readfile_loop dread fuel info inode EXT2_N_BLOCKS n_block 0 mem s) (\<lambda>s. Inr (0, s)))"

subsection \<open>\<^verbatim>\<open>fs_readfile\<close>\<close>

fun find_file :: "cstr \<Rightarrow> dentry list \<Rightarrow> u32 option" where
  "find_file name [] = None"
| "find_file name (d # ds) =
     (if strlen (d_name d) \<noteq> strlen name then find_file name ds
      else let len = unat (strlen name)
           in if memcmp (take len (d_name d)) (take len name) = 0 then Some (d_inode_idx d) else find_file name ds)"

text \<open>\<open>buf\<close> is \<^verbatim>\<open>NULL\<close> when only the size is wanted.\<close>

definition fs_readfile ::
  "(u32 \<Rightarrow> u32 \<Rightarrow> u32 \<Rightarrow> mem \<Rightarrow> mem) \<Rightarrow> nat \<Rightarrow> ext2_info \<Rightarrow> cstr \<Rightarrow> u32 option \<Rightarrow> mmstate \<Rightarrow> (int \<times> mmstate) res" where
  "fs_readfile dread fuel info name buf s =
     bindE (ext2_stat dread fuel info s) (\<lambda>(a, ds, s).
     bindE (page_free a s) (\<lambda>s.
     (case find_file name ds of
        None \<Rightarrow> Inr (- 1, s)
      | Some idx \<Rightarrow>
          bindE (ext2_get_inode dread info idx s) (\<lambda>(inode, s).
          bindE (case buf of
                   None \<Rightarrow> Inr s
                 | Some b \<Rightarrow> bindE (ext2_readfile dread fuel info inode b s) (\<lambda>(_, s). Inr s)) (\<lambda>s.
          Inr (sint (i_size inode), s))))))"

section \<open>The blocks of a partition\<close>

text \<open>The block sizes of the format, and what the code relies on of the driver.\<close>

definition blk_ok :: "ext2_info \<Rightarrow> bool" where
  "blk_ok info \<longleftrightarrow> unat (blk_size info) \<in> {1024, 2048, 4096}"

text \<open>
  \<open>part addr d\<close> is the \<open>d\<close>-th byte that a read from the logic block \<open>addr\<close> of the partition on brings.
  Where the code reads the block \<open>b\<close>; the product is taken modulo \<open>2 ^ 32\<close>.\<close>

definition blk_pos :: "ext2_info \<Rightarrow> u32 \<Rightarrow> u32" where
  "blk_pos info b = b * blk_size info div 1024"

definition blk_byte :: "(u32 \<Rightarrow> nat \<Rightarrow> u8) \<Rightarrow> ext2_info \<Rightarrow> u32 \<Rightarrow> nat \<Rightarrow> u8" where
  "blk_byte part info b j = part (blk_pos info b) j"

text \<open>The \<open>k\<close>-th entry of an index block, and the block of a file that the inode maps.\<close>

definition idx_of :: "(u32 \<Rightarrow> nat \<Rightarrow> u8) \<Rightarrow> ext2_info \<Rightarrow> u32 \<Rightarrow> nat \<Rightarrow> u32" where
  "idx_of part info b k = ld32 (\<lambda>x. blk_byte part info b (unat x)) (4 * of_nat k)"

definition bmap :: "(u32 \<Rightarrow> nat \<Rightarrow> u8) \<Rightarrow> ext2_info \<Rightarrow> fs_inode \<Rightarrow> nat \<Rightarrow> u32" where
  "bmap part info inode k =
     (let per = unat (blk_size info) div 4
      in if k < 12 then i_block inode ! k
         else if k < 12 + per then idx_of part info (i_block inode ! 12) (k - 12)
         else idx_of part info (idx_of part info (i_block inode ! 13) ((k - 12 - per) div per)) ((k - 12 - per) mod per))"

text \<open>Memory after the blocks \<open>bs\<close> have been put at \<open>a\<close>.\<close>

definition with_blocks :: "(u32 \<Rightarrow> nat \<Rightarrow> u8) \<Rightarrow> ext2_info \<Rightarrow> mem \<Rightarrow> u32 \<Rightarrow> u32 list \<Rightarrow> mem" where
  "with_blocks part info m a bs x =
     (let B = unat (blk_size info); d = unat (x - a)
      in if d < length bs * B then blk_byte part info (bs ! (d div B)) (d mod B) else m x)"

lemma blk_okD:
  assumes "blk_ok info"
  shows "0 < unat (blk_size info)" "unat (blk_size info) \<le> 4096" "blk_size info \<noteq> 0"
    "1024 * unat (blk_size info div 1024) = unat (blk_size info)" "unat (blk_size info div 4) = unat (blk_size info) div 4"
    "0 < unat (blk_size info) div 4" "4 * (unat (blk_size info) div 4) = unat (blk_size info)" "even (blk_size info)"
proof -
  show "even (blk_size info)"
    using assms even_of_nat_iff [of "unat (blk_size info)", where 'a = u32] by (auto simp: blk_ok_def)
qed (use assms in \<open>auto simp: blk_ok_def unat_div_distrib\<close>)

lemma with_blocks_Nil [simp]: "with_blocks part info m a [] = m"
  by (simp add: with_blocks_def fun_eq_iff)

lemma unat_diff_split:
  fixes x a :: u32
  assumes "n \<le> 2 ^ 32" "n \<le> unat (x - a)"
  shows "unat (x - (a + of_nat n)) = unat (x - a) - n"
proof (cases "n < 2 ^ 32")
  case True
  then have n: "unat (of_nat n :: u32) = n" by (simp add: unat_of_nat_small)
  then have "of_nat n \<le> x - a" using assms(2) by (simp add: word_le_nat_alt)
  then show ?thesis using n by (simp add: unat_sub diff_diff_eq [symmetric])
next
  case False
  then show ?thesis using assms(2) unat_u32_lt [of "x - a"] by simp
qed

lemma unat_diff_wrap:
  fixes x a :: u32
  assumes "n + k \<le> 2 ^ 32" "unat (x - a) < n"
  shows "k \<le> unat (x - (a + of_nat n))"
proof -
  define d where "d = x - a"
  have n: "unat (of_nat n :: u32) = n \<or> k = 0" using assms(1) by (cases "n < 2 ^ 32") (simp_all add: unat_of_nat_small)
  have "x - (a + of_nat n) = d - of_nat n" by (simp add: d_def)
  moreover have "k \<le> unat (d - of_nat n)" if "unat (of_nat n :: u32) = n"
  proof -
    have lt: "unat d < n" using assms(2) by (simp add: d_def)
    have "unat (d - of_nat n) = unat d + 2 ^ 32 - n" using lt that by (simp add: unat_sub_if')
    then show ?thesis using assms(1) lt by simp
  qed
  ultimately show ?thesis using n by (simp only: d_def) auto
qed

lemma with_blocks_app:
  assumes "blk_ok info" "(length bs + length cs) * unat (blk_size info) \<le> 2 ^ 32"
  shows "with_blocks part info (with_blocks part info m a bs) (a + of_nat (length bs * unat (blk_size info))) cs =
    with_blocks part info m a (bs @ cs)"
proof
  fix x
  define B where "B = unat (blk_size info)"
  define n where "n = length bs * B"
  have B: "0 < B" using blk_okD [OF assms(1)] by (simp add: B_def)
  have sz: "n + length cs * B \<le> 2 ^ 32" using assms(2) by (simp add: n_def B_def algebra_simps)
  show "with_blocks part info (with_blocks part info m a bs) (a + of_nat (length bs * unat (blk_size info))) cs x =
    with_blocks part info m a (bs @ cs) x"
    unfolding B_def [symmetric] n_def [symmetric]
  proof (cases "unat (x - a) < n")
    case True
    then have "length cs * B \<le> unat (x - (a + of_nat n))" using unat_diff_wrap [OF sz] by blast
    moreover have "unat (x - a) div B < length bs" using True B by (simp add: n_def div_less_iff_less_mult)
    ultimately show "with_blocks part info (with_blocks part info m a bs) (a + of_nat n) cs x = with_blocks part info m a (bs @ cs) x"
      using True by (simp add: with_blocks_def Let_def B_def [symmetric] n_def nth_append algebra_simps)
  next
    case False
    then have df: "unat (x - (a + of_nat n)) = unat (x - a) - n" using unat_diff_split [of n x a] sz by simp
    obtain e where e: "unat (x - a) = n + e" using False by (metis le_Suc_ex linorder_not_less)
    have "(unat (x - a) - n) mod B = unat (x - a) mod B" by (simp add: e n_def)
    moreover have "(unat (x - a) - n) div B = unat (x - a) div B - length bs" using B by (simp add: e n_def)
    ultimately show "with_blocks part info (with_blocks part info m a bs) (a + of_nat n) cs x = with_blocks part info m a (bs @ cs) x"
      using False df B
      by (auto simp: with_blocks_def Let_def B_def [symmetric] n_def nth_append algebra_simps div_less_iff_less_mult)
  qed
qed


lemma ld32_eqI: "(\<And>i. i < 4 \<Longrightarrow> m (a + of_nat i) = m' (a' + of_nat i)) \<Longrightarrow> ld32 m a = ld32 m' a'"
proof -
  assume e: "\<And>i. i < 4 \<Longrightarrow> m (a + of_nat i) = m' (a' + of_nat i)"
  then show ?thesis using e [of 0] e [of 1] e [of 2] e [of 3] by (simp add: ld32_def)
qed

text \<open>An index block that has been read to \<open>a\<close>.\<close>

definition holds_index :: "(u32 \<Rightarrow> nat \<Rightarrow> u8) \<Rightarrow> ext2_info \<Rightarrow> mem \<Rightarrow> u32 \<Rightarrow> u32 \<Rightarrow> bool" where
  "holds_index part info m a b \<longleftrightarrow> (\<forall>j<unat (blk_size info). m (a + of_nat j) = blk_byte part info b j)"

lemma holds_index_ld:
  assumes "blk_ok info" "holds_index part info m a b" "k < unat (blk_size info) div 4"
  shows "ld32 m (a + 4 * of_nat k) = idx_of part info b k"
  unfolding idx_of_def
proof (rule ld32_eqI)
  fix i :: nat assume i: "i < 4"
  have lt: "4 * k + i < unat (blk_size info)" using assms(3) i by linarith
  have "unat (4 * of_nat k + of_nat i :: u32) = 4 * k + i"
  proof -
    have "(4 * of_nat k + of_nat i :: u32) = of_nat (4 * k + i)" by simp
    moreover have "4 * k + i < 4096" using lt blk_okD(2) [OF assms(1)] by linarith
    ultimately show ?thesis using unat_of_nat_small [of "4 * k + i", where ?'a = 32] by simp
  qed
  moreover have "m (a + of_nat (4 * k + i)) = blk_byte part info b (4 * k + i)"
    using assms(2) lt unfolding holds_index_def by blast
  ultimately show "m (a + 4 * of_nat k + of_nat i) = blk_byte part info b (unat (4 * of_nat k + of_nat i :: u32))"
    by (simp add: add.assoc)
qed

section \<open>The driver\<close>

locale block_dev =
  fixes dread :: "u32 \<Rightarrow> u32 \<Rightarrow> u32 \<Rightarrow> mem \<Rightarrow> mem" and part :: "u32 \<Rightarrow> nat \<Rightarrow> u8"
  assumes dread: "0 < n \<Longrightarrow> 1024 * unat n \<le> 4096 \<Longrightarrow> even buff \<Longrightarrow>
    dread addr buff n m x = (if unat (x - buff) < 1024 * unat n then part addr (unat (x - buff)) else m x)"
begin

lemma load_block:
  assumes "blk_ok info" "even buff"
  shows "ext2_load_block dread info b buff s = s\<lparr>ram := with_blocks part info (ram s) buff [b]\<rparr>"
proof -
  note B = blk_okD [OF assms(1)]
  have "0 < blk_size info div 1024" using B(1,4) by (simp add: word_less_nat_alt)
  then have "dread (b * blk_size info div 1024) buff (blk_size info div 1024) (ram s) = with_blocks part info (ram s) buff [b]"
    using B assms(2) by (auto simp: fun_eq_iff dread with_blocks_def Let_def blk_byte_def blk_pos_def)
  then show ?thesis by (simp add: ext2_load_block_def LOGIC_BLOCK_SIZE_def)
qed

lemma load_index:
  assumes "blk_ok info"
  shows "holds_index part info (with_blocks part info m a [b]) a b"
  using blk_okD [OF assms] unat_u32_lt
  by (auto simp: holds_index_def with_blocks_def Let_def unat_of_nat_small)

text \<open>The blocks named by an index, one after the other.\<close>

lemma ind_loop_ok:
  assumes ok: "blk_ok info"
  shows "holds_index part info (ram s) idx b \<Longrightarrow> i + n \<le> unat (blk_size info) div 4 \<Longrightarrow>
    (\<And>j. j < unat (blk_size info) \<Longrightarrow> (i + n) * unat (blk_size info) \<le> unat (idx + of_nat j - mem)) \<Longrightarrow>
    even mem \<Longrightarrow> ind_loop dread info idx mem i n s =
      s\<lparr>ram := with_blocks part info (ram s) (mem + of_nat (i * unat (blk_size info))) (map (idx_of part info b) [i..<i + n])\<rparr>"
proof (induction n arbitrary: i s)
  case 0
  then show ?case by simp
next
  case (Suc n)
  define B where "B = unat (blk_size info)"
  note D = blk_okD [OF ok]
  define a where "a = mem + of_nat (i * B)"
  define m1 where "m1 = with_blocks part info (ram s) a [idx_of part info b i]"
  have lt: "i < B div 4" using Suc.prems(2) by (simp add: B_def)
  have sz: "(i + Suc n) * B \<le> 2 ^ 32"
  proof -
    have "(i + Suc n) * B \<le> (B div 4) * B" using Suc.prems(2) unfolding B_def by (rule mult_le_mono1)
    also have "\<dots> \<le> 1024 * 4096" using D(2) by (intro mult_le_mono) (simp_all add: B_def)
    finally show ?thesis by simp
  qed
  have a': "mem + of_nat i * blk_size info = a" by (simp add: a_def B_def)
  have ev: "even a" using Suc.prems(4) blk_okD(8) [OF ok] by (simp add: a' [symmetric])
  have step: "ind_loop dread info idx mem i (Suc n) s = ind_loop dread info idx mem (i + 1) n (s\<lparr>ram := m1\<rparr>)"
    using holds_index_ld [OF ok Suc.prems(1) lt [unfolded B_def]] load_block [OF ok ev, of "idx_of part info b i" s]
    by (simp add: a' m1_def)
  have apart: "(i + 1) * B \<le> unat (idx + of_nat j - mem)" if "j < B" for j
  proof -
    have "(i + 1) * B \<le> (i + Suc n) * B" by (rule mult_le_mono1) simp
    then show ?thesis using Suc.prems(3) [OF that [unfolded B_def]] unfolding B_def by linarith
  qed
  have "holds_index part info m1 idx b"
    unfolding holds_index_def B_def [symmetric]
  proof (intro allI impI)
    fix j assume j: "j < B"
    have "i * B \<le> unat (idx + of_nat j - mem)" using apart [OF j] by simp
    then have "unat (idx + of_nat j - a) = unat (idx + of_nat j - mem) - i * B"
      unfolding a_def using sz by (intro unat_diff_split) (simp_all add: algebra_simps)
    then have "\<not> unat (idx + of_nat j - a) < B" using apart [OF j] by simp
    then show "m1 (idx + of_nat j) = blk_byte part info b j"
      using Suc.prems(1) j by (simp add: m1_def with_blocks_def Let_def B_def holds_index_def)
  qed
  then have e1: "ind_loop dread info idx mem (i + 1) n (s\<lparr>ram := m1\<rparr>) =
      s\<lparr>ram := with_blocks part info m1 (mem + of_nat ((i + 1) * B)) (map (idx_of part info b) [i + 1..<i + 1 + n])\<rparr>"
    using Suc.IH [of "s\<lparr>ram := m1\<rparr>" "i + 1"] Suc.prems(2-4) by (simp add: B_def)
  have e2: "mem + of_nat ((i + 1) * B) = a + of_nat (length [idx_of part info b i] * B)"
    by (simp add: a_def algebra_simps)
  have e3: "with_blocks part info m1 (a + of_nat (length [idx_of part info b i] * B)) (map (idx_of part info b) [i + 1..<i + 1 + n]) =
      with_blocks part info (ram s) a ([idx_of part info b i] @ map (idx_of part info b) [i + 1..<i + 1 + n])"
    unfolding m1_def B_def by (rule with_blocks_app [OF ok]) (use sz in \<open>simp add: B_def algebra_simps\<close>)
  have e4: "[idx_of part info b i] @ map (idx_of part info b) [i + 1..<i + 1 + n] = map (idx_of part info b) [i..<i + Suc n]"
    by (simp add: upt_conv_Cons del: upt_Suc)
  show ?case unfolding step e1 e2 e3 e4 by (simp only: a_def B_def)
qed

end

section \<open>Reading a file\<close>

text \<open>
  What the reading functions leave behind: the allocator as it was, the blocks \<open>bs\<close> at \<open>mem\<close>, and
  all other memory as it was - but for the free pages, which the index blocks passed through.
\<close>

definition did_read :: "(u32 \<Rightarrow> nat \<Rightarrow> u8) \<Rightarrow> ext2_info \<Rightarrow> (nat \<times> nat) set \<Rightarrow> nat set \<Rightarrow> u32 \<Rightarrow> u32 list \<Rightarrow> mmstate \<Rightarrow> mmstate \<Rightarrow> bool" where
  "did_read part info A F mem bs s s' \<longleftrightarrow> mem_ok s' A F \<and> same_map s s' \<and>
     (\<forall>x. unat x div 4096 \<notin> F \<longrightarrow> ram s' x = with_blocks part info (ram s) mem bs x)"

definition buff_ok :: "ext2_info \<Rightarrow> u32 \<Rightarrow> nat \<Rightarrow> nat set \<Rightarrow> bool" where
  "buff_ok info mem n F \<longleftrightarrow> even mem \<and> (\<forall>x. unat (x - mem) < n * unat (blk_size info) \<longrightarrow> unat x div 4096 \<notin> F)"

lemma buff_okD:
  assumes "buff_ok info mem n F" "unat x div 4096 \<in> F"
  shows "n * unat (blk_size info) \<le> unat (x - mem)"
  using assms by (meson buff_ok_def linorder_not_less)

lemma buff_ok_less: "buff_ok info mem n F \<Longrightarrow> k \<le> n \<Longrightarrow> G \<subseteq> F \<Longrightarrow> buff_ok info mem k G"
  unfolding buff_ok_def by (meson mult_le_mono1 order_less_le_trans subsetD)

lemma buff_ok_even: "buff_ok info mem n F \<Longrightarrow> even mem"
  by (simp add: buff_ok_def)

lemmas blk_ok_even = blk_okD(8)

lemma even_page: "even (of_nat (page2pa p) :: u32)"
  by (simp add: page2pa_def)

lemma buff_ok_shift:
  assumes "buff_ok info mem (k + n) F" "(k + n) * unat (blk_size info) \<le> 2 ^ 32" "blk_ok info"
  shows "buff_ok info (mem + of_nat (k * unat (blk_size info))) n F"
  unfolding buff_ok_def
proof (intro conjI allI impI notI)
  show "even (mem + of_nat (k * unat (blk_size info)))"
    using assms(1) blk_ok_even [OF assms(3)] by (simp add: buff_ok_def)
next
  fix x assume x: "unat (x - (mem + of_nat (k * unat (blk_size info)))) < n * unat (blk_size info)" "unat x div 4096 \<in> F"
  have "(k + n) * unat (blk_size info) \<le> unat (x - mem)" by (rule buff_okD [OF assms(1) x(2)])
  moreover from this have "unat (x - (mem + of_nat (k * unat (blk_size info)))) = unat (x - mem) - k * unat (blk_size info)"
    using assms(2) by (intro unat_diff_split) (simp_all add: algebra_simps)
  ultimately show False using x(1) by (simp add: algebra_simps)
qed

lemma page_bytes:
  assumes "p < 2 ^ 20" "j < 4096"
  shows "unat (of_nat (page2pa p) + of_nat j :: u32) div 4096 = p"
proof -
  have "page2pa p + j < 2 ^ 32" using assms by (simp add: page2pa_def)
  then have "unat (of_nat (page2pa p + j) :: u32) = page2pa p + j" by (intro unat_of_nat_small) simp
  then show ?thesis using assms(2) by (simp add: page2pa_def)
qed

lemma in_page:
  fixes x :: u32
  assumes "p < 2 ^ 20" "unat (x - of_nat (page2pa p)) < 4096"
  shows "unat x div 4096 = p"
proof -
  have "x = of_nat (page2pa p) + of_nat (unat (x - of_nat (page2pa p)))" by simp
  then show ?thesis using page_bytes [OF assms] by metis
qed

lemma index_page_ok:
  assumes "mem_ok s A F" "F \<inter> area_pages s MMAREA_NORMAL \<noteq> {}" "n_pages s \<le> 2 ^ 20"
  obtains p s1 where "index_page s = Inr (page2pa p, s1)" "mem_ok s1 (insert (p, 0) A) (F - {p})" "same_map s s1"
    "ram s1 = ram s" "p \<in> F" "p < 2 ^ 20" "p \<in> area_pages s MMAREA_NORMAL"
    "\<And>s2. mem_ok s2 (insert (p, 0) A) (F - {p}) \<Longrightarrow> same_map s s2 \<Longrightarrow>
       \<exists>s3. page_free (page2pa p) s2 = Inr s3 \<and> mem_ok s3 A F \<and> same_map s s3 \<and> ram s3 = ram s2"
proof -
  have a: "MMAREA_NORMAL < MMAREA_NUM" by (simp add: MMAREA_NORMAL_def MMAREA_NUM_def)
  obtain p s1 where p: "page_alloc 0 MMAREA_NORMAL False s = Inr (Some (page2pa p), s1)"
    "mem_ok s1 (insert (p, 0) A) (F - {p})" "p \<in> F" "p \<in> area_pages s MMAREA_NORMAL" "p \<notin> pages A"
    "same_map s s1" "ram s1 = ram s"
    using free_area [OF assms(1,2) a, where zero = False] by auto
  have pb: "p < 2 ^ 20" using area_below [OF assms(1) p(4) a] assms(3) by simp
  have "(p, 0) \<notin> A" using p(5) subsetD [OF block_pages in_block] by blast
  then have A: "insert (p, 0) A - {(p, 0)} = A" by simp
  have F: "F - {p} \<union> block p 0 = F" using p(3) by (auto simp: block_def)
  have free: "\<exists>s3. page_free (page2pa p) s2 = Inr s3 \<and> mem_ok s3 A F \<and> same_map s s3 \<and> ram s3 = ram s2"
    if "mem_ok s2 (insert (p, 0) A) (F - {p})" "same_map s s2" for s2
  proof -
    obtain L where L: "buddy_inv s2 L (insert (p, 0) A)" "F - {p} = pages (free_blocks L)"
      using \<open>mem_ok s2 _ _\<close> by (auto simp: mem_ok_def)
    obtain s3 L3 where s3: "page_free (page2pa p) s2 = Inr s3" "buddy_inv s3 L3 (insert (p, 0) A - {(p, 0)})"
        "pages (free_blocks L3) = pages (free_blocks L) \<union> block p 0" "same_map s2 s3"
      using page_free_ok [OF L(1), of p 0] by auto
    have "pages (free_blocks L3) = F" using s3(3) L(2) F by simp
    then have "mem_ok s3 A F" using s3(2) unfolding A mem_ok_def by blast
    then show ?thesis using s3(1,4) page_free_ram [OF s3(1)] same_map_trans [OF \<open>same_map s s2\<close> s3(4)] by blast
  qed
  show ?thesis
    by (rule that [of p s1]) (use p pb free in \<open>simp_all add: index_page_def\<close>)
qed

context block_dev begin

text \<open>One index block.\<close>

lemma readfile_ind_ok:
  fixes cnt mem :: u32
  assumes ok: "blk_ok info" and m: "mem_ok s A F" and room: "F \<inter> area_pages s MMAREA_NORMAL \<noteq> {}" "n_pages s \<le> 2 ^ 20"
  defines "k \<equiv> min (unat (blk_size info) div 4) (unat cnt)"
  assumes b: "buff_ok info mem k F"
  shows "\<exists>s'. ext2_readfile_ind dread info b cnt mem s = Inr (of_nat k, s') \<and>
    did_read part info A F mem (map (idx_of part info b) [0..<k]) s s'"
proof -
  note D = blk_okD [OF ok]
  obtain p s1 where p: "index_page s = Inr (page2pa p, s1)" "mem_ok s1 (insert (p, 0) A) (F - {p})" "same_map s s1"
    "ram s1 = ram s" "p \<in> F" "p < 2 ^ 20"
    "\<And>s2. mem_ok s2 (insert (p, 0) A) (F - {p}) \<Longrightarrow> same_map s s2 \<Longrightarrow>
       \<exists>s3. page_free (page2pa p) s2 = Inr s3 \<and> mem_ok s3 A F \<and> same_map s s3 \<and> ram s3 = ram s2"
    by (rule index_page_ok [OF m room]) blast
  define a :: u32 where "a = of_nat (page2pa p)"
  define m1 where "m1 = with_blocks part info (ram s1) a [b]"
  have k1: "unat (if blk_size info div 4 < cnt then blk_size info div 4 else cnt) = k"
    using D(5) by (auto simp: k_def word_less_nat_alt min_def)
  have k2: "(if blk_size info div 4 < cnt then blk_size info div 4 else cnt) = of_nat k"
    by (rule word_of_unat [OF k1])
  have hi: "holds_index part info m1 a b" unfolding m1_def by (rule load_index [OF ok])
  have apart: "(0 + k) * unat (blk_size info) \<le> unat (a + of_nat j - mem)" if "j < unat (blk_size info)" for j
  proof -
    have "unat (a + of_nat j) div 4096 = p" unfolding a_def using that D(2) by (intro page_bytes [OF p(6)]) simp
    then show ?thesis using buff_okD [OF b, of "a + of_nat j"] p(5) by simp
  qed
  define m2 where "m2 = with_blocks part info m1 mem (map (idx_of part info b) [0..<k])"
  have loop: "ind_loop dread info a mem 0 k (s1\<lparr>ram := m1\<rparr>) = s1\<lparr>ram := m2\<rparr>"
    using ind_loop_ok [OF ok, of "s1\<lparr>ram := m1\<rparr>" a b 0 k mem] hi apart buff_ok_even [OF b] by (simp add: k_def m2_def)
  obtain s3 where s3: "page_free (page2pa p) (s1\<lparr>ram := m2\<rparr>) = Inr s3" "mem_ok s3 A F" "same_map s s3" "ram s3 = m2"
    using p(7) [of "s1\<lparr>ram := m2\<rparr>"] p(2,3) by (auto simp: same_map_def)
  have "ext2_readfile_ind dread info b cnt mem s = Inr (of_nat k, s3)"
    using p(1) loop s3(1) unfolding ext2_readfile_ind_def
    by (simp add: load_block [OF ok even_page [of p], folded a_def] Let_def a_def [symmetric] m1_def [symmetric] k1) (use k2 in \<open>simp split: if_splits\<close>)
  moreover have "ram s3 x = with_blocks part info (ram s) mem (map (idx_of part info b) [0..<k]) x"
    if "unat x div 4096 \<notin> F" for x
  proof -
    have "\<not> unat (x - a) < unat (blk_size info)"
      using in_page [OF p(6), of x] that p(5) D(2) unfolding a_def by fastforce
    then have "m1 x = ram s x" by (simp add: m1_def with_blocks_def Let_def p(4))
    then show ?thesis by (simp add: s3(4) m2_def with_blocks_def Let_def)
  qed
  ultimately show ?thesis using s3(2,3) by (auto simp: did_read_def)
qed

end

lemma did_read_app:
  assumes "blk_ok info" "(length bs + length cs) * unat (blk_size info) \<le> 2 ^ 32"
    and "did_read part info A F mem bs s s1" "did_read part info A F (mem + of_nat (length bs * unat (blk_size info))) cs s1 s2"
  shows "did_read part info A F mem (bs @ cs) s s2"
proof -
  have "ram s2 x = with_blocks part info (ram s) mem (bs @ cs) x" if "unat x div 4096 \<notin> F" for x
  proof -
    have "ram s2 x = with_blocks part info (ram s1) (mem + of_nat (length bs * unat (blk_size info))) cs x"
      using assms(4) that by (simp add: did_read_def)
    also have "\<dots> = with_blocks part info (with_blocks part info (ram s) mem bs) (mem + of_nat (length bs * unat (blk_size info))) cs x"
      using assms(3) that by (simp add: did_read_def with_blocks_def [of _ _ _ "mem + _"] Let_def)
    finally show ?thesis by (simp only: with_blocks_app [OF assms(1,2)])
  qed
  then show ?thesis using assms(3,4) same_map_trans unfolding did_read_def by blast
qed

definition idx2_of :: "(u32 \<Rightarrow> nat \<Rightarrow> u8) \<Rightarrow> ext2_info \<Rightarrow> u32 \<Rightarrow> nat \<Rightarrow> u32" where
  "idx2_of part info b j =
     (let per = unat (blk_size info) div 4 in idx_of part info (idx_of part info b (j div per)) (j mod per))"

lemma idx2_row:
  assumes "k \<le> unat (blk_size info) div 4"
  shows "map (idx_of part info (idx_of part info b i)) [0..<k] =
    map (idx2_of part info b) [i * (unat (blk_size info) div 4)..<i * (unat (blk_size info) div 4) + k]"
  by (rule nth_equalityI) (use assms in \<open>auto simp: idx2_of_def Let_def\<close>)

lemma per_bound:
  assumes "blk_ok info" "n \<le> unat (blk_size info) div 4 * (unat (blk_size info) div 4)"
  shows "n * unat (blk_size info) \<le> 2 ^ 32"
proof -
  have "n * unat (blk_size info) \<le> (unat (blk_size info) div 4 * (unat (blk_size info) div 4)) * unat (blk_size info)"
    using assms(2) by (rule mult_le_mono1)
  also have "\<dots> \<le> (1024 * 1024) * 4096"
    using blk_okD(2) [OF assms(1)] by (intro mult_le_mono) simp_all
  finally show ?thesis by simp
qed

context block_dev begin

lemma dind_loop_ok:
  assumes ok: "blk_ok info" and p: "p < 2 ^ 20" "p \<notin> G"
  defines "per \<equiv> unat (blk_size info) div 4"
  shows "mem_ok s A G \<Longrightarrow> G \<inter> area_pages s MMAREA_NORMAL \<noteq> {} \<Longrightarrow> n_pages s \<le> 2 ^ 20 \<Longrightarrow>
    holds_index part info (ram s) (of_nat (page2pa p)) b \<Longrightarrow> i * per + unat cnt \<le> per * per \<Longrightarrow> unat cnt < fuel \<Longrightarrow>
    buff_ok info mem (unat cnt) (insert p G) \<Longrightarrow>
    \<exists>s' i'. dind_loop dread info fuel (of_nat (page2pa p)) cnt mem i s = Inr (i', s') \<and> i' \<le> per \<and>
      did_read part info A G mem (map (idx2_of part info b) [i * per..<i * per + unat cnt]) s s'"
proof (induction fuel arbitrary: s i cnt mem)
  case (Suc fuel)
  note D = blk_okD [OF ok]
  define B where "B = unat (blk_size info)"
  have per: "0 < per" "per \<le> 1024" using D(2,6) by (simp_all add: per_def)
  show ?case
  proof (cases "cnt = 0")
    case True
    have "i * per \<le> per * per" using Suc.prems(5) by linarith
    then have "i \<le> per" using per by simp
    then show ?thesis using True Suc.prems(1) by (simp add: did_read_def)
  next
    case False
    then have c0: "0 < unat cnt" by (simp add: unat_gt_0)
    then have "i * per < per * per" using Suc.prems(5) by linarith
    then have ip: "i < per" by simp
    define k where "k = min per (unat cnt)"
    have k: "0 < k" "k \<le> unat cnt" "k \<le> per" using c0 per by (simp_all add: k_def)
    have ld: "ld32 (ram s) (of_nat (page2pa p) + 4 * of_nat i) = idx_of part info b i"
      using holds_index_ld [OF ok Suc.prems(4)] ip by (simp add: per_def)
    have bk: "buff_ok info mem k G" by (rule buff_ok_less [OF Suc.prems(7)]) (use k in auto)
    obtain s1 where s1: "ext2_readfile_ind dread info (idx_of part info b i) cnt mem s = Inr (of_nat k, s1)"
      "did_read part info A G mem (map (idx_of part info (idx_of part info b i)) [0..<k]) s s1"
      using readfile_ind_ok [OF ok Suc.prems(1-3), of mem cnt "idx_of part info b i"] bk
      unfolding k_def per_def by blast
    have rd1: "did_read part info A G mem (map (idx2_of part info b) [i * per..<i * per + k]) s s1"
      using s1(2) idx2_row [of k info part b i] k(3) by (simp add: per_def)
    have ck: "unat (cnt - of_nat k) = unat cnt - k"
      using k(2) unat_u32_lt [of cnt] by (simp add: unat_sub word_le_nat_alt unat_of_nat_small)
    have hi: "holds_index part info (ram s1) (of_nat (page2pa p)) b"
      unfolding holds_index_def
    proof (intro allI impI)
      fix j assume j: "j < unat (blk_size info)"
      define x :: u32 where "x = of_nat (page2pa p) + of_nat j"
      have xp: "unat x div 4096 = p" unfolding x_def using j D(2) by (intro page_bytes [OF p(1)]) simp
      then have "unat cnt * unat (blk_size info) \<le> unat (x - mem)"
        using buff_okD [OF Suc.prems(7), of x] by simp
      moreover have "k * unat (blk_size info) \<le> unat cnt * unat (blk_size info)" using k(2) by (rule mult_le_mono1)
      ultimately have "\<not> unat (x - mem) < k * unat (blk_size info)" by linarith
      then have "ram s1 x = ram s x" using rd1 xp p(2) by (simp add: did_read_def with_blocks_def Let_def)
      then show "ram s1 (of_nat (page2pa p) + of_nat j) = blk_byte part info b j"
        using Suc.prems(4) j by (simp add: holds_index_def x_def)
    qed
    have s1ok: "mem_ok s1 A G" "same_map s s1" using s1(2) by (simp_all add: did_read_def)
    have s1r: "G \<inter> area_pages s1 MMAREA_NORMAL \<noteq> {}" "n_pages s1 \<le> 2 ^ 20"
      using Suc.prems(2,3) same_map_area(1) [OF s1ok(2)] s1ok(2) by (simp_all add: same_map_def)
    have mem': "mem + blk_size info div 4 * blk_size info = mem + of_nat (per * B)"
      using D(5) by (simp add: per_def B_def) (metis word_of_unat)
    show ?thesis
    proof (cases "unat cnt \<le> per")
      case True
      then have kc: "k = unat cnt" by (simp add: k_def)
      then have "cnt - of_nat k = 0" by simp
      then have "dind_loop dread info (Suc fuel) (of_nat (page2pa p)) cnt mem i s = Inr (i + 1, s1)"
        using False ld s1(1) Suc.prems(6) c0 by (cases fuel) simp_all
      then show ?thesis using rd1 ip kc by auto
    next
      case cp: False
      then have kp: "k = per" by (simp add: k_def)
      have le: "(i + 1) * per + unat (cnt - of_nat k) \<le> per * per" using Suc.prems(5) ck kp cp by simp
      have sz: "unat cnt * B \<le> 2 ^ 32"
        unfolding B_def by (rule per_bound [OF ok]) (use Suc.prems(5) in \<open>simp add: per_def\<close>)
      have "buff_ok info (mem + of_nat (per * B)) (unat (cnt - of_nat k)) (insert p G)"
        unfolding B_def by (rule buff_ok_shift) (use ok Suc.prems(7) ck kp cp sz in \<open>simp_all add: B_def\<close>)
      moreover have "unat (cnt - of_nat k) < fuel" using ck k Suc.prems(6) by simp
      ultimately obtain s' i' where s': "dind_loop dread info fuel (of_nat (page2pa p)) (cnt - of_nat k) (mem + of_nat (per * B)) (i + 1) s1 = Inr (i', s')"
        "i' \<le> per" "did_read part info A G (mem + of_nat (per * B))
           (map (idx2_of part info b) [(i + 1) * per..<(i + 1) * per + unat (cnt - of_nat k)]) s1 s'"
        using Suc.IH [OF s1ok(1) s1r hi le] by blast
      have "did_read part info A G mem (map (idx2_of part info b) [i * per..<i * per + k] @
          map (idx2_of part info b) [(i + 1) * per..<(i + 1) * per + unat (cnt - of_nat k)]) s s'"
        by (rule did_read_app [OF ok _ rd1]) (use s'(3) kp sz ck cp in \<open>simp_all add: B_def\<close>)
      moreover have "[i * per..<i * per + k] @ [(i + 1) * per..<(i + 1) * per + unat (cnt - of_nat k)] = [i * per..<i * per + unat cnt]"
        using ck kp cp upt_add_eq_append [of "i * per" "i * per + per" "unat cnt - per"] by (simp add: add.commute [of per])
      ultimately have "did_read part info A G mem (map (idx2_of part info b) [i * per..<i * per + unat cnt]) s s'"
        by (simp flip: map_append)
      moreover have "dind_loop dread info (Suc fuel) (of_nat (page2pa p)) cnt mem i s = Inr (i', s')"
        using False ld s1(1) s'(1) mem' by simp
      ultimately show ?thesis using s'(2) by blast
    qed
  qed
qed simp

end

text \<open>At least \<open>n\<close> pages for index blocks.\<close>

definition index_room :: "nat \<Rightarrow> mmstate \<Rightarrow> nat set \<Rightarrow> bool" where
  "index_room n s F \<longleftrightarrow> n \<le> card (F \<inter> area_pages s MMAREA_NORMAL) \<and> n_pages s \<le> 2 ^ 20"

lemma index_roomD: "index_room n s F \<Longrightarrow> 0 < n \<Longrightarrow> F \<inter> area_pages s MMAREA_NORMAL \<noteq> {} \<and> n_pages s \<le> 2 ^ 20"
  by (auto simp: index_room_def)

lemma index_room_same: "index_room n s F \<Longrightarrow> same_map s s' \<Longrightarrow> index_room n s' F"
proof -
  assume r: "index_room n s F" and sm: "same_map s s'"
  have "n_pages s' = n_pages s" using sm unfolding same_map_def by blast
  then show ?thesis using r unfolding index_room_def same_map_area(1) [OF sm] by simp
qed

lemma index_room_minus:
  assumes "index_room (Suc n) s F"
  shows "index_room n s (F - {p})"
proof -
  define X where "X = F \<inter> area_pages s MMAREA_NORMAL"
  have X: "Suc n \<le> card X" "n_pages s \<le> 2 ^ 20" using assms unfolding index_room_def X_def by blast+
  have "X - {p} = (F - {p}) \<inter> area_pages s MMAREA_NORMAL" unfolding X_def by blast
  moreover have "card X - 1 \<le> card (X - {p})" by (simp add: card_Diff_singleton_if)
  ultimately show ?thesis using X unfolding index_room_def by (simp flip: X_def)
qed

lemma bmap_parts:
  assumes "blk_ok info"
  defines "per \<equiv> unat (blk_size info) div 4"
  shows "k \<le> per \<Longrightarrow> map (idx_of part info (i_block inode ! 12)) [0..<k] = map (bmap part info inode) [12..<12 + k]"
    "map (idx2_of part info (i_block inode ! 13)) [0..<k] = map (bmap part info inode) [12 + per..<12 + per + k]"
proof -
  show "map (idx_of part info (i_block inode ! 12)) [0..<k] = map (bmap part info inode) [12..<12 + k]" if "k \<le> per"
    by (rule nth_equalityI) (use that in \<open>auto simp: bmap_def per_def\<close>)
  show "map (idx2_of part info (i_block inode ! 13)) [0..<k] = map (bmap part info inode) [12 + per..<12 + per + k]"
    by (rule nth_equalityI) (auto simp: bmap_def per_def idx2_of_def Let_def)
qed

context block_dev begin

lemma readfile_dind_ok:
  fixes cnt mem :: u32
  assumes ok: "blk_ok info" and m: "mem_ok s A F" and room: "index_room 2 s F"
    and cnt: "unat cnt \<le> unat (blk_size info) div 4 * (unat (blk_size info) div 4)" and fuel: "unat cnt < fuel"
    and b: "buff_ok info mem (unat cnt) F"
  shows "\<exists>s'. ext2_readfile_dind dread fuel info b cnt mem s = Inr (cnt, s') \<and>
    did_read part info A F mem (map (idx2_of part info b) [0..<unat cnt]) s s'"
proof -
  note D = blk_okD [OF ok]
  define per where "per = unat (blk_size info) div 4"
  have r2: "F \<inter> area_pages s MMAREA_NORMAL \<noteq> {}" "n_pages s \<le> 2 ^ 20" using index_roomD [OF room] by simp_all
  obtain p s1 where p: "index_page s = Inr (page2pa p, s1)" "mem_ok s1 (insert (p, 0) A) (F - {p})" "same_map s s1"
    "ram s1 = ram s" "p \<in> F" "p < 2 ^ 20"
    "\<And>s2. mem_ok s2 (insert (p, 0) A) (F - {p}) \<Longrightarrow> same_map s s2 \<Longrightarrow>
       \<exists>s3. page_free (page2pa p) s2 = Inr s3 \<and> mem_ok s3 A F \<and> same_map s s3 \<and> ram s3 = ram s2"
    by (rule index_page_ok [OF m r2]) blast
  define m1 where "m1 = with_blocks part info (ram s1) (of_nat (page2pa p)) [b]"
  define s2 where "s2 = s1\<lparr>ram := m1\<rparr>"
  have s2: "mem_ok s2 (insert (p, 0) A) (F - {p})" "same_map s s2"
    using p(2,3) by (simp_all add: s2_def same_map_def)
  have rm: "index_room 1 s2 (F - {p})"
    using index_room_same [OF index_room_minus [of 1 s F p] s2(2)] room by (simp add: numeral_2_eq_2)
  have hi: "holds_index part info (ram s2) (of_nat (page2pa p)) b" unfolding s2_def m1_def using load_index [OF ok] by simp
  have bp: "buff_ok info mem (unat cnt) (insert p (F - {p}))" using b p(5) by (simp add: insert_absorb)
  obtain s3 i where s3: "dind_loop dread info fuel (of_nat (page2pa p)) cnt mem 0 s2 = Inr (i, s3)" "i \<le> per"
    "did_read part info (insert (p, 0) A) (F - {p}) mem (map (idx2_of part info b) [0..<unat cnt]) s2 s3"
    using dind_loop_ok [OF ok p(6), of "F - {p}" s2 "insert (p, 0) A" b 0 cnt fuel mem] s2(1) index_roomD [OF rm] hi cnt fuel bp
    by (auto simp: per_def)
  obtain s4 where s4: "page_free (page2pa p) s3 = Inr s4" "mem_ok s4 A F" "same_map s s4" "ram s4 = ram s3"
    using p(7) [of s3] s3(3) same_map_trans [OF s2(2)] unfolding did_read_def by blast
  have pp: "unat (blk_size info div 4 * (blk_size info div 4)) = per * per"
  proof -
    have "per * per \<le> 1024 * 1024" using D(2) by (intro mult_le_mono) (simp_all add: per_def)
    then show ?thesis using D(5) by (simp add: unat_word_ariths per_def)
  qed
  then have "\<not> blk_size info div 4 * (blk_size info div 4) < cnt" using cnt by (simp add: word_less_nat_alt per_def)
  then have "ext2_readfile_dind dread fuel info b cnt mem s = Inr (cnt, s4)"
    using p(1) s3(1,2) s4(1) D(5)
    by (simp add: ext2_readfile_dind_def load_block [OF ok even_page] Let_def m1_def [symmetric] s2_def [symmetric] per_def)
  moreover have "ram s4 x = with_blocks part info (ram s) mem (map (idx2_of part info b) [0..<unat cnt]) x"
    if x: "unat x div 4096 \<notin> F" for x
  proof -
    have "\<not> unat (x - of_nat (page2pa p)) < unat (blk_size info)"
      using in_page [OF p(6), of x] x p(5) D(2) by fastforce
    then have "m1 x = ram s x" by (simp add: m1_def with_blocks_def Let_def p(4))
    moreover have "ram s4 x = with_blocks part info m1 mem (map (idx2_of part info b) [0..<unat cnt]) x"
      using s3(3) x s4(4) by (simp add: did_read_def s2_def)
    ultimately show ?thesis by (simp add: with_blocks_def Let_def)
  qed
  ultimately show ?thesis using s4(2,3) by (auto simp: did_read_def)
qed

text \<open>The loop over the block map from its entry \<open>i\<close> on, with \<open>n\<close> blocks to read.\<close>

lemma readfile_from_13:
  assumes "blk_ok info" "mem_ok s A F" "index_room 2 s F"
    and "0 < unat n" "unat n \<le> unat (blk_size info) div 4 * (unat (blk_size info) div 4)" "unat n < fuel"
    and "buff_ok info addr (unat n) F"
  shows "\<exists>s'. readfile_loop dread fuel info inode 2 n tmp addr s = Inr s' \<and>
    did_read part info A F addr (map (idx2_of part info (i_block inode ! 13)) [0..<unat n]) s s'"
proof -
  obtain s' where s': "ext2_readfile_dind dread fuel info (i_block inode ! 13) n addr s = Inr (n, s')"
    "did_read part info A F addr (map (idx2_of part info (i_block inode ! 13)) [0..<unat n]) s s'"
    using readfile_dind_ok [OF assms(1-3,5-7), of "i_block inode ! 13"] by blast
  have "readfile_loop dread fuel info inode (Suc 1) n tmp addr s = Inr s'"
    unfolding readfile_loop.simps
    by (simp add: Let_def EXT2_N_BLOCKS_def EXT2_IND_BLOCK_def EXT2_DIND_BLOCK_def s'(1))
  then show ?thesis using s'(2) by (simp add: numeral_2_eq_2)
qed

lemma readfile_from_12:
  assumes ok: "blk_ok info" and m: "mem_ok s A F" and room: "index_room 2 s F"
  defines "per \<equiv> unat (blk_size info) div 4"
  assumes n: "0 < unat n" "unat n \<le> per + per * per" "unat n < fuel" "unat n * unat (blk_size info) \<le> 2 ^ 32"
    and b: "buff_ok info addr (unat n) F"
  shows "\<exists>s'. readfile_loop dread fuel info inode 3 n tmp addr s = Inr s' \<and>
    did_read part info A F addr (map (bmap part info inode) [12..<12 + unat n]) s s'"
proof -
  define k where "k = min per (unat n)"
  have k: "k \<le> unat n" "k \<le> per" by (simp_all add: k_def)
  have "F \<inter> area_pages s MMAREA_NORMAL \<noteq> {}" "n_pages s \<le> 2 ^ 20" using index_roomD [OF room] by simp_all
  then obtain s1 where s1: "ext2_readfile_ind dread info (i_block inode ! 12) n addr s = Inr (of_nat k, s1)"
    "did_read part info A F addr (map (idx_of part info (i_block inode ! 12)) [0..<k]) s s1"
    using readfile_ind_ok [OF ok m, of addr n "i_block inode ! 12"] buff_ok_less [OF b k(1) order_refl]
    unfolding k_def per_def by blast
  have rd1: "did_read part info A F addr (map (bmap part info inode) [12..<12 + k]) s s1"
    using s1(2) bmap_parts(1) [OF ok, of k part inode] k(2) by (simp add: per_def)
  have step: "readfile_loop dread fuel info inode (Suc 2) n tmp addr s =
      (if n - of_nat k = 0 then Inr s1
       else readfile_loop dread fuel info inode 2 (n - of_nat k) (of_nat k) (addr + of_nat k * blk_size info) s1)"
    unfolding readfile_loop.simps(2)
    by (simp add: Let_def EXT2_N_BLOCKS_def EXT2_IND_BLOCK_def EXT2_DIND_BLOCK_def s1(1))
  have nk: "unat (n - of_nat k) = unat n - k"
    using k(1) unat_u32_lt [of n] by (simp add: unat_sub word_le_nat_alt unat_of_nat_small)
  show ?thesis
  proof (cases "unat n \<le> per")
    case True
    then have kn: "k = unat n" by (simp add: k_def)
    then show ?thesis using rd1 step by (simp add: numeral_3_eq_3 numeral_2_eq_2)
  next
    case False
    then have kp: "k = per" by (simp add: k_def)
    have nz: "n - of_nat k \<noteq> 0" using nk False kp by auto
    have s1ok: "mem_ok s1 A F" "index_room 2 s1 F"
      using rd1 index_room_same [OF room] by (simp_all add: did_read_def)
    have a': "addr + of_nat k * blk_size info = addr + of_nat (k * unat (blk_size info))" by simp
    have bb: "buff_ok info (addr + of_nat (k * unat (blk_size info))) (unat (n - of_nat k)) F"
      by (rule buff_ok_shift) (use ok b n(4) nk k(1) in simp_all)
    have "0 < unat (n - of_nat k)" "unat (n - of_nat k) \<le> unat (blk_size info) div 4 * (unat (blk_size info) div 4)"
      "unat (n - of_nat k) < fuel"
      unfolding per_def [symmetric] nk unfolding kp using False n(2,3) by linarith+
    then obtain s' where s': "readfile_loop dread fuel info inode 2 (n - of_nat k) (of_nat k) (addr + of_nat (k * unat (blk_size info))) s1 = Inr s'"
      "did_read part info A F (addr + of_nat (k * unat (blk_size info)))
         (map (idx2_of part info (i_block inode ! 13)) [0..<unat (n - of_nat k)]) s1 s'"
      using readfile_from_13 [OF ok s1ok, of "n - of_nat k" fuel "addr + of_nat (k * unat (blk_size info))" inode "of_nat k"]
        bb by blast
    have r: "did_read part info A F addr (map (bmap part info inode) [12..<12 + k] @
        map (bmap part info inode) [12 + per..<12 + per + unat (n - of_nat k)]) s s'"
      by (rule did_read_app [OF ok _ rd1])
        (use s'(2) bmap_parts(2) [OF ok, of part inode "unat (n - of_nat k)"] n(4) nk k(1) in \<open>simp_all add: per_def\<close>)
    have e: "[12..<12 + k] @ [12 + per..<12 + per + unat (n - of_nat k)] = [12..<12 + unat n]"
      using upt_add_eq_append [of 12 "12 + per" "unat n - per"] nk kp False by simp
    have "readfile_loop dread fuel info inode 3 n tmp addr s = Inr s'"
      using step s'(1) unfolding a' if_not_P [OF nz] by (simp only: numeral_3_eq_3 numeral_2_eq_2)
    then show ?thesis using r [unfolded map_append [symmetric] e] by blast
  qed
qed

lemma readfile_from:
  assumes ok: "blk_ok info"
  defines "per \<equiv> unat (blk_size info) div 4"
  shows "i + j = 12 \<Longrightarrow> mem_ok s A F \<Longrightarrow> index_room 2 s F \<Longrightarrow> 0 < unat n \<Longrightarrow> i + unat n \<le> 12 + per + per * per \<Longrightarrow>
    unat n < fuel \<Longrightarrow> unat n * unat (blk_size info) \<le> 2 ^ 32 \<Longrightarrow> buff_ok info addr (unat n) F \<Longrightarrow>
    \<exists>s'. readfile_loop dread fuel info inode (3 + j) n tmp addr s = Inr s' \<and>
      did_read part info A F addr (map (bmap part info inode) [i..<i + unat n]) s s'"
proof (induction j arbitrary: i n tmp addr s)
  case 0
  then show ?case using readfile_from_12 [OF ok, of s A F n fuel addr inode tmp] by (simp add: per_def)
next
  case (Suc j)
  have i: "i < 12" "15 - Suc (3 + j) = i" using Suc.prems(1) by simp_all
  define s1 where "s1 = ext2_load_block dread info (i_block inode ! i) addr s"
  have bm: "bmap part info inode i = i_block inode ! i" using i by (simp add: bmap_def Let_def)
  have rd1: "did_read part info A F addr (map (bmap part info inode) [i..<i + 1]) s s1"
    using Suc.prems(2) by (simp add: s1_def load_block [OF ok buff_ok_even [OF Suc.prems(8)]] did_read_def bm same_map_def)
  have step: "readfile_loop dread fuel info inode (Suc (3 + j)) n tmp addr s =
      (if n - 1 = 0 then Inr s1 else readfile_loop dread fuel info inode (3 + j) (n - 1) 1 (addr + blk_size info) s1)"
    unfolding readfile_loop.simps(2) Let_def EXT2_N_BLOCKS_def i(2)
    using i(1) by (simp add: EXT2_IND_BLOCK_def s1_def)
  show ?case
  proof (cases "n = 1")
    case True
    then show ?thesis using rd1 step by simp
  next
    case False
    have n1: "unat (n - 1) = unat n - 1" using Suc.prems(4) by (simp add: unat_sub word_le_nat_alt)
    have "unat n \<noteq> 1" using False by (metis unat_1 word_unat_eq_iff)
    then have n2: "0 < unat (n - 1)" "n - 1 \<noteq> 0" using n1 Suc.prems(4) by (auto simp: unat_eq_0 [symmetric])
    have s1ok: "mem_ok s1 A F" "index_room 2 s1 F"
      using rd1 index_room_same [OF Suc.prems(3)] by (simp_all add: did_read_def)
    have a': "addr + blk_size info = addr + of_nat (1 * unat (blk_size info))" by simp
    have bb: "buff_ok info (addr + of_nat (1 * unat (blk_size info))) (unat (n - 1)) F"
      by (rule buff_ok_shift) (use ok Suc.prems n1 in simp_all)
    have h: "(i + 1) + j = 12" "(i + 1) + unat (n - 1) \<le> 12 + per + per * per" "unat (n - 1) < fuel"
      using Suc.prems(1,5,6) n1 n2(1) by linarith+
    have "unat (n - 1) * unat (blk_size info) \<le> unat n * unat (blk_size info)" unfolding n1 by (rule mult_le_mono1) simp
    then have h4: "unat (n - 1) * unat (blk_size info) \<le> 2 ^ 32" using Suc.prems(7) by (rule le_trans)
    obtain s' where s': "readfile_loop dread fuel info inode (3 + j) (n - 1) 1 (addr + of_nat (1 * unat (blk_size info))) s1 = Inr s'"
      "did_read part info A F (addr + of_nat (1 * unat (blk_size info)))
         (map (bmap part info inode) [i + 1..<i + 1 + unat (n - 1)]) s1 s'"
      using Suc.IH [OF h(1) s1ok n2(1) h(2,3) h4 bb] by blast
    have r: "did_read part info A F addr (map (bmap part info inode) [i..<i + 1] @
        map (bmap part info inode) [i + 1..<i + 1 + unat (n - 1)]) s s'"
      by (rule did_read_app [OF ok _ rd1]) (use s'(2) Suc.prems(4,7) n1 in simp_all)
    have e: "[i..<i + 1] @ [i + 1..<i + 1 + unat (n - 1)] = [i..<i + unat n]"
      using upt_add_eq_append [of i "i + 1" "unat n - 1"] n1 Suc.prems(4) by simp
    show ?thesis using r [unfolded map_append [symmetric] e] s'(1) step n2(2) unfolding a' by auto
  qed
qed

end

text \<open>A file of at least one byte, as far as the double indirect blocks reach.\<close>

definition n_blocks :: "ext2_info \<Rightarrow> fs_inode \<Rightarrow> nat" where
  "n_blocks info inode = (unat (i_size inode) + unat (blk_size info) - 1) div unat (blk_size info)"

lemma n_blocks_word:
  assumes "blk_ok info" "0 < i_size inode" "unat (i_size inode) + unat (blk_size info) \<le> 2 ^ 32"
  shows "unat ((i_size inode + blk_size info - 1) div blk_size info) = n_blocks info inode"
    "0 < n_blocks info inode" "n_blocks info inode * unat (blk_size info) \<le> 2 ^ 32"
proof -
  define B where "B = unat (blk_size info)"
  have B: "0 < B" using blk_okD [OF assms(1)] by (simp add: B_def)
  have z: "0 < unat (i_size inode)" using assms(2) by (simp add: unat_gt_0 word_neq_0_conv)
  have "i_size inode + blk_size info - 1 = of_nat (unat (i_size inode) + B - 1)"
    using B z by (simp add: B_def of_nat_diff)
  moreover have "unat (of_nat (unat (i_size inode) + B - 1) :: u32) = unat (i_size inode) + B - 1"
    by (intro unat_of_nat_small) (use assms(3) B in \<open>simp add: B_def\<close>)
  ultimately have "unat (i_size inode + blk_size info - 1) = unat (i_size inode) + B - 1" by simp
  then show "unat ((i_size inode + blk_size info - 1) div blk_size info) = n_blocks info inode"
    by (simp add: unat_div_distrib n_blocks_def B_def)
  show "0 < n_blocks info inode" using z B by (simp add: n_blocks_def B_def [symmetric] div_greater_zero_iff)
  have "n_blocks info inode * B \<le> unat (i_size inode) + B - 1" by (simp add: n_blocks_def B_def)
  then show "n_blocks info inode * unat (blk_size info) \<le> 2 ^ 32" using assms(3) by (simp add: B_def)
qed

text \<open>What the inode and the memory must be like for the file to be read to \<open>mem\<close>.\<close>

definition readable :: "ext2_info \<Rightarrow> fs_inode \<Rightarrow> u32 \<Rightarrow> nat set \<Rightarrow> mmstate \<Rightarrow> bool" where
  "readable info inode mem F s \<longleftrightarrow>
     blk_ok info \<and> 0 < i_size inode \<and> unat (i_size inode) + unat (blk_size info) \<le> 2 ^ 32 \<and>
     (let per = unat (blk_size info) div 4 in n_blocks info inode \<le> 12 + per + per * per) \<and>
     index_room 2 s F \<and> buff_ok info mem (n_blocks info inode) F"

context block_dev begin

lemma readfile_ok:
  assumes "mem_ok s A F" "readable info inode mem F s" "n_blocks info inode < fuel"
  shows "\<exists>s'. ext2_readfile dread fuel info inode mem s = Inr (0, s') \<and>
    did_read part info A F mem (map (bmap part info inode) [0..<n_blocks info inode]) s s'"
proof -
  have r: "blk_ok info" "0 < i_size inode" "unat (i_size inode) + unat (blk_size info) \<le> 2 ^ 32"
    "n_blocks info inode \<le> 12 + unat (blk_size info) div 4 + unat (blk_size info) div 4 * (unat (blk_size info) div 4)"
    "index_room 2 s F" "buff_ok info mem (n_blocks info inode) F"
    using assms(2) by (auto simp: readable_def Let_def)
  note nb = n_blocks_word [OF r(1-3)]
  define n where "n = (i_size inode + blk_size info - 1) div blk_size info"
  have n: "unat n = n_blocks info inode" by (simp add: n_def nb(1))
  obtain s' where s': "readfile_loop dread fuel info inode (3 + 12) n 0 mem s = Inr s'"
    "did_read part info A F mem (map (bmap part info inode) [0..<0 + unat n]) s s'"
    using readfile_from [OF r(1), of 0 12 s A F n fuel mem inode 0] assms(1,3) r(4-6) nb(2,3) n by auto
  have "ext2_readfile dread fuel info inode mem s = Inr (0, s')"
    using s'(1) blk_okD(3) [OF r(1)] unfolding ext2_readfile_def n_def [symmetric] Let_def
    by (simp add: EXT2_N_BLOCKS_def)
  then show ?thesis using s'(2) n by simp
qed

end

section \<open>The mounted file system\<close>

text \<open>The block \<open>b\<close> of the partition, as memory from address 0 on, and memory that holds it at \<open>a\<close>.\<close>

definition dblk :: "(u32 \<Rightarrow> nat \<Rightarrow> u8) \<Rightarrow> u32 \<Rightarrow> mem" where
  "dblk part b x = part b (unat x)"

definition holds_blk :: "(u32 \<Rightarrow> nat \<Rightarrow> u8) \<Rightarrow> mem \<Rightarrow> u32 \<Rightarrow> u32 \<Rightarrow> bool" where
  "holds_blk part m a b \<longleftrightarrow> (\<forall>j<1024. m (a + of_nat j) = dblk part b (of_nat j))"

text \<open>The inode of an index, on a file system with blocks of 1K.\<close>

definition disk_inode :: "(u32 \<Rightarrow> nat \<Rightarrow> u8) \<Rightarrow> u32 \<Rightarrow> fs_inode" where
  "disk_inode part idx =
     (let per_grp = sb_inodes_per_group (dblk part 1) 0;
          k = (idx - 1) mod per_grp;
          table = bg_inode_table (dblk part 2) (32 * ((idx - 1) div per_grp))
      in load_inode (dblk part ((table + k div 8) * 1024 div 1024)) (128 * (k mod 8)))"

definition super_ok :: "(u32 \<Rightarrow> nat \<Rightarrow> u8) \<Rightarrow> bool" where
  "super_ok part \<longleftrightarrow> sb_magic (dblk part 1) 0 = EXT2_MAGICNUM \<and> sb_inode_size (dblk part 1) 0 = sizeof_ext2_inode"

text \<open>The state that \<^verbatim>\<open>ext2_mount\<close> sets up, with the super block and the group descriptors in the page at \<open>a\<close>.\<close>

definition mounted :: "(u32 \<Rightarrow> nat \<Rightarrow> u8) \<Rightarrow> nat \<Rightarrow> ext2_info \<Rightarrow> mem \<Rightarrow> bool" where
  "mounted part a info m \<longleftrightarrow> even (of_nat a :: u32) \<and>
     fsparam info = a \<and> e_sb info = of_nat a \<and> grp_desc info = of_nat a + 1024 \<and>
     fsblock_buff01 info = of_nat a + 2048 \<and> fsblock_buff02 info = of_nat a + 3072 \<and>
     blk_size info = 1024 \<and> inode_per_block info = 8 \<and> sb_inodes_per_group (dblk part 1) 0 \<noteq> 0 \<and>
     holds_blk part m (of_nat a) 1 \<and> holds_blk part m (of_nat a + 1024) 2"

lemma ld16_eqI: "(\<And>i. i < 2 \<Longrightarrow> m (a + of_nat i) = m' (a' + of_nat i)) \<Longrightarrow> ld16 m a = ld16 m' a'"
proof -
  assume e: "\<And>i. i < 2 \<Longrightarrow> m (a + of_nat i) = m' (a' + of_nat i)"
  then show ?thesis using e [of 0] e [of 1] by (simp add: ld16_def)
qed

lemma ld_at:
  assumes "\<And>j. j < n \<Longrightarrow> m (a + of_nat j) = m' (a' + of_nat j)"
  shows "k + 2 \<le> n \<Longrightarrow> ld16 m (a + of_nat k) = ld16 m' (a' + of_nat k)"
    "k + 4 \<le> n \<Longrightarrow> ld32 m (a + of_nat k) = ld32 m' (a' + of_nat k)"
proof -
  have e: "m (a + of_nat k + of_nat i) = m' (a' + of_nat k + of_nat i)" if "k + i < n" for i
    using assms [OF that] by (simp add: add.assoc)
  show "k + 2 \<le> n \<Longrightarrow> ld16 m (a + of_nat k) = ld16 m' (a' + of_nat k)" by (rule ld16_eqI) (rule e, simp)
  show "k + 4 \<le> n \<Longrightarrow> ld32 m (a + of_nat k) = ld32 m' (a' + of_nat k)" by (rule ld32_eqI) (rule e, simp)
qed

lemma load_inode_eqI:
  assumes e: "\<And>j. j < 128 \<Longrightarrow> m (a + of_nat j) = m' (a' + of_nat j)"
  shows "load_inode m a = load_inode m' a'"
proof -
  note l16 = ld_at(1) [where n = 128 and m = m and a = a and m' = m' and a' = a', OF e]
    and l32 = ld_at(2) [where n = 128 and m = m and a = a and m' = m' and a' = a', OF e]
  have "ld32 m (a + 40 + 4 * of_nat k) = ld32 m' (a' + 40 + 4 * of_nat k)" if "k < 15" for k
    using l32 [of "40 + 4 * k"] that by (simp add: add.assoc)
  then show ?thesis
    using l16 [of 0] l16 [of 2] l32 [of 4] l32 [of 8] l32 [of 12] l32 [of 16] l16 [of 24] l32 [of 28]
    by (simp add: load_inode_def EXT2_N_BLOCKS_def)
qed

lemma holds_blk_ld:
  assumes "holds_blk part m a b"
  shows "k + 2 \<le> 1024 \<Longrightarrow> ld16 m (a + of_nat k) = ld16 (dblk part b) (of_nat k)"
    "k + 4 \<le> 1024 \<Longrightarrow> ld32 m (a + of_nat k) = ld32 (dblk part b) (of_nat k)"
  using ld_at [of 1024 m a "dblk part b" 0 k] assms by (simp_all add: holds_blk_def)

text \<open>A block of 1K read to \<open>c\<close> is there, and one next to it is not touched.\<close>

definition put_blk :: "(u32 \<Rightarrow> nat \<Rightarrow> u8) \<Rightarrow> u32 \<Rightarrow> u32 \<Rightarrow> mem \<Rightarrow> mem" where
  "put_blk part c b m x = (if unat (x - c) < 1024 then part b (unat (x - c)) else m x)"

lemma put_blk_holds: "holds_blk part (put_blk part c b m) c b"
  by (simp add: holds_blk_def put_blk_def dblk_def unat_of_nat_small)

lemma put_blk_keeps:
  assumes "holds_blk part m a b'" "1024 \<le> unat (c - a)" "1024 \<le> unat (a - c)"
  shows "holds_blk part (put_blk part c b m) a b'"
proof -
  have "\<not> unat (a + of_nat j - c) < 1024" if j: "j < 1024" for j :: nat
  proof
    assume lt: "unat (a + of_nat j - c) < 1024"
    have j': "unat (of_nat j :: u32) = j" using j by (simp add: unat_of_nat_small)
    have "unat (a - c) + j < 2 ^ 32 \<or> 2 ^ 32 \<le> unat (a - c) + j" by linarith
    then show False
    proof
      assume "unat (a - c) + j < 2 ^ 32"
      then have "unat ((a - c) + of_nat j) = unat (a - c) + j" using unat_add_no_wrap [of "a - c" "of_nat j"] j' by simp
      then show False using lt assms(3) by (simp add: algebra_simps)
    next
      assume w: "2 ^ 32 \<le> unat (a - c) + j"
      have "a - c \<noteq> 0" using assms(3) by auto
      then have "unat (c - a) = 2 ^ 32 - unat (a - c)"
        using unat_sub_if' [of 0 "a - c"] by (auto simp: unat_eq_0)
      then show False using w j assms(2) by simp
    qed
  qed
  then show ?thesis using assms(1) by (simp add: holds_blk_def put_blk_def)
qed

context block_dev begin

lemma dread_blk: "even c \<Longrightarrow> dread b c 1 m = put_blk part c b m"
  by (simp add: fun_eq_iff dread put_blk_def)

lemma get_inode_ok:
  assumes m: "mounted part a info (ram s)" and g: "unat ((idx - 1) div sb_inodes_per_group (dblk part 1) 0) < 32"
  shows "\<exists>b. ext2_get_inode dread info idx s = Inr (disk_inode part idx, s\<lparr>ram := put_blk part (of_nat a + 3072) b (ram s)\<rparr>)"
    "mounted part a info (put_blk part (of_nat a + 3072) b (ram s))"
proof -
  note M = m [unfolded mounted_def]
  define A :: u32 where "A = of_nat a"
  define pg where "pg = sb_inodes_per_group (dblk part 1) 0"
  have pg: "sb_inodes_per_group (ram s) (e_sb info) = pg" "pg \<noteq> 0"
    using M holds_blk_ld(2) [of part "ram s" A 1 40] by (simp_all add: sb_inodes_per_group_def pg_def A_def)
  define k where "k = (idx - 1) mod pg"
  define gi where "gi = unat ((idx - 1) div pg)"
  have gi: "gi < 32" "(idx - 1) div pg = of_nat gi" using g by (simp_all add: gi_def pg_def)
  have "ld32 (ram s) (A + 1024 + of_nat (32 * gi + 8)) = ld32 (dblk part 2) (of_nat (32 * gi + 8))"
    using M gi(1) by (intro holds_blk_ld(2)) (simp_all add: A_def)
  then have t: "bg_inode_table (ram s) (grp_desc info + sizeof_group_desc * ((idx - 1) div pg)) =
      bg_inode_table (dblk part 2) (32 * ((idx - 1) div pg))"
    using M by (simp add: bg_inode_table_def sizeof_group_desc_def A_def gi(2) algebra_simps)
  define b where "b = bg_inode_table (dblk part 2) (32 * ((idx - 1) div pg)) + k div 8"
  define s' where "s' = s\<lparr>ram := put_blk part (A + 3072) b (ram s)\<rparr>"
  have M': "e_sb info = A" "grp_desc info = A + 1024" "fsblock_buff02 info = A + 3072" "blk_size info = 1024"
    "inode_per_block info = 8" "even A"
    using M by (simp_all add: A_def)
  have load: "ext2_load_block dread info b (A + 3072) s = s\<lparr>ram := put_blk part (A + 3072) (b * 1024 div 1024) (ram s)\<rparr>"
    using M' dread_blk [of "A + 3072"] by (simp add: ext2_load_block_def LOGIC_BLOCK_SIZE_def)
  have o: "unat (k mod 8) < 8" by (simp add: unat_mod_distrib)
  have "load_inode (put_blk part (A + 3072) c (ram s)) (A + 3072 + 128 * (k mod 8)) = load_inode (dblk part c) (128 * (k mod 8))" for c
  proof (rule load_inode_eqI)
    fix j :: nat assume j: "j < 128"
    define q where "q = 128 * unat (k mod 8) + j"
    have "of_nat q = 128 * (k mod 8) + of_nat j" by (simp add: q_def)
    moreover have "put_blk part (A + 3072) c (ram s) (A + 3072 + of_nat q) = dblk part c (of_nat q)"
    proof -
      have "q < 1024" using o j by (simp add: q_def)
      then show ?thesis using put_blk_holds [of part "A + 3072" c "ram s"] unfolding holds_blk_def by blast
    qed
    ultimately show "put_blk part (A + 3072) c (ram s) (A + 3072 + 128 * (k mod 8) + of_nat j) = dblk part c (128 * (k mod 8) + of_nat j)"
      by (simp only: add.assoc)
  qed
  moreover have "disk_inode part idx = load_inode (dblk part (b * 1024 div 1024)) (128 * (k mod 8))"
    by (simp only: disk_inode_def Let_def b_def k_def pg_def)
  ultimately have "ext2_get_inode dread info idx s = Inr (disk_inode part idx, s\<lparr>ram := put_blk part (A + 3072) (b * 1024 div 1024) (ram s)\<rparr>)"
    using pg M' t load
    by (simp add: ext2_get_inode_def Let_def k_def [symmetric] b_def [symmetric] LOGIC_BLOCK_SIZE_def)
  then show "\<exists>b. ext2_get_inode dread info idx s = Inr (disk_inode part idx, s\<lparr>ram := put_blk part (of_nat a + 3072) b (ram s)\<rparr>)"
    unfolding A_def by blast
  show "mounted part a info (put_blk part (of_nat a + 3072) b (ram s))" for b
    using m put_blk_keeps [of part "ram s" "of_nat a" 1 "of_nat a + 3072" b]
      put_blk_keeps [of part "ram s" "of_nat a + 1024" 2 "of_nat a + 3072" b]
    by (simp add: mounted_def)
qed

lemma load_sb_ok:
  assumes m: "mem_ok s A F"
  shows "(page_alloc 1 MMAREA_NORMAL False s = Inr (None, s) \<and> ext2_load_sb dread old s = Inr (None, s)) \<or>
    (\<exists>p s'. (p, 1) \<notin> A \<and> block p 1 \<subseteq> F \<and> same_map s s' \<and>
      (if super_ok part then mem_ok s' (insert (p, 1) A) (F - block p 1) \<and>
         (sb_log_block_size (dblk part 1) 0 = 0 \<longrightarrow> sb_inodes_per_group (dblk part 1) 0 \<noteq> 0 \<longrightarrow>
            (\<exists>info. ext2_load_sb dread old s = Inr (Some info, s') \<and> mounted part (page2pa p) info (ram s')))
       else ext2_load_sb dread old s = Inr (None, s') \<and> mem_ok s' A F))"
proof -
  obtain L where L: "buddy_inv s L A" "F = pages (free_blocks L)" using m by (auto simp: mem_ok_def)
  have ar: "MMAREA_NORMAL < MMAREA_NUM" "(1 :: nat) < BUDDY_RANKNUM"
    by (simp_all add: MMAREA_NORMAL_def MMAREA_NUM_def BUDDY_RANKNUM_def)
  consider "page_alloc 1 MMAREA_NORMAL False s = Inr (None, s)"
    | p s1 L1 where "page_alloc 1 MMAREA_NORMAL False s = Inr (Some (page2pa p), s1)" "buddy_inv s1 L1 (insert (p, 1) A)"
      "(p, 1) \<notin> A" "block p 1 \<subseteq> F" "pages (free_blocks L1) = F - block p 1"
    using page_alloc_ok [OF L(1) ar, of False] L(2) by auto
  then show ?thesis
  proof cases
    case 1
    then show ?thesis by (simp add: ext2_load_sb_def)
  next
    case (2 p s1 L1)
    define a :: u32 where "a = of_nat (page2pa p)"
    have ev: "even a" "even (a + 1024)" by (simp_all add: a_def page2pa_def)
    have sm: "same_map s s1" using page_alloc_map [OF 2(1)] by blast
    define s2 where "s2 = s1\<lparr>ram := put_blk part a 1 (ram s1)\<rparr>"
    have s2: "dread 1 a 1 (ram s1) = ram s2" using dread_blk [OF ev(1)] by (simp add: s2_def)
    have s2e: "s1\<lparr>ram := ram s2\<rparr> = s2" by (simp add: s2_def)
    have h: "holds_blk part (ram s2) a 1" by (simp add: s2_def put_blk_holds)
    have sup: "sb_magic (ram s2) a = sb_magic (dblk part 1) 0" "sb_inode_size (ram s2) a = sb_inode_size (dblk part 1) 0"
      "sb_log_block_size (ram s2) a = sb_log_block_size (dblk part 1) 0"
      using holds_blk_ld(1) [OF h, of 56] holds_blk_ld(1) [OF h, of 88] holds_blk_ld(2) [OF h, of 24]
      by (simp_all add: sb_magic_def sb_inode_size_def sb_log_block_size_def)
    have "mem_ok s1 (insert (p, 1) A) (F - block p 1)" using 2(2,5) unfolding mem_ok_def by metis
    then have ok2: "mem_ok s2 (insert (p, 1) A) (F - block p 1)" "same_map s s2"
      using sm by (simp_all add: s2_def same_map_def)
    obtain L2 where L2: "buddy_inv s2 L2 (insert (p, 1) A)" "pages (free_blocks L2) = F - block p 1"
      using ok2(1) unfolding mem_ok_def by auto
    show ?thesis
    proof (cases "super_ok part")
      case False
      obtain s3 L3 where s3: "page_free (page2pa p) s2 = Inr s3" "buddy_inv s3 L3 (insert (p, 1) A - {(p, 1)})"
        "pages (free_blocks L3) = F - block p 1 \<union> block p 1" "same_map s2 s3"
        using page_free_ok [OF L2(1), of p 1] L2(2) by auto
      have "insert (p, 1) A - {(p, 1)} = A" "F - block p 1 \<union> block p 1 = F" using 2(3,4) by auto
      then have "mem_ok s3 A F" using s3(2,3) unfolding mem_ok_def by auto
      moreover have "ext2_load_sb dread old s = Inr (None, s3)"
        using 2(1) s2 s2e sup(1,2) s3(1) False
        by (simp add: ext2_load_sb_def Let_def a_def [symmetric] s2_def [symmetric] super_ok_def)
      ultimately show ?thesis using 2(3,4) False same_map_trans [OF ok2(2) s3(4)] by auto
    next
      case True
      define s3 where "s3 = s2\<lparr>ram := put_blk part (a + 1024) 2 (ram s2)\<rparr>"
      have s3: "dread 2 (a + 1024) 1 (ram s2) = ram s3" using dread_blk [OF ev(2)] by (simp add: s3_def)
      have s3e: "s1\<lparr>ram := ram s3\<rparr> = s3" by (simp add: s3_def s2_def)
      have hh: "holds_blk part (ram s3) a 1" "holds_blk part (ram s3) (a + 1024) 2"
        using put_blk_keeps [OF h, of "a + 1024" 2] by (simp_all add: s3_def put_blk_holds)
      have sz: "sb_inode_size (ram s3) a = 128"
        using holds_blk_ld(1) [OF hh(1), of 88] True by (simp add: sb_inode_size_def super_ok_def sizeof_ext2_inode_def)
      have lg: "sb_log_block_size (ram s3) a = sb_log_block_size (dblk part 1) 0"
        using holds_blk_ld(2) [OF hh(1), of 24] by (simp add: sb_log_block_size_def)
      have "\<exists>info. ext2_load_sb dread old s = Inr (Some info, s3) \<and> mounted part (page2pa p) info (ram s3)"
        if z: "sb_log_block_size (dblk part 1) 0 = 0" "sb_inodes_per_group (dblk part 1) 0 \<noteq> 0"
        using 2(1) s2 sup s3 s3e True hh sz lg z ev(1)
        by (simp add: ext2_load_sb_def Let_def a_def [symmetric] s2_def [symmetric] s3_def [symmetric] super_ok_def LOGIC_BLOCK_SIZE_def
            sizeof_ext2_inode_def mounted_def)
      moreover have "mem_ok s3 (insert (p, 1) A) (F - block p 1)" "same_map s s3"
        using ok2 by (simp_all add: s3_def same_map_def)
      ultimately show ?thesis using 2(3,4) True by auto
    qed
  qed
qed

lemma mount_ok:
  assumes m: "mem_ok s A F"
    and z: "super_ok part \<Longrightarrow> sb_log_block_size (dblk part 1) 0 = 0 \<and> sb_inodes_per_group (dblk part 1) 0 \<noteq> 0"
  shows "(page_alloc 1 MMAREA_NORMAL False s = Inr (None, s) \<and> ext2_mount dread old s = Inr (- 1, None, s)) \<or>
    (\<exists>p s'. (p, 1) \<notin> A \<and> block p 1 \<subseteq> F \<and>
      (if super_ok part then mem_ok s' (insert (p, 1) A) (F - block p 1) \<and>
         (\<exists>info. ext2_mount dread old s = Inr (0, Some info, s') \<and> mounted part (page2pa p) info (ram s') \<and>
            curdir_idx info = 0 \<and> d_inode (dentry_buf info 0) = disk_inode part EXT2_ROOT_INODEIDX)
       else ext2_mount dread old s = Inr (- 1, None, s') \<and> mem_ok s' A F))"
  using load_sb_ok [OF m, of old]
proof (elim disjE exE conjE)
  assume "page_alloc 1 MMAREA_NORMAL False s = Inr (None, s)" "ext2_load_sb dread old s = Inr (None, s)"
  then show ?thesis by (simp add: ext2_mount_def)
next
  fix p s1
  assume p: "(p, 1) \<notin> A" "block p 1 \<subseteq> F" and r: "if super_ok part then mem_ok s1 (insert (p, 1) A) (F - block p 1) \<and>
         (sb_log_block_size (dblk part 1) 0 = 0 \<longrightarrow> sb_inodes_per_group (dblk part 1) 0 \<noteq> 0 \<longrightarrow>
            (\<exists>info. ext2_load_sb dread old s = Inr (Some info, s1) \<and> mounted part (page2pa p) info (ram s1)))
       else ext2_load_sb dread old s = Inr (None, s1) \<and> mem_ok s1 A F"
  show ?thesis
  proof (cases "super_ok part")
    case False
    then show ?thesis using r p by (auto simp: ext2_mount_def)
  next
    case True
    then obtain info where info: "ext2_load_sb dread old s = Inr (Some info, s1)" "mounted part (page2pa p) info (ram s1)"
      "mem_ok s1 (insert (p, 1) A) (F - block p 1)"
      using r z by auto
    have "unat ((EXT2_ROOT_INODEIDX - 1) div sb_inodes_per_group (dblk part 1) 0) < 32"
    proof -
      have "1 div unat (sb_inodes_per_group (dblk part 1) 0) \<le> 1" by simp
      then show ?thesis by (simp add: EXT2_ROOT_INODEIDX_def unat_div_distrib)
    qed
    from get_inode_ok [OF info(2) this] obtain b where
      b: "ext2_get_inode dread info EXT2_ROOT_INODEIDX s1 =
          Inr (disk_inode part EXT2_ROOT_INODEIDX, s1\<lparr>ram := put_blk part (of_nat (page2pa p) + 3072) b (ram s1)\<rparr>)"
        "mounted part (page2pa p) info (put_blk part (of_nat (page2pa p) + 3072) b (ram s1))" by blast
    define s2 where "s2 = s1\<lparr>ram := put_blk part (of_nat (page2pa p) + 3072) b (ram s1)\<rparr>"
    have "mem_ok s2 (insert (p, 1) A) (F - block p 1)" using info(3) by (simp add: s2_def)
    then show ?thesis
      using True p info(1) b
      by (intro disjI2 exI [of _ p] exI [of _ s2]) (simp add: ext2_mount_def s2_def [symmetric] mounted_def, simp add: s2_def)
  qed
qed

end

section \<open>Directories\<close>

text \<open>The records at \<open>e\<close> have the lengths \<open>ls\<close>.\<close>

fun records_at :: "mem \<Rightarrow> u32 \<Rightarrow> nat list \<Rightarrow> bool" where
  "records_at m e [] = True"
| "records_at m e (l # ls) = (unat (de_rec_len m e) = l \<and> records_at m (e + of_nat l) ls)"

lemma unat_rec_len: "unat (ucast (de_rec_len m e) :: u32) = unat (de_rec_len m e)"
  by (rule unat_ucast_up) simp

lemma count_entries_app:
  "records_at m e ls \<Longrightarrow> 0 \<notin> set ls \<Longrightarrow> sum_list ls \<le> unat sz \<Longrightarrow>
   count_entries (length ls + fuel) m e sz n =
     count_entries fuel m (e + of_nat (sum_list ls)) (sz - of_nat (sum_list ls)) (n + of_nat (length ls))"
proof (induction ls arbitrary: e sz n)
  case Nil
  then show ?case by simp
next
  case (Cons l ls)
  have l: "unat (de_rec_len m e) = l" "0 < l" using Cons.prems(1,2) by auto
  have c: "(ucast (de_rec_len m e) :: u32) = of_nat l" using unat_rec_len [of m e] l(1) by (metis word_of_unat)
  have lt: "l < 2 ^ 32" using l(1) unat_u16_lt [of "de_rec_len m e"] by simp
  have "l \<le> unat sz" using Cons.prems(3) by simp
  then have "unat (sz - of_nat l) = unat sz - l"
    using lt by (simp add: unat_sub word_le_nat_alt unat_of_nat_small)
  moreover have "sz \<noteq> 0" using \<open>l \<le> unat sz\<close> l(2) by auto
  ultimately show ?case
    using Cons.IH [of "e + of_nat l" "sz - of_nat l" "n + 1"] Cons.prems l c by (simp add: algebra_simps)
qed

lemma count_entries_zero:
  "de_rec_len m e = 0 \<Longrightarrow> sz \<noteq> 0 \<Longrightarrow> count_entries fuel m e sz n = Inl Stuck"
  by (induction fuel arbitrary: n) simp_all

text \<open>Fuel only decides whether the count is finished.\<close>

lemma count_entries_less: "count_entries (fuel + k) m e sz n = Inl Stuck \<Longrightarrow> count_entries fuel m e sz n = Inl Stuck"
  by (induction fuel arbitrary: e sz n) (auto split: if_splits)

text \<open>
  C35: the loop that counts the entries of a directory returns when the lengths of the records add up
  to the size of the directory, with one turn per record; when a record of length 0 comes before
  the end of the directory, it never does.
\<close>

theorem count_entries_terminates:
  assumes "records_at m e ls" "0 \<notin> set ls" "sum_list ls \<le> unat sz"
  shows "(sum_list ls = unat sz \<longrightarrow> (\<forall>fuel>length ls. count_entries fuel m e sz 0 = Inr (of_nat (length ls)))) \<and>
    (sum_list ls < unat sz \<and> de_rec_len m (e + of_nat (sum_list ls)) = 0 \<longrightarrow> (\<forall>fuel. count_entries fuel m e sz 0 = Inl Stuck))"
proof (intro conjI impI allI)
  fix fuel assume e: "sum_list ls = unat sz" and f: "length ls < fuel"
  obtain k where k: "fuel = length ls + Suc k" using f by (metis less_imp_Suc_add add_Suc_right)
  have "sz - of_nat (sum_list ls) = 0" using e by simp
  then show "count_entries fuel m e sz 0 = Inr (of_nat (length ls))"
    using count_entries_app [OF assms, of "Suc k" 0] by (simp add: k)
next
  fix fuel assume z: "sum_list ls < unat sz \<and> de_rec_len m (e + of_nat (sum_list ls)) = 0"
  have "sz \<noteq> of_nat (sum_list ls)"
    using z unat_u32_lt [of sz] unat_of_nat_small [of "sum_list ls", where 'a = 32] by auto
  then have "count_entries (length ls + fuel) m e sz 0 = Inl Stuck"
    using count_entries_app [OF assms, of fuel 0] z by (simp add: count_entries_zero)
  then show "count_entries fuel m e sz 0 = Inl Stuck"
    using count_entries_less [of fuel "length ls"] by (simp add: add.commute)
qed

theorem count_entries_terminates_witness:
  "count_entries 3 (\<lambda>x. if x = 4 then 12 else if x = 17 then 2 else 0) 0 524 0 = Inr 2 \<and>
   count_entries 1000 (\<lambda>x. if x = 4 then 12 else 0) 0 524 0 = Inl Stuck"
  using count_entries_terminates [of "\<lambda>x. if x = 4 then 12 else if x = 17 then 2 else 0" 0 "[12, 512]" 524]
    count_entries_terminates [of "\<lambda>x. if x = 4 then 12 else 0" 0 "[12]" 524]
  by (simp add: de_rec_len_def ld16_def)

section \<open>Mounting\<close>


definition plain_read :: "(u32 \<Rightarrow> nat \<Rightarrow> u8) \<Rightarrow> u32 \<Rightarrow> u32 \<Rightarrow> u32 \<Rightarrow> mem \<Rightarrow> mem" where
  "plain_read part addr buff n m x = (if unat (x - buff) < 1024 * unat n then part addr (unat (x - buff)) else m x)"

definition small_part :: "u32 \<Rightarrow> nat \<Rightarrow> u8" where
  "small_part b j = (if b = 1 then if j = 56 then 0x53 else if j = 57 then 0xEF else if j = 88 then 128
                                  else if j = 40 then 8 else 0 else 0)"


end
