(* ===== verification/Hd.thy ===== *)
theory Hd
  imports Ext2
begin

text \<open>
  The hard disk driver, \<^verbatim>\<open>io/hd.c\<close>: the conversion of a sector to cylinder, head and sector, the
  interrupt handler that moves one sector, and the reading and writing of logic blocks. The ports
  are parameters; the locale \<open>ata\<close> states what the code relies on of the controller, and the driver is
  proved to be a \<open>block_dev\<close>, so that what is proved of the file system holds of files on this disk.
\<close>

section \<open>The code\<close>

definition PORT_HD_DATA :: u16 where "PORT_HD_DATA = 0x1F0"
definition PORT_HD_ERR_PRECOMP :: u16 where "PORT_HD_ERR_PRECOMP = 0x1F1"
definition PORT_HD_NSECTOR :: u16 where "PORT_HD_NSECTOR = 0x1F2"
definition PORT_HD_SECTOR :: u16 where "PORT_HD_SECTOR = 0x1F3"
definition PORT_HD_LCYL :: u16 where "PORT_HD_LCYL = 0x1F4"
definition PORT_HD_HCYL :: u16 where "PORT_HD_HCYL = 0x1F5"
definition PORT_HD_CURRENT :: u16 where "PORT_HD_CURRENT = 0x1F6"
definition PORT_HD_STAT_COMMAND :: u16 where "PORT_HD_STAT_COMMAND = 0x1F7"
definition PORT_HD_CMD :: u16 where "PORT_HD_CMD = 0x3F6"
definition HD_STATMASK_DRQ_STAT :: u8 where "HD_STATMASK_DRQ_STAT = 0x08"
definition HD_STATMASK_READY_STAT :: u8 where "HD_STATMASK_READY_STAT = 0x40"
definition HD_CMD_READ :: u8 where "HD_CMD_READ = 0x20"
definition HD_CMD_WRITE :: u8 where "HD_CMD_WRITE = 0x30"
definition HD_SECTOR_SIZE :: u32 where "HD_SECTOR_SIZE = 512"
definition HD_PDTENTRY_NUM :: nat where "HD_PDTENTRY_NUM = 4"

datatype hdreq_e = HDREQ_READ | HDREQ_WRITE

record hd_request =
  rq_buff :: u32
  sect_num :: u16
  cyl_start :: u16
  head_start :: u8
  sect_start :: u8
  hdreq :: hdreq_e
  rq_flag :: u8

text \<open>The fields of the geometry and of a partition that the driver reads.\<close>

record hd_info =
  n_header :: u8
  n_sect :: u8

record hd_dptentry =
  boot_ind :: u8
  sys_ind :: u8
  start_logicsect :: u32
  n_logicsect :: u32

text \<open>The port instructions; \<open>p_irq\<close> takes the controller to its next interrupt.\<close>

record 'c hdports =
  p_inb :: "u16 \<Rightarrow> 'c \<Rightarrow> u8 \<times> 'c"
  p_outb :: "u8 \<Rightarrow> u16 \<Rightarrow> 'c \<Rightarrow> 'c"
  p_inw :: "u16 \<Rightarrow> 'c \<Rightarrow> u16 \<times> 'c"
  p_outw :: "u16 \<Rightarrow> u16 \<Rightarrow> 'c \<Rightarrow> 'c"
  p_irq :: "'c \<Rightarrow> 'c"

record 'c hdstate =
  hd_mem :: mem
  hd_cur_rq :: "hd_request option"
  ctl :: 'c

fun hd_waitforfree :: "'c hdports \<Rightarrow> nat \<Rightarrow> 'c \<Rightarrow> 'c res" where
  "hd_waitforfree P 0 c = Inl Stuck"
| "hd_waitforfree P (Suc fuel) c =
     (let (status, c) = p_inb P PORT_HD_STAT_COMMAND c
      in if status AND HD_STATMASK_READY_STAT = 0 then hd_waitforfree P fuel c else Inr c)"

fun wait_DRQ_loop :: "'c hdports \<Rightarrow> nat \<Rightarrow> 'c \<Rightarrow> int \<times> 'c" where
  "wait_DRQ_loop P 0 c = (- 1, c)"
| "wait_DRQ_loop P (Suc retries) c =
     (let (stat, c) = p_inb P PORT_HD_STAT_COMMAND c
      in if stat AND HD_STATMASK_DRQ_STAT \<noteq> 0 then (0, c) else wait_DRQ_loop P retries c)"

definition wait_DRQ :: "'c hdports \<Rightarrow> 'c \<Rightarrow> int \<times> 'c" where
  "wait_DRQ P c = wait_DRQ_loop P 100000 c"

definition st16 :: "mem \<Rightarrow> u32 \<Rightarrow> u16 \<Rightarrow> mem" where
  "st16 m a w = m(a := ucast w, a + 1 := ucast (drop_bit 8 w))"

fun in_words :: "'c hdports \<Rightarrow> nat \<Rightarrow> u32 \<Rightarrow> mem \<Rightarrow> 'c \<Rightarrow> u32 \<times> mem \<times> 'c" where
  "in_words P 0 data m c = (data, m, c)"
| "in_words P (Suc n) data m c =
     (let (w, c) = p_inw P PORT_HD_DATA c in in_words P n (data + 2) (st16 m data w) c)"

fun out_words :: "'c hdports \<Rightarrow> nat \<Rightarrow> u32 \<Rightarrow> mem \<Rightarrow> 'c \<Rightarrow> u32 \<times> 'c" where
  "out_words P 0 data m c = (data, c)"
| "out_words P (Suc n) data m c = out_words P n (data + 2) m (p_outw P (ld16 m data) PORT_HD_DATA c)"

definition hd_int :: "'c hdports \<Rightarrow> 'c hdstate \<Rightarrow> 'c hdstate" where
  "hd_int P s =
     (case hd_cur_rq s of
        None \<Rightarrow> s
      | Some rq \<Rightarrow>
          let c = snd (wait_DRQ P (ctl s)); data = rq_buff rq
          in case hdreq rq of
               HDREQ_READ \<Rightarrow>
                 (let (data, m, c) = in_words P 256 data (hd_mem s) c;
                      rq = rq\<lparr>sect_num := sect_num rq - 1, rq_buff := data\<rparr>;
                      rq = (if sect_num rq = 0 then rq\<lparr>rq_flag := 0\<rparr> else rq)
                  in s\<lparr>hd_mem := m, ctl := c, hd_cur_rq := Some rq\<rparr>)
             | HDREQ_WRITE \<Rightarrow>
                 (if sect_num rq = 0 then s\<lparr>ctl := c, hd_cur_rq := Some (rq\<lparr>rq_flag := 0\<rparr>)\<rparr>
                  else
                    let c = snd (wait_DRQ P c);
                        (data, c) = out_words P 256 data (hd_mem s) c
                    in s\<lparr>ctl := c, hd_cur_rq := Some (rq\<lparr>sect_num := sect_num rq - 1, rq_buff := data\<rparr>)\<rparr>))"

text \<open>A division by zero is an exception of the processor, which stops the machine.\<close>

definition hd_partsec2chs :: "hd_info \<Rightarrow> hd_dptentry \<Rightarrow> hd_request \<Rightarrow> u32 \<Rightarrow> hd_request res" where
  "hd_partsec2chs hdinfo part rq part_logicsect =
     (let logicsect = part_logicsect + start_logicsect part;
          sectpercyl = ucast (n_header hdinfo) * ucast (n_sect hdinfo)
      in if sectpercyl = 0 then Inl Die
         else
           let cyl = logicsect div sectpercyl; logicsect = logicsect mod sectpercyl
           in Inr (rq\<lparr>cyl_start := ucast cyl,
                     head_start := ucast (logicsect div ucast (n_sect hdinfo)),
                     sect_start := ucast (1 + logicsect mod ucast (n_sect hdinfo))\<rparr>))"

definition hd_select :: "'c hdports \<Rightarrow> hd_request \<Rightarrow> 'c \<Rightarrow> 'c" where
  "hd_select P rq c =
     (let c = p_outb P 0x08 PORT_HD_CMD c;
          c = p_outb P 0 PORT_HD_ERR_PRECOMP c;
          c = p_outb P (ucast (sect_num rq)) PORT_HD_NSECTOR c;
          c = p_outb P (sect_start rq) PORT_HD_SECTOR c;
          c = p_outb P (ucast (drop_bit 8 (cyl_start rq))) PORT_HD_HCYL c;
          c = p_outb P (ucast (cyl_start rq)) PORT_HD_LCYL c
      in p_outb P (0xA0 OR head_start rq) PORT_HD_CURRENT c)"

text \<open>The wait for the flag: nothing but the interrupts changes it.\<close>

fun hd_wait :: "'c hdports \<Rightarrow> nat \<Rightarrow> 'c hdstate \<Rightarrow> 'c hdstate res" where
  "hd_wait P 0 s = Inl Stuck"
| "hd_wait P (Suc fuel) s =
     (case hd_cur_rq s of
        None \<Rightarrow> Inl Fault
      | Some rq \<Rightarrow> if rq_flag rq = 0 then Inr s else hd_wait P fuel (hd_int P (s\<lparr>ctl := p_irq P (ctl s)\<rparr>)))"

definition new_request :: "hdreq_e \<Rightarrow> u32 \<Rightarrow> u32 \<Rightarrow> hd_request" where
  "new_request r buff cnt =
     \<lparr>rq_buff = buff, sect_num = ucast (cnt * (LOGIC_BLOCK_SIZE div HD_SECTOR_SIZE)), cyl_start = 0,
      head_start = 0, sect_start = 0, hdreq = r, rq_flag = 0\<rparr>"

definition hd_drv_read ::
  "'c hdports \<Rightarrow> nat \<Rightarrow> hd_info \<Rightarrow> hd_dptentry \<Rightarrow> u32 \<Rightarrow> u32 \<Rightarrow> u32 \<Rightarrow> 'c hdstate \<Rightarrow> (int \<times> 'c hdstate) res" where
  "hd_drv_read P fuel hdinfo part addr buff cnt s =
     bindE (assertE (buff mod 2 = 0)) (\<lambda>_.
     bindE (hd_partsec2chs hdinfo part (new_request HDREQ_READ buff cnt)
              (addr * (LOGIC_BLOCK_SIZE div HD_SECTOR_SIZE))) (\<lambda>rq.
     bindE (hd_waitforfree P fuel (ctl s)) (\<lambda>c.
     let c = hd_select P rq c;
         rq = rq\<lparr>rq_flag := 1\<rparr>;
         c = p_outb P HD_CMD_READ PORT_HD_STAT_COMMAND c
     in bindE (hd_wait P fuel (s\<lparr>ctl := c, hd_cur_rq := Some rq\<rparr>)) (\<lambda>s.
        Inr (0, s\<lparr>hd_cur_rq := None\<rparr>)))))"

text \<open>The code from the label \<^verbatim>\<open>hd_drv_write_retry\<close> to the test of the first \<^verbatim>\<open>wait_DRQ\<close>.\<close>

fun hd_drv_write_retry :: "'c hdports \<Rightarrow> nat \<Rightarrow> nat \<Rightarrow> hd_request \<Rightarrow> 'c \<Rightarrow> 'c res" where
  "hd_drv_write_retry P fuel 0 rq c = Inl Stuck"
| "hd_drv_write_retry P fuel (Suc n) rq c =
     bindE (hd_waitforfree P fuel c) (\<lambda>c.
     let c = hd_select P rq c;
         c = p_outb P HD_CMD_WRITE PORT_HD_STAT_COMMAND c;
         (r, c) = wait_DRQ P c
     in if r \<noteq> 0 then hd_drv_write_retry P fuel n rq c else Inr c)"

definition hd_drv_write ::
  "'c hdports \<Rightarrow> nat \<Rightarrow> hd_info \<Rightarrow> hd_dptentry \<Rightarrow> u32 \<Rightarrow> u32 \<Rightarrow> u32 \<Rightarrow> 'c hdstate \<Rightarrow> (int \<times> 'c hdstate) res" where
  "hd_drv_write P fuel hdinfo part addr buff cnt s =
     bindE (assertE (buff mod 2 = 0)) (\<lambda>_.
     bindE (hd_partsec2chs hdinfo part (new_request HDREQ_WRITE buff cnt)
              (addr * (LOGIC_BLOCK_SIZE div HD_SECTOR_SIZE))) (\<lambda>rq.
     bindE (hd_drv_write_retry P fuel fuel rq (ctl s)) (\<lambda>c.
     let rq = rq\<lparr>rq_flag := 1\<rparr>;
         (data, c) = out_words P 256 (rq_buff rq) (hd_mem s) c;
         rq = rq\<lparr>sect_num := sect_num rq - 1, rq_buff := data\<rparr>
     in bindE (hd_wait P fuel (s\<lparr>ctl := c, hd_cur_rq := Some rq\<rparr>)) (\<lambda>s.
        Inr (0, s\<lparr>hd_cur_rq := None\<rparr>)))))"

section \<open>Bytes in memory and on the disk\<close>

definition word_at :: "(nat \<Rightarrow> u8) \<Rightarrow> nat \<Rightarrow> u16" where
  "word_at img pos = (ucast (img pos) OR push_bit 8 (ucast (img (pos + 1))))"

definition with_bytes :: "mem \<Rightarrow> u32 \<Rightarrow> (nat \<Rightarrow> u8) \<Rightarrow> nat \<Rightarrow> nat \<Rightarrow> mem" where
  "with_bytes m a img pos n x = (if unat (x - a) < n then img (pos + unat (x - a)) else m x)"

definition img_with :: "(nat \<Rightarrow> u8) \<Rightarrow> nat \<Rightarrow> mem \<Rightarrow> u32 \<Rightarrow> nat \<Rightarrow> nat \<Rightarrow> u8" where
  "img_with img pos m a n p = (if pos \<le> p \<and> p < pos + n then m (a + of_nat (p - pos)) else img p)"

lemma word_at_bytes: "ucast (word_at img pos) = img pos" "ucast (drop_bit 8 (word_at img pos)) = img (pos + 1)"
  by (rule bit_word_eqI, auto simp: word_at_def bit_simps dest: bit_imp_le_length)+

lemma ld16_bytes: "ucast (ld16 m a) = m a" "ucast (drop_bit 8 (ld16 m a)) = m (a + 1)"
  by (rule bit_word_eqI, auto simp: ld16_def bit_simps dest: bit_imp_le_length)+

lemma with_bytes_0 [simp]: "with_bytes m a img pos 0 = m"
  by (simp add: with_bytes_def fun_eq_iff)

lemma img_with_0 [simp]: "img_with img pos m a 0 = img"
  by (rule ext) (auto simp: img_with_def)

lemma with_bytes_app:
  assumes "i + j \<le> 2 ^ 32"
  shows "with_bytes (with_bytes m a img pos i) (a + of_nat i) img (pos + i) j = with_bytes m a img pos (i + j)"
proof
  fix x
  show "with_bytes (with_bytes m a img pos i) (a + of_nat i) img (pos + i) j x = with_bytes m a img pos (i + j) x"
  proof (cases "unat (x - a) < i")
    case True
    then have "j \<le> unat (x - (a + of_nat i))" using unat_diff_wrap [OF assms] by blast
    then show ?thesis using True by (simp add: with_bytes_def)
  next
    case False
    then have d: "unat (x - (a + of_nat i)) = unat (x - a) - i" using unat_diff_split [of i x a] assms by simp
    obtain e where "unat (x - a) = i + e" using False by (metis le_Suc_ex linorder_not_less)
    then show ?thesis using d by (simp add: with_bytes_def add.assoc)
  qed
qed

lemma st16_bytes: "st16 m a (word_at img pos) = with_bytes m a img pos 2"
proof
  fix x
  have "unat (x - a) < 2 \<longleftrightarrow> x = a \<or> x = a + 1"
  proof -
    have "unat (x - a) < 2 \<longleftrightarrow> x - a = 0 \<or> x - a = 1"
      using word_of_unat [of "x - a" 0] word_of_unat [of "x - a" 1] by (auto simp: less_2_cases_iff)
    then show ?thesis by (auto simp: diff_eq_eq add.commute)
  qed
  then show "st16 m a (word_at img pos) x = with_bytes m a img pos 2 x"
    by (auto simp: st16_def with_bytes_def word_at_bytes)
qed

lemma img_with_app:
  "img_with (img_with img pos m a i) (pos + i) m (a + of_nat i) j = img_with img pos m a (i + j)"
proof
  fix p
  have "a + of_nat i + of_nat (p - (pos + i)) = a + of_nat (p - pos)" if "pos + i \<le> p"
    using that by (simp add: of_nat_diff)
  then show "img_with (img_with img pos m a i) (pos + i) m (a + of_nat i) j p = img_with img pos m a (i + j) p"
    by (auto simp: img_with_def)
qed

lemma put_word: "img(pos := ucast (ld16 m a), pos + 1 := ucast (drop_bit 8 (ld16 m a))) = img_with img pos m a 2"
  by (rule ext) (auto simp: img_with_def ld16_bytes)

section \<open>The controller\<close>

text \<open>The sector that the registers select and the number of sectors they ask for.\<close>

definition chs_lba :: "nat \<Rightarrow> nat \<Rightarrow> (u16 \<Rightarrow> u8) \<Rightarrow> nat" where
  "chs_lba hds spt r =
     ((unat (r PORT_HD_HCYL) * 256 + unat (r PORT_HD_LCYL)) * hds + unat (r PORT_HD_CURRENT AND 15)) * spt +
     unat (r PORT_HD_SECTOR) - 1"

definition sect_count :: "(u16 \<Rightarrow> u8) \<Rightarrow> nat" where
  "sect_count r = (if r PORT_HD_NSECTOR = 0 then 256 else unat (r PORT_HD_NSECTOR))"

definition task_ports :: "u16 set" where
  "task_ports = {PORT_HD_ERR_PRECOMP, PORT_HD_NSECTOR, PORT_HD_SECTOR, PORT_HD_LCYL, PORT_HD_HCYL, PORT_HD_CURRENT, PORT_HD_CMD}"

lemmas hd_ports = PORT_HD_DATA_def PORT_HD_ERR_PRECOMP_def PORT_HD_NSECTOR_def PORT_HD_SECTOR_def PORT_HD_LCYL_def
  PORT_HD_HCYL_def PORT_HD_CURRENT_def PORT_HD_STAT_COMMAND_def PORT_HD_CMD_def

text \<open>
  A controller with a geometry: the image of its disk, its registers, the number of status reads it
  stays busy for, and the place and the number of words of the transfer under way. An interrupt comes
  when it is no longer busy, and it is busy between sectors only.
\<close>

locale ata =
  fixes P :: "'c hdports" and hds spt :: nat
    and disk :: "'c \<Rightarrow> nat \<Rightarrow> u8" and regs :: "'c \<Rightarrow> u16 \<Rightarrow> u8" and busy :: "'c \<Rightarrow> nat" and xfer :: "'c \<Rightarrow> nat \<times> nat"
  assumes status: "p_inb P PORT_HD_STAT_COMMAND c = (v, c') \<Longrightarrow>
      (bit v 6 \<longleftrightarrow> busy c = 0) \<and> (bit v 3 \<longleftrightarrow> busy c = 0 \<and> 0 < snd (xfer c)) \<and>
      disk c' = disk c \<and> regs c' = regs c \<and> xfer c' = xfer c \<and> busy c' = busy c - 1"
    and set_reg: "p \<in> task_ports \<Longrightarrow>
      regs (p_outb P v p c) = (regs c)(p := v) \<and> disk (p_outb P v p c) = disk c \<and> busy (p_outb P v p c) = busy c"
    and command: "busy c = 0 \<Longrightarrow> v \<in> {HD_CMD_READ, HD_CMD_WRITE} \<Longrightarrow> c' = p_outb P v PORT_HD_STAT_COMMAND c \<Longrightarrow>
      disk c' = disk c \<and> busy c' < 100000 \<and> xfer c' = (512 * chs_lba hds spt (regs c), 256 * sect_count (regs c))"
    and irq: "busy (p_irq P c) = 0 \<and> disk (p_irq P c) = disk c \<and> xfer (p_irq P c) = xfer c"
    and inw: "busy c = 0 \<Longrightarrow> xfer c = (pos, Suc n) \<Longrightarrow> p_inw P PORT_HD_DATA c = (w, c') \<Longrightarrow>
      w = word_at (disk c) pos \<and> disk c' = disk c \<and> xfer c' = (pos + 2, n) \<and> (n mod 256 \<noteq> 0 \<longrightarrow> busy c' = 0)"
    and outw: "busy c = 0 \<Longrightarrow> xfer c = (pos, Suc n) \<Longrightarrow> c' = p_outw P w PORT_HD_DATA c \<Longrightarrow>
      disk c' = (disk c)(pos := ucast w, pos + 1 := ucast (drop_bit 8 w)) \<and> xfer c' = (pos + 2, n) \<and>
      (n mod 256 \<noteq> 0 \<longrightarrow> busy c' = 0)"
begin

lemma ready_bit: "v AND HD_STATMASK_READY_STAT = 0 \<longleftrightarrow> \<not> bit v 6" "v AND HD_STATMASK_DRQ_STAT = 0 \<longleftrightarrow> \<not> bit v 3"
proof -
  have "HD_STATMASK_READY_STAT = 2 ^ 6" "HD_STATMASK_DRQ_STAT = 2 ^ 3"
    by (simp_all add: HD_STATMASK_READY_STAT_def HD_STATMASK_DRQ_STAT_def)
  then show "v AND HD_STATMASK_READY_STAT = 0 \<longleftrightarrow> \<not> bit v 6" "v AND HD_STATMASK_DRQ_STAT = 0 \<longleftrightarrow> \<not> bit v 3"
    using and_exp_eq_0_iff_not_bit [of v 6] and_exp_eq_0_iff_not_bit [of v 3] by auto
qed

lemma waitforfree_ok:
  "busy c < fuel \<Longrightarrow> \<exists>c'. hd_waitforfree P fuel c = Inr c' \<and> busy c' = 0 \<and> disk c' = disk c"
proof (induction fuel arbitrary: c)
  case (Suc fuel)
  obtain v c' where c': "p_inb P PORT_HD_STAT_COMMAND c = (v, c')" by (cases "p_inb P PORT_HD_STAT_COMMAND c")
  note st = status [OF c']
  show ?case
  proof (cases "busy c = 0")
    case True
    then show ?thesis using st c' by (simp add: ready_bit)
  next
    case False
    then have "busy c' < fuel" using st Suc.prems by simp
    then show ?thesis using Suc.IH [of c'] st c' False by (auto simp: ready_bit)
  qed
qed simp

lemma wait_DRQ_loop_ok:
  "wait_DRQ_loop P n c = (r, c') \<Longrightarrow> disk c' = disk c \<and> xfer c' = xfer c \<and> busy c' \<le> busy c \<and>
     (busy c < n \<longrightarrow> 0 < snd (xfer c) \<longrightarrow> r = 0 \<and> busy c' = 0)"
proof (induction n arbitrary: c)
  case (Suc n)
  obtain v c1 where c1: "p_inb P PORT_HD_STAT_COMMAND c = (v, c1)" by (cases "p_inb P PORT_HD_STAT_COMMAND c")
  note st = status [OF c1]
  show ?case
  proof (cases "bit v 3")
    case True
    then have "r = 0" "c' = c1" using Suc.prems c1 by (simp_all add: ready_bit)
    then show ?thesis using st True by simp
  next
    case False
    then have "wait_DRQ_loop P n c1 = (r, c')" using Suc.prems c1 by (simp add: ready_bit)
    then show ?thesis using Suc.IH [of c1] st False by auto
  qed
qed simp

lemmas wait_DRQ_ok = wait_DRQ_loop_ok [of 100000, folded wait_DRQ_def]

lemma in_words_ok:
  "n \<le> 256 \<Longrightarrow> busy c = 0 \<Longrightarrow> xfer c = (pos, n + 256 * k) \<Longrightarrow>
   \<exists>c'. in_words P n a m c = (a + of_nat (2 * n), with_bytes m a (disk c) pos (2 * n), c') \<and>
     disk c' = disk c \<and> xfer c' = (pos + 2 * n, 256 * k)"
proof (induction n arbitrary: a m c pos)
  case (Suc n)
  obtain w c1 where c1: "p_inw P PORT_HD_DATA c = (w, c1)" by (cases "p_inw P PORT_HD_DATA c")
  have l: "w = word_at (disk c) pos" "disk c1 = disk c" "xfer c1 = (pos + 2, n + 256 * k)"
    "n mod 256 \<noteq> 0 \<longrightarrow> busy c1 = 0"
    using inw [OF Suc.prems(2) _ c1, of pos "n + 256 * k"] Suc.prems(3) by auto
  show ?case
  proof (cases "n = 0")
    case True
    then show ?thesis using c1 l st16_bytes [of m a] by simp
  next
    case False
    then have "busy c1 = 0" using l(4) Suc.prems(1) by simp
    then obtain c' where c': "in_words P n (a + 2) (st16 m a w) c1 =
        (a + 2 + of_nat (2 * n), with_bytes (st16 m a w) (a + 2) (disk c1) (pos + 2) (2 * n), c')"
      "disk c' = disk c1" "xfer c' = (pos + 2 + 2 * n, 256 * k)"
      using Suc.IH [of c1 "pos + 2" "a + 2" "st16 m a w"] Suc.prems(1) l(3) by auto
    have "with_bytes (st16 m a w) (a + 2) (disk c1) (pos + 2) (2 * n) = with_bytes m a (disk c) pos (2 * Suc n)"
      using with_bytes_app [of 2 "2 * n" m a "disk c" pos] Suc.prems(1) l(1,2) st16_bytes [of m a] by simp
    then show ?thesis using c1 c' l(2) by simp
  qed
qed simp

lemma out_words_ok:
  "n \<le> 256 \<Longrightarrow> busy c = 0 \<Longrightarrow> xfer c = (pos, n + 256 * k) \<Longrightarrow>
   \<exists>c'. out_words P n a m c = (a + of_nat (2 * n), c') \<and>
     disk c' = img_with (disk c) pos m a (2 * n) \<and> xfer c' = (pos + 2 * n, 256 * k)"
proof (induction n arbitrary: a c pos)
  case (Suc n)
  define c1 where "c1 = p_outw P (ld16 m a) PORT_HD_DATA c"
  have l: "disk c1 = img_with (disk c) pos m a 2" "xfer c1 = (pos + 2, n + 256 * k)" "n mod 256 \<noteq> 0 \<longrightarrow> busy c1 = 0"
    using outw [OF Suc.prems(2) _ c1_def, of pos "n + 256 * k"] Suc.prems(3) put_word [of "disk c" pos m a] by auto
  show ?case
  proof (cases "n = 0")
    case True
    then show ?thesis using l c1_def [symmetric] by simp
  next
    case False
    then have "busy c1 = 0" using l(3) Suc.prems(1) by simp
    then obtain c' where c': "out_words P n (a + 2) m c1 = (a + 2 + of_nat (2 * n), c')"
      "disk c' = img_with (disk c1) (pos + 2) m (a + 2) (2 * n)" "xfer c' = (pos + 2 + 2 * n, 256 * k)"
      using Suc.IH [of c1 "pos + 2" "a + 2"] Suc.prems(1) l(2) by auto
    have "disk c' = img_with (disk c) pos m a (2 * Suc n)"
      using c'(2) l(1) img_with_app [of "disk c" pos m a 2 "2 * n"] by simp
    then show ?thesis using c' c1_def [symmetric] by simp
  qed
qed simp

end

section \<open>Cylinder, head and sector\<close>

definition rq_lba :: "nat \<Rightarrow> nat \<Rightarrow> hd_request \<Rightarrow> nat" where
  "rq_lba hds spt rq = (unat (cyl_start rq) * hds + unat (head_start rq AND 15)) * spt + unat (sect_start rq) - 1"

text \<open>The geometry of the structure is the controller's.\<close>

definition same_geometry :: "hd_info \<Rightarrow> nat \<Rightarrow> nat \<Rightarrow> bool" where
  "same_geometry info hds spt \<longleftrightarrow> unat (n_header info) = hds \<and> unat (n_sect info) = spt \<and> 0 < hds \<and> hds \<le> 16 \<and> 0 < spt"

text \<open>Where the controller is told to start for a logic block of a partition.\<close>

definition block_lba :: "hd_info \<Rightarrow> hd_dptentry \<Rightarrow> u32 \<Rightarrow> nat" where
  "block_lba info part addr =
     (case hd_partsec2chs info part (new_request HDREQ_READ 0 0) (addr * 2) of
        Inl _ \<Rightarrow> 0
      | Inr rq \<Rightarrow> rq_lba (unat (n_header info)) (unat (n_sect info)) rq)"

lemma partsec2chs_ok:
  assumes "same_geometry info hds spt"
  obtains rq' where "hd_partsec2chs info part rq sec = Inr rq'"
    "rq_buff rq' = rq_buff rq" "sect_num rq' = sect_num rq" "hdreq rq' = hdreq rq"
    "unat (sec + start_logicsect part) < 65536 * hds * spt \<Longrightarrow> rq_lba hds spt rq' = unat (sec + start_logicsect part)"
    "\<And>r. sec = addr * 2 \<Longrightarrow> rq_lba hds spt rq' = block_lba info part addr"
proof -
  define x where "x = sec + start_logicsect part"
  define S :: u32 where "S = ucast (n_sect info)"
  define C :: u32 where "C = ucast (n_header info) * S"
  have g: "unat (n_header info) = hds" "unat (n_sect info) = spt" "0 < hds" "hds \<le> 16" "0 < spt"
    using assms by (simp_all add: same_geometry_def)
  have S: "unat S = spt" by (simp add: S_def unat_ucast_up g(2))
  have spt: "spt < 256" using g(2) unat_u8_lt [of "n_sect info"] by simp
  have "hds * spt \<le> 16 * 255" using g(4) spt by (intro mult_le_mono) simp_all
  then have C: "unat C = hds * spt" using S g(1) by (simp add: C_def unat_word_ariths unat_ucast_up)
  then have C0: "C \<noteq> 0" using g(3,5) by auto
  define rq' where "rq' = rq\<lparr>cyl_start := ucast (x div C), head_start := ucast (x mod C div S), sect_start := ucast (1 + x mod C mod S)\<rparr>"
  have e: "hd_partsec2chs info part rq sec = Inr rq'"
    using C0 by (simp add: hd_partsec2chs_def Let_def rq'_def x_def S_def C_def)
  have "unat x = rq_lba hds spt rq'" if lt: "unat x < 65536 * hds * spt"
  proof -
    have "unat (x div C) < 65536" using lt C g(3,5) by (simp add: unat_div_distrib less_mult_imp_div_less mult.assoc)
    then have cyl: "unat (cyl_start rq') = unat x div (hds * spt)"
      by (simp add: rq'_def unsigned_ucast_eq take_bit_eq_mod C unat_div_distrib)
    have h: "unat x mod (hds * spt) div spt < hds" using g(3,5) by (simp add: less_mult_imp_div_less)
    then have "unat (x mod C div S) < 16" using g(4) by (simp add: unat_div_distrib unat_mod_distrib C S)
    then have "unat (head_start rq') < 16" by (simp add: rq'_def unsigned_ucast_eq take_bit_eq_mod)
    moreover have "w AND 15 = take_bit 4 w" for w :: u8 by (simp add: take_bit_eq_mask mask_eq_exp_minus_1)
    ultimately have head: "unat (head_start rq' AND 15) = unat x mod (hds * spt) div spt"
      by (simp add: unat_take_bit) (use h g(4) in \<open>simp add: rq'_def unsigned_ucast_eq take_bit_eq_mod unat_div_distrib unat_mod_distrib C S\<close>)
    have r: "unat x mod (hds * spt) mod spt < spt" using g(5) by simp
    have "unat (x mod C mod S) = unat x mod (hds * spt) mod spt" by (simp add: unat_mod_distrib C S)
    then have "unat (1 + x mod C mod S) = 1 + unat x mod (hds * spt) mod spt"
      using spt r unat_add_no_wrap [of 1 "x mod C mod S"] by simp
    then have sect: "unat (sect_start rq') = 1 + unat x mod (hds * spt) mod spt"
      using r spt by (simp add: rq'_def unsigned_ucast_eq take_bit_eq_mod)
    have "unat x = unat x div (hds * spt) * (hds * spt) + (unat x mod (hds * spt) div spt * spt + unat x mod (hds * spt) mod spt)"
      by (simp only: div_mult_mod_eq)
    then show ?thesis by (simp add: rq_lba_def cyl head sect algebra_simps)
  qed
  moreover have "rq_lba hds spt rq' = block_lba info part addr" if "sec = addr * 2"
    using that C0 g(1,2) by (simp add: block_lba_def hd_partsec2chs_def Let_def rq'_def rq_lba_def x_def S_def C_def)
  ultimately show ?thesis by (intro that [OF e]) (simp_all add: rq'_def x_def)
qed

lemma block_lba_exact:
  assumes "same_geometry info hds spt" "unat (addr * 2 + start_logicsect part) < 65536 * hds * spt"
  shows "block_lba info part addr = unat (addr * 2 + start_logicsect part)"
  by (rule partsec2chs_ok [OF assms(1), of part "new_request HDREQ_READ 0 0" "addr * 2" addr]) (use assms(2) in auto)

section \<open>The driver\<close>

context ata begin

lemma select_ok:
  "disk (hd_select P rq c) = disk c \<and> busy (hd_select P rq c) = busy c \<and>
   chs_lba hds spt (regs (hd_select P rq c)) = rq_lba hds spt rq \<and>
   regs (hd_select P rq c) PORT_HD_NSECTOR = ucast (sect_num rq)"
proof -
  have t: "PORT_HD_CMD \<in> task_ports" "PORT_HD_ERR_PRECOMP \<in> task_ports" "PORT_HD_NSECTOR \<in> task_ports"
    "PORT_HD_SECTOR \<in> task_ports" "PORT_HD_HCYL \<in> task_ports" "PORT_HD_LCYL \<in> task_ports" "PORT_HD_CURRENT \<in> task_ports"
    by (simp_all add: task_ports_def)
  have h: "(0xA0 OR w) AND 15 = w AND (15 :: u8)" for w
    by (simp add: bit.conj_disj_distrib2)
  have cyl: "unat (ucast (drop_bit 8 w) :: u8) * 256 + unat (ucast w :: u8) = unat w" for w :: u16
    using unat_u16_lt [of w] by (simp add: unsigned_ucast_eq take_bit_eq_mod unat_drop_bit)
  show ?thesis
    by (simp add: hd_select_def Let_def t [THEN set_reg] chs_lba_def rq_lba_def h)
      (simp add: hd_ports cyl)
qed

text \<open>One interrupt: one sector.\<close>

lemma int_read:
  assumes "hd_cur_rq s = Some rq" "hdreq rq = HDREQ_READ" "busy (ctl s) = 0" "xfer (ctl s) = (pos, 256 * Suc k)"
  defines "rq1 \<equiv> rq\<lparr>sect_num := sect_num rq - 1, rq_buff := rq_buff rq + 512\<rparr>"
  shows "\<exists>c'. hd_int P s = s\<lparr>hd_mem := with_bytes (hd_mem s) (rq_buff rq) (disk (ctl s)) pos 512, ctl := c',
      hd_cur_rq := Some (if sect_num rq1 = 0 then rq1\<lparr>rq_flag := 0\<rparr> else rq1)\<rparr> \<and>
    disk c' = disk (ctl s) \<and> xfer c' = (pos + 512, 256 * k)"
proof -
  obtain r c where c: "wait_DRQ P (ctl s) = (r, c)" by (cases "wait_DRQ P (ctl s)")
  note w = wait_DRQ_ok [OF c]
  obtain c' where "in_words P 256 (rq_buff rq) (hd_mem s) c =
      (rq_buff rq + of_nat (2 * 256), with_bytes (hd_mem s) (rq_buff rq) (disk c) pos (2 * 256), c')"
    "disk c' = disk c" "xfer c' = (pos + 2 * 256, 256 * k)"
    using in_words_ok [of 256 c pos k "rq_buff rq" "hd_mem s"] w assms(3,4) by auto
  then show ?thesis using assms(1,2) c w by (auto simp: hd_int_def Let_def rq1_def)
qed

lemma int_write:
  assumes "hd_cur_rq s = Some rq" "hdreq rq = HDREQ_WRITE" "busy (ctl s) = 0" "xfer (ctl s) = (pos, 256 * k)"
    "sect_num rq = of_nat k" "k < 65536"
  shows "\<exists>c'. hd_int P s = s\<lparr>ctl := c', hd_cur_rq :=
      Some (if k = 0 then rq\<lparr>rq_flag := 0\<rparr> else rq\<lparr>sect_num := of_nat (k - 1), rq_buff := rq_buff rq + 512\<rparr>)\<rparr> \<and>
    (if k = 0 then disk c' = disk (ctl s) \<and> busy c' = 0
     else disk c' = img_with (disk (ctl s)) pos (hd_mem s) (rq_buff rq) 512 \<and> xfer c' = (pos + 512, 256 * (k - 1)))"
proof -
  obtain r c where c: "wait_DRQ P (ctl s) = (r, c)" by (cases "wait_DRQ P (ctl s)")
  note w = wait_DRQ_ok [OF c]
  show ?thesis
  proof (cases k)
    case 0
    then have "busy c = 0" using w assms(3) by simp
    then show ?thesis using 0 assms(1,2,5) c w by (auto simp: hd_int_def Let_def)
  next
    case (Suc k')
    obtain r2 c2 where c2: "wait_DRQ P c = (r2, c2)" by (cases "wait_DRQ P c")
    note w2 = wait_DRQ_ok [OF c2]
    obtain c' where "out_words P 256 (rq_buff rq) (hd_mem s) c2 = (rq_buff rq + of_nat (2 * 256), c')"
      "disk c' = img_with (disk c2) pos (hd_mem s) (rq_buff rq) (2 * 256)" "xfer c' = (pos + 2 * 256, 256 * k')"
      using out_words_ok [of 256 c2 pos k' "rq_buff rq" "hd_mem s"] w w2 assms(3,4) Suc by auto
    moreover have "sect_num rq \<noteq> 0"
    proof -
      have "unat (sect_num rq) = Suc k'" unfolding assms(5) Suc by (rule unat_of_nat_small) (use assms(6) Suc in simp)
      then show ?thesis by auto
    qed
    ultimately show ?thesis using assms(1,2,5) c c2 w w2 Suc by (auto simp: hd_int_def Let_def)
  qed
qed

lemma hd_wait_read:
  "hd_cur_rq s = Some rq \<Longrightarrow> hdreq rq = HDREQ_READ \<Longrightarrow> rq_flag rq \<noteq> 0 \<Longrightarrow> sect_num rq = of_nat (Suc k) \<Longrightarrow> Suc k < 65536 \<Longrightarrow>
   xfer (ctl s) = (pos, 256 * Suc k) \<Longrightarrow> Suc k < fuel \<Longrightarrow>
   \<exists>s'. hd_wait P fuel s = Inr s' \<and> hd_mem s' = with_bytes (hd_mem s) (rq_buff rq) (disk (ctl s)) pos (512 * Suc k) \<and>
     disk (ctl s') = disk (ctl s)"
proof (induction k arbitrary: fuel s rq pos)
  case (0 fuel s rq pos)
  define s1 where "s1 = s\<lparr>ctl := p_irq P (ctl s)\<rparr>"
  obtain fuel' where f: "fuel = Suc (Suc fuel')" using 0(7) by (metis less_imp_Suc_add One_nat_def add_Suc)
  obtain c' where c': "hd_int P s1 = s1\<lparr>hd_mem := with_bytes (hd_mem s) (rq_buff rq) (disk (ctl s)) pos 512, ctl := c',
      hd_cur_rq := Some (rq\<lparr>sect_num := 0, rq_buff := rq_buff rq + 512, rq_flag := 0\<rparr>)\<rparr>" "disk c' = disk (ctl s)"
    using int_read [of s1 rq pos 0] 0 irq [of "ctl s"] by (auto simp: s1_def)
  have "hd_wait P fuel s = Inr (hd_int P s1)" using 0(1,3) c'(1) by (simp add: f s1_def)
  then show ?case using c' by simp
next
  case (Suc k fuel s rq pos)
  define s1 where "s1 = s\<lparr>ctl := p_irq P (ctl s)\<rparr>"
  define rq1 where "rq1 = rq\<lparr>sect_num := of_nat (Suc k), rq_buff := rq_buff rq + 512\<rparr>"
  obtain fuel' where f: "fuel = Suc fuel'" "Suc k < fuel'" using Suc.prems(7) by (cases fuel) auto
  have "unat (of_nat (Suc k) :: u16) = Suc k" by (rule unat_of_nat_small) (use Suc.prems(5) in simp)
  then have nz: "(of_nat (Suc k) :: u16) \<noteq> 0" by auto
  obtain c' where c': "hd_int P s1 = s1\<lparr>hd_mem := with_bytes (hd_mem s) (rq_buff rq) (disk (ctl s)) pos 512, ctl := c',
      hd_cur_rq := Some rq1\<rparr>" "disk c' = disk (ctl s)" "xfer c' = (pos + 512, 256 * Suc k)"
    using int_read [of s1 rq pos "Suc k"] Suc.prems(1,2,4,6) irq [of "ctl s"] nz by (auto simp: s1_def rq1_def)
  obtain s' where s': "hd_wait P fuel' (hd_int P s1) = Inr s'"
    "hd_mem s' = with_bytes (with_bytes (hd_mem s) (rq_buff rq) (disk (ctl s)) pos 512) (rq_buff rq + 512) (disk c') (pos + 512) (512 * Suc k)"
    "disk (ctl s') = disk c'"
    using Suc.IH [of "hd_int P s1" rq1 "pos + 512" fuel'] Suc.prems(2,3,5) f(2) c' by (auto simp: rq1_def)
  have "hd_wait P fuel s = Inr s'" using Suc.prems(1,3) s'(1) by (simp add: f(1) s1_def)
  moreover have "hd_mem s' = with_bytes (hd_mem s) (rq_buff rq) (disk (ctl s)) pos (512 + 512 * Suc k)"
    using s'(2) c'(2) with_bytes_app [of 512 "512 * Suc k" "hd_mem s" "rq_buff rq" "disk (ctl s)" pos] Suc.prems(5) by simp
  ultimately show ?case using s'(3) c'(2) by simp
qed

lemma hd_wait_write:
  "hd_cur_rq s = Some rq \<Longrightarrow> hdreq rq = HDREQ_WRITE \<Longrightarrow> rq_flag rq \<noteq> 0 \<Longrightarrow> sect_num rq = of_nat k \<Longrightarrow> k < 65536 \<Longrightarrow>
   xfer (ctl s) = (pos, 256 * k) \<Longrightarrow> k + 1 < fuel \<Longrightarrow>
   \<exists>s'. hd_wait P fuel s = Inr s' \<and> hd_mem s' = hd_mem s \<and> busy (ctl s') = 0 \<and>
     disk (ctl s') = img_with (disk (ctl s)) pos (hd_mem s) (rq_buff rq) (512 * k)"
proof (induction k arbitrary: fuel s rq pos)
  case (0 fuel s rq pos)
  define s1 where "s1 = s\<lparr>ctl := p_irq P (ctl s)\<rparr>"
  obtain fuel' where f: "fuel = Suc (Suc fuel')" using 0(7) by (metis less_imp_Suc_add One_nat_def add_Suc add_0)
  obtain c' where c': "hd_int P s1 = s1\<lparr>ctl := c', hd_cur_rq := Some (rq\<lparr>rq_flag := 0\<rparr>)\<rparr>" "disk c' = disk (ctl s)" "busy c' = 0"
    using int_write [of s1 rq pos 0] 0 irq [of "ctl s"] by (auto simp: s1_def)
  have "hd_wait P fuel s = Inr (hd_int P s1)" using 0(1,3) c'(1) by (simp add: f s1_def)
  then show ?case using c' by (simp add: s1_def)
next
  case (Suc k fuel s rq pos)
  define s1 where "s1 = s\<lparr>ctl := p_irq P (ctl s)\<rparr>"
  define rq1 where "rq1 = rq\<lparr>sect_num := of_nat k, rq_buff := rq_buff rq + 512\<rparr>"
  obtain fuel' where f: "fuel = Suc fuel'" "k + 1 < fuel'" using Suc.prems(7) by (cases fuel) auto
  obtain c' where c': "hd_int P s1 = s1\<lparr>ctl := c', hd_cur_rq := Some rq1\<rparr>"
      "disk c' = img_with (disk (ctl s)) pos (hd_mem s) (rq_buff rq) 512" "xfer c' = (pos + 512, 256 * k)"
    using int_write [of s1 rq pos "Suc k"] Suc.prems(1,2,4-6) irq [of "ctl s"] by (auto simp: s1_def rq1_def)
  obtain s' where s': "hd_wait P fuel' (hd_int P s1) = Inr s'" "hd_mem s' = hd_mem s" "busy (ctl s') = 0"
    "disk (ctl s') = img_with (disk c') (pos + 512) (hd_mem s) (rq_buff rq + 512) (512 * k)"
    using Suc.IH [of "hd_int P s1" rq1 "pos + 512" fuel'] Suc.prems(2,3,5) f(2) c' by (auto simp: rq1_def s1_def)
  have "hd_wait P fuel s = Inr s'" using Suc.prems(1,3) s'(1) by (simp add: f(1) s1_def)
  then show ?case
    using s' c'(2) img_with_app [of "disk (ctl s)" pos "hd_mem s" "rq_buff rq" 512 "512 * k"] by simp
qed

end

lemma unat_ucast_down:
  fixes w :: "'a::len word"
  assumes "unat w < 2 ^ LENGTH('b)"
  shows "unat (ucast w :: 'b::len word) = unat w"
  using assms by (simp add: unsigned_ucast_eq take_bit_nat_eq_self)

context ata begin

lemma request_count:
  assumes "0 < cnt" "unat cnt < 128"
  shows "sect_num (new_request r buff cnt) = of_nat (2 * unat cnt)" "sect_num (new_request r buff cnt) \<noteq> 0"
    "(ucast (sect_num (new_request r buff cnt)) :: u8) \<noteq> 0" "unat (ucast (sect_num (new_request r buff cnt)) :: u8) = 2 * unat cnt"
proof -
  have c: "unat (cnt * 2) = 2 * unat cnt" using assms(2) by (simp add: unat_word_ariths)
  have s: "sect_num (new_request r buff cnt) = ucast (cnt * 2)"
    by (simp add: new_request_def LOGIC_BLOCK_SIZE_def HD_SECTOR_SIZE_def)
  have u: "unat (ucast (cnt * 2) :: u16) = 2 * unat cnt"
    using unat_ucast_down [of "cnt * 2", where 'b = 16] assms(2) c by simp
  then show 1: "sect_num (new_request r buff cnt) = of_nat (2 * unat cnt)" by (simp only: s word_of_unat)
  show 2: "unat (ucast (sect_num (new_request r buff cnt)) :: u8) = 2 * unat cnt"
    using unat_ucast_down [of "ucast (cnt * 2) :: u16", where 'b = 8] assms(2) u s by simp
  have "0 < unat cnt" using assms(1) by (simp add: word_less_nat_alt)
  then show "sect_num (new_request r buff cnt) \<noteq> 0" "(ucast (sect_num (new_request r buff cnt)) :: u8) \<noteq> 0"
    using u 2 unfolding s by auto
qed

lemma hd_read_ok:
  assumes g: "same_geometry info hds spt" and a: "even buff" "0 < cnt" "unat cnt < 128"
    and f: "busy (ctl s) < fuel" "2 * unat cnt < fuel"
  shows "\<exists>s'. hd_drv_read P fuel info part addr buff cnt s = Inr (0, s') \<and> hd_cur_rq s' = None \<and>
    hd_mem s' = with_bytes (hd_mem s) buff (disk (ctl s)) (512 * block_lba info part addr) (1024 * unat cnt) \<and>
    disk (ctl s') = disk (ctl s)"
proof -
  define rq0 where "rq0 = new_request HDREQ_READ buff cnt"
  note n = request_count [OF a(2,3), of HDREQ_READ buff, folded rq0_def]
  obtain rq where rq: "hd_partsec2chs info part rq0 (addr * 2) = Inr rq" "rq_buff rq = buff" "sect_num rq = sect_num rq0"
    "hdreq rq = HDREQ_READ" "rq_lba hds spt rq = block_lba info part addr"
    by (rule partsec2chs_ok [OF g, of part rq0 "addr * 2" addr]) (auto simp: rq0_def new_request_def)
  obtain c where c: "hd_waitforfree P fuel (ctl s) = Inr c" "busy c = 0" "disk c = disk (ctl s)"
    using waitforfree_ok [OF f(1)] by blast
  define c1 where "c1 = hd_select P rq c"
  define c2 where "c2 = p_outb P HD_CMD_READ PORT_HD_STAT_COMMAND c1"
  have c1: "busy c1 = 0" "disk c1 = disk (ctl s)" "chs_lba hds spt (regs c1) = block_lba info part addr"
    "sect_count (regs c1) = 2 * unat cnt"
    using select_ok [of rq c] c rq(3,5) n(3,4) by (simp_all add: c1_def sect_count_def)
  have c2: "disk c2 = disk (ctl s)" "xfer c2 = (512 * block_lba info part addr, 256 * (2 * unat cnt))"
    using command [OF c1(1) _ c2_def] c1 by simp_all
  have "0 < unat cnt" using a(2) by (simp add: word_less_nat_alt)
  then obtain k where k: "2 * unat cnt = Suc k" by (cases "2 * unat cnt") auto
  define s1 where "s1 = s\<lparr>ctl := c2, hd_cur_rq := Some (rq\<lparr>rq_flag := 1\<rparr>)\<rparr>"
  obtain s' where s': "hd_wait P fuel s1 = Inr s'"
    "hd_mem s' = with_bytes (hd_mem s) buff (disk (ctl s)) (512 * block_lba info part addr) (512 * Suc k)"
    "disk (ctl s') = disk (ctl s)"
    using hd_wait_read [of s1 "rq\<lparr>rq_flag := 1\<rparr>" k "512 * block_lba info part addr" fuel] rq(2-4) n(1) k a(3) f(2) c2
    by (auto simp: s1_def)
  have m: "buff mod 2 = 0" using a(1) by (simp add: even_iff_mod_2_eq_zero)
  have two: "LOGIC_BLOCK_SIZE div HD_SECTOR_SIZE = 2" by (simp add: LOGIC_BLOCK_SIZE_def HD_SECTOR_SIZE_def)
  have "hd_drv_read P fuel info part addr buff cnt s = Inr (0, s'\<lparr>hd_cur_rq := None\<rparr>)"
    using rq(1) c(1) s'(1)
    by (simp add: hd_drv_read_def m two Let_def rq0_def [symmetric] c1_def [symmetric] c2_def [symmetric] s1_def [symmetric])
  moreover have "512 * Suc k = 1024 * unat cnt" using k by simp
  ultimately show ?thesis using s'(2,3) by auto
qed

lemma write_retry_ok:
  assumes "busy c < fuel" "0 < n"
  shows "\<exists>c'. hd_drv_write_retry P fuel n rq c = Inr c' \<and> busy c' = 0 \<and> disk c' = disk c \<and>
    xfer c' = (512 * rq_lba hds spt rq, 256 * sect_count (regs (hd_select P rq c)))"
proof -
  obtain n' where n': "n = Suc n'" using assms(2) by (cases n) auto
  obtain c0 where c0: "hd_waitforfree P fuel c = Inr c0" "busy c0 = 0" "disk c0 = disk c"
    using waitforfree_ok [OF assms(1)] by blast
  define c1 where "c1 = hd_select P rq c0"
  define c2 where "c2 = p_outb P HD_CMD_WRITE PORT_HD_STAT_COMMAND c1"
  have c1: "busy c1 = 0" "disk c1 = disk c" "chs_lba hds spt (regs c1) = rq_lba hds spt rq"
    "sect_count (regs c1) = sect_count (regs (hd_select P rq c))"
    using select_ok [of rq c0] select_ok [of rq c] c0 by (simp_all add: c1_def sect_count_def)
  have c2: "disk c2 = disk c" "busy c2 < 100000" "xfer c2 = (512 * rq_lba hds spt rq, 256 * sect_count (regs c1))"
    using command [OF c1(1) _ c2_def] c1 by simp_all
  obtain r c3 where c3: "wait_DRQ P c2 = (r, c3)" by (cases "wait_DRQ P c2")
  have "0 < sect_count (regs c1)" by (auto simp: sect_count_def unat_gt_0)
  then have "r = 0" "disk c3 = disk c" "busy c3 = 0" "xfer c3 = xfer c2" using wait_DRQ_ok [OF c3] c2 by simp_all
  moreover from this have "hd_drv_write_retry P fuel n rq c = Inr c3"
    using c0(1) c3 by (simp add: n' Let_def c1_def [symmetric] c2_def [symmetric])
  ultimately show ?thesis using c2(3) c1(4) by auto
qed

lemma hd_write_ok:
  assumes g: "same_geometry info hds spt" and a: "even buff" "0 < cnt" "unat cnt < 128"
    and f: "busy (ctl s) < fuel" "2 * unat cnt < fuel"
  shows "\<exists>s'. hd_drv_write P fuel info part addr buff cnt s = Inr (0, s') \<and> hd_cur_rq s' = None \<and>
    hd_mem s' = hd_mem s \<and> busy (ctl s') = 0 \<and>
    disk (ctl s') = img_with (disk (ctl s)) (512 * block_lba info part addr) (hd_mem s) buff (1024 * unat cnt)"
proof -
  define rq0 where "rq0 = new_request HDREQ_WRITE buff cnt"
  note n = request_count [OF a(2,3), of HDREQ_WRITE buff, folded rq0_def]
  obtain rq where rq: "hd_partsec2chs info part rq0 (addr * 2) = Inr rq" "rq_buff rq = buff" "sect_num rq = sect_num rq0"
    "hdreq rq = HDREQ_WRITE" "rq_lba hds spt rq = block_lba info part addr"
    by (rule partsec2chs_ok [OF g, of part rq0 "addr * 2" addr]) (auto simp: rq0_def new_request_def)
  define pos where "pos = 512 * block_lba info part addr"
  have "sect_count (regs (hd_select P rq (ctl s))) = 2 * unat cnt"
    using select_ok [of rq "ctl s"] rq(3) n(3,4) by (simp add: sect_count_def)
  then obtain c where c: "hd_drv_write_retry P fuel fuel rq (ctl s) = Inr c" "busy c = 0" "disk c = disk (ctl s)"
    "xfer c = (pos, 256 * (2 * unat cnt))"
    using write_retry_ok [OF f(1), of fuel rq] f(2) rq(5) by (auto simp: pos_def)
  have "0 < unat cnt" using a(2) by (simp add: word_less_nat_alt)
  then obtain k where k: "2 * unat cnt = Suc k" by (cases "2 * unat cnt") auto
  obtain c1 where c1: "out_words P 256 buff (hd_mem s) c = (buff + of_nat (2 * 256), c1)"
    "disk c1 = img_with (disk (ctl s)) pos (hd_mem s) buff 512" "xfer c1 = (pos + 512, 256 * k)"
    using out_words_ok [of 256 c pos k buff "hd_mem s"] c(2-4) k by auto
  define rq1 where "rq1 = rq\<lparr>rq_flag := 1, sect_num := sect_num rq - 1, rq_buff := buff + of_nat (2 * 256)\<rparr>"
  define s1 where "s1 = s\<lparr>ctl := c1, hd_cur_rq := Some rq1\<rparr>"
  have sn: "sect_num rq1 = of_nat k" using n(1) rq(3) by (simp add: rq1_def k)
  obtain s' where s': "hd_wait P fuel s1 = Inr s'" "hd_mem s' = hd_mem s" "busy (ctl s') = 0"
    "disk (ctl s') = img_with (disk c1) (pos + 512) (hd_mem s) (rq_buff rq1) (512 * k)"
    using hd_wait_write [of s1 rq1 k "pos + 512" fuel] sn rq(4) k a(3) f(2) c1(3)
    by (auto simp: s1_def rq1_def)
  have m: "buff mod 2 = 0" using a(1) by (simp add: even_iff_mod_2_eq_zero)
  have two: "LOGIC_BLOCK_SIZE div HD_SECTOR_SIZE = 2" by (simp add: LOGIC_BLOCK_SIZE_def HD_SECTOR_SIZE_def)
  have "hd_drv_write P fuel info part addr buff cnt s = Inr (0, s'\<lparr>hd_cur_rq := None\<rparr>)"
    using rq(1,2) c(1) c1(1) s'(1)
    by (simp add: hd_drv_write_def m two Let_def rq0_def [symmetric]) (simp add: s1_def rq1_def)
  moreover have "disk (ctl s') = img_with (disk (ctl s)) pos (hd_mem s) buff (1024 * unat cnt)"
  proof -
    have "512 + 512 * k = 1024 * unat cnt" using k by simp
    then show ?thesis using s'(4) c1(2) img_with_app [of "disk (ctl s)" pos "hd_mem s" buff 512 "512 * k"] by (simp add: rq1_def)
  qed
  ultimately show ?thesis using s'(2,3) by (auto simp: pos_def)
qed

end

section \<open>Files on the disk\<close>

text \<open>The driver as the file system sees it, and the bytes of a partition.\<close>

definition hd_dread ::
  "'c hdports \<Rightarrow> nat \<Rightarrow> hd_info \<Rightarrow> hd_dptentry \<Rightarrow> 'c \<Rightarrow> u32 \<Rightarrow> u32 \<Rightarrow> u32 \<Rightarrow> mem \<Rightarrow> mem" where
  "hd_dread P fuel info part c addr buff cnt m =
     (case hd_drv_read P fuel info part addr buff cnt \<lparr>hd_mem = m, hd_cur_rq = None, ctl = c\<rparr> of
        Inl _ \<Rightarrow> m
      | Inr (_, s) \<Rightarrow> hd_mem s)"

definition part_byte :: "hd_info \<Rightarrow> hd_dptentry \<Rightarrow> (nat \<Rightarrow> u8) \<Rightarrow> u32 \<Rightarrow> nat \<Rightarrow> u8" where
  "part_byte info part img addr d = img (512 * block_lba info part addr + d)"

locale hd_dev = ata +
  fixes fuel :: nat and info :: hd_info and part :: hd_dptentry and c0 :: 'a
  assumes geometry: "same_geometry info hds spt" and in_time: "busy c0 < fuel" "8 < fuel"
begin

lemma dread_ok:
  assumes "0 < n" "1024 * unat n \<le> 4096" "even buff"
  shows "hd_dread P fuel info part c0 addr buff n m x =
    (if unat (x - buff) < 1024 * unat n then part_byte info part (disk c0) addr (unat (x - buff)) else m x)"
  using hd_read_ok [OF geometry assms(3,1), of "\<lparr>hd_mem = m, hd_cur_rq = None, ctl = c0\<rparr>" fuel part addr] assms(2) in_time
  by (auto simp: hd_dread_def with_bytes_def part_byte_def)

end

sublocale hd_dev \<subseteq> dev: block_dev "hd_dread P fuel info part c0" "part_byte info part (disk c0)"
  by unfold_locales (rule dread_ok)

section \<open>A model of the controller\<close>

text \<open>
  A drive of 16 heads and 63 sectors per track, as its programming interface is documented: it is busy
  for three reads of the status after a command and after each sector.
\<close>

record ata_state =
  a_disk :: "nat \<Rightarrow> u8"
  a_regs :: "u16 \<Rightarrow> u8"
  a_busy :: nat
  a_xfer :: "nat \<times> nat"

definition ata_inb :: "u16 \<Rightarrow> ata_state \<Rightarrow> u8 \<times> ata_state" where
  "ata_inb p c =
     (if p = PORT_HD_STAT_COMMAND then
        (if a_busy c = 0 then if 0 < snd (a_xfer c) then 0x58 else 0x50 else 0x80, c\<lparr>a_busy := a_busy c - 1\<rparr>)
      else (a_regs c p, c))"

definition ata_outb :: "u8 \<Rightarrow> u16 \<Rightarrow> ata_state \<Rightarrow> ata_state" where
  "ata_outb v p c =
     (if p \<noteq> PORT_HD_STAT_COMMAND then c\<lparr>a_regs := (a_regs c)(p := v)\<rparr>
      else if a_busy c = 0 \<and> v \<in> {HD_CMD_READ, HD_CMD_WRITE} then
        c\<lparr>a_busy := 3, a_xfer := (512 * chs_lba 16 63 (a_regs c), 256 * sect_count (a_regs c))\<rparr>
      else c)"

definition ata_next :: "ata_state \<Rightarrow> ata_state" where
  "ata_next c = c\<lparr>a_xfer := (fst (a_xfer c) + 2, snd (a_xfer c) - 1),
     a_busy := (if (snd (a_xfer c) - 1) mod 256 = 0 then 3 else 0)\<rparr>"

definition ata_ports :: "ata_state hdports" where
  "ata_ports = \<lparr>p_inb = ata_inb, p_outb = ata_outb,
     p_inw = (\<lambda>p c. (word_at (a_disk c) (fst (a_xfer c)), ata_next c)),
     p_outw = (\<lambda>w p c. ata_next (c\<lparr>a_disk := (a_disk c)(fst (a_xfer c) := ucast w,
                                              fst (a_xfer c) + 1 := ucast (drop_bit 8 w))\<rparr>)),
     p_irq = (\<lambda>c. c\<lparr>a_busy := 0\<rparr>)\<rparr>"

definition ata_idle :: "(nat \<Rightarrow> u8) \<Rightarrow> ata_state" where
  "ata_idle img = \<lparr>a_disk = img, a_regs = (\<lambda>_. 0), a_busy = 0, a_xfer = (0, 0)\<rparr>"

lemma status_bits: "bit (0x58 :: u8) 6" "bit (0x58 :: u8) 3" "bit (0x50 :: u8) 6" "\<not> bit (0x50 :: u8) 3"
  "\<not> bit (0x80 :: u8) 6" "\<not> bit (0x80 :: u8) 3"
  by (simp_all add: bit_numeral_rec bit_iff_odd)

interpretation drive: ata ata_ports 16 63 a_disk a_regs a_busy a_xfer
  by unfold_locales
    (auto simp: ata_ports_def ata_inb_def ata_outb_def ata_next_def task_ports_def hd_ports status_bits split: if_splits)

definition geo_16_63 :: hd_info where
  "geo_16_63 = \<lparr>n_header = 16, n_sect = 63\<rparr>"

lemma geo_16_63: "same_geometry geo_16_63 16 63"
  by (simp add: same_geometry_def geo_16_63_def)

interpretation part_dev: hd_dev ata_ports 16 63 a_disk a_regs a_busy a_xfer 100 geo_16_63 part "ata_idle img" for part img
  by unfold_locales (simp_all add: geo_16_63 ata_idle_def)

section \<open>Properties\<close>

text \<open>
  The conversion to cylinder, head and sector. For a sector that the geometry reaches, the request
  selects, by the standard formula, the sector of the disk that is the given one of the partition.
\<close>

lemma partsec2chs_exact:
  assumes "same_geometry info hds spt" "unat (sec + start_logicsect part) < 65536 * hds * spt"
  shows "\<exists>rq'. hd_partsec2chs info part rq sec = Inr rq' \<and>
    (unat (cyl_start rq') * hds + unat (head_start rq' AND 15)) * spt + unat (sect_start rq') - 1 = unat (sec + start_logicsect part)"
  by (rule partsec2chs_ok [OF assms(1), of part rq sec 0]) (use assms(2) in \<open>auto simp: rq_lba_def\<close>)




lemma free_two: "pages (free_blocks two_lists_of) \<subseteq> {0} \<union> {256..<512}"
  "{256, 257} \<subseteq> pages (free_blocks two_lists_of) \<inter> area_pages mm_two MMAREA_NORMAL"
proof -
  have n: "(1 :: nat) < MMAREA_NUM" "(0 :: nat) < BUDDY_RANKNUM" "(8 :: nat) < BUDDY_RANKNUM"
    by (simp_all add: MMAREA_NUM_def BUDDY_RANKNUM_def)
  have fb: "x \<in> free_blocks two_lists_of \<longleftrightarrow> x \<in> {(0, 0), (256, 8)}" for x
    using n unfolding free_blocks_def in_two_lists by (cases x) auto
  show "pages (free_blocks two_lists_of) \<subseteq> {0} \<union> {256..<512}"
    unfolding set_eqI [OF fb] by (auto simp: block_def)
  have "{256, 257} \<subseteq> block 256 8" by (auto simp: block_def)
  then have "{256, 257} \<subseteq> pages (free_blocks two_lists_of)"
    using fb [of "(256, 8)"] subset_trans [OF _ block_pages] by blast
  moreover have "{256, 257} \<subseteq> area_pages mm_two MMAREA_NORMAL"
    by (auto simp: area_pages_def mm_two_def mm_in_def page2pa_def MMAREA_NORMAL_def)
  ultimately show "{256, 257} \<subseteq> pages (free_blocks two_lists_of) \<inter> area_pages mm_two MMAREA_NORMAL" by blast
qed

definition small_file :: fs_inode where
  "small_file = zero_inode\<lparr>i_size := 2000, i_block := 100 # 101 # replicate 13 0\<rparr>"

definition info_1k :: ext2_info where
  "info_1k = \<lparr>fsparam = 0x1000, e_sb = 0x1000, grp_desc = 0x1400, fsblock_buff01 = 0x1800, fsblock_buff02 = 0x1C00,
     blk_size = 1024, inode_per_block = 8, curdir_idx = 0,
     dentry_buf = (\<lambda>_. \<lparr>d_name = [], d_inode_idx = 2, d_inode = zero_inode\<rparr>)\<rparr>"

lemma small_file_readable: "readable info_1k small_file 0x800000 (pages (free_blocks two_lists_of)) mm_two" "n_blocks info_1k small_file = 2"
proof -
  show nb: "n_blocks info_1k small_file = 2" by (simp add: n_blocks_def info_1k_def small_file_def)
  have "card {256 :: nat, 257} \<le> card (pages (free_blocks two_lists_of) \<inter> area_pages mm_two MMAREA_NORMAL)"
    by (rule card_mono [OF _ free_two(2)]) (auto intro: finite_subset [OF free_two(1)])
  then have "index_room 2 mm_two (pages (free_blocks two_lists_of))"
    by (simp add: index_room_def mm_two_def mm_in_def)
  moreover have "buff_ok info_1k 0x800000 2 (pages (free_blocks two_lists_of))"
    unfolding buff_ok_def
  proof (intro conjI allI impI notI)
    fix x :: u32
    assume x: "unat (x - 0x800000) < 2 * unat (blk_size info_1k)" "unat x div 4096 \<in> pages (free_blocks two_lists_of)"
    have "x = 0x800000 + (x - 0x800000)" by simp
    moreover have "unat (0x800000 + (x - 0x800000)) = 0x800000 + unat (x - 0x800000)"
      by (subst unat_add_no_wrap) (use x(1) in \<open>simp_all add: info_1k_def\<close>)
    ultimately have "0x800000 \<le> unat x" by simp
    moreover have "unat x div 4096 < 512" using x(2) free_two(1) by auto
    ultimately show False by simp
  qed simp
  ultimately show "readable info_1k small_file 0x800000 (pages (free_blocks two_lists_of)) mm_two"
    by (simp add: readable_def nb) (simp add: blk_ok_def info_1k_def small_file_def)
qed


section \<open>The partition table\<close>

datatype hd_device = HdWhole nat | HdPart nat

definition gethd_dev :: "u8 \<Rightarrow> hd_device res" where
  "gethd_dev part =
     (if part = 0xF0 then Inr (HdWhole 0)
      else if part = 0xF1 then Inr (HdWhole 1)
      else if unat part < HD_PDTENTRY_NUM then Inr (HdPart (unat part))
      else Inl Fault)"

text \<open>The partition that stands for the whole disk.\<close>

definition logictotalhd :: hd_dptentry where
  "logictotalhd = \<lparr>boot_ind = 0, sys_ind = 0, start_logicsect = 0, n_logicsect = 0\<rparr>"

definition pdt_entry :: "mem \<Rightarrow> u32 \<Rightarrow> hd_dptentry" where
  "pdt_entry m a = \<lparr>boot_ind = m a, sys_ind = m (a + 4), start_logicsect = ld32 m (a + 8), n_logicsect = ld32 m (a + 12)\<rparr>"

text \<open>\<open>dread\<close> reads the whole disk. The page is used without a test for \<^verbatim>\<open>NULL\<close>.\<close>

definition hd_readpdt ::
  "(u32 \<Rightarrow> u32 \<Rightarrow> u32 \<Rightarrow> mem \<Rightarrow> mem) \<Rightarrow> mmstate \<Rightarrow> (hd_dptentry list \<times> mmstate) res" where
  "hd_readpdt dread s =
     bindE (page_alloc 0 MMAREA_NORMAL False s) (\<lambda>(p, s).
     (case p of
        None \<Rightarrow> Inl Fault
      | Some tmppage \<Rightarrow>
          let s = s\<lparr>ram := dread 0 (of_nat tmppage) 1 (ram s)\<rparr>;
              pdt = map (\<lambda>i. pdt_entry (ram s) (of_nat tmppage + (512 - 2 - 4 * 16) + 16 * of_nat i)) [0..<HD_PDTENTRY_NUM]
          in bindE (page_free tmppage s) (\<lambda>s. Inr (pdt, s))))"

section \<open>\<^verbatim>\<open>hdop\<close>\<close>

text \<open>
  \<open>part_fs\<close> is the mounted file system of each partition, by its index in \<^verbatim>\<open>fsdesc_array\<close>, and \<open>cursel\<close>
  the selected partition. The outcome says which message was printed.
\<close>

record hdparts =
  part_fs :: "nat \<Rightarrow> nat option"
  cursel_partition :: "nat option"

datatype hdop_msg = HdHelp | HdTable | HdMountTable | HdBadIndex | HdMounted | HdMountFailed | HdTodo
  | HdBadNumber | HdNotMounted | HdSelected | HdReadDone | HdWriteDone | HdUnknown

fun try_mount ::
  "(nat \<Rightarrow> bool) \<Rightarrow> (nat \<Rightarrow> nat \<Rightarrow> 's \<Rightarrow> int \<times> 's) \<Rightarrow> nat list \<Rightarrow> nat \<Rightarrow> hdparts \<times> 's \<Rightarrow> hdop_msg \<times> hdparts \<times> 's" where
  "try_mount reg mount [] d (hp, s) = (HdMountFailed, hp, s)"
| "try_mount reg mount (i # is) d (hp, s) =
     (if \<not> reg i then try_mount reg mount is d (hp, s)
      else let (ret, s) = mount i d s
           in if ret = 0 then (HdMounted, hp\<lparr>part_fs := (part_fs hp)(d := Some i), cursel_partition := Some d\<rparr>, s)
              else try_mount reg mount is d (hp, s))"

definition hdop_mount ::
  "(nat \<Rightarrow> bool) \<Rightarrow> (nat \<Rightarrow> nat \<Rightarrow> 's \<Rightarrow> int \<times> 's) \<Rightarrow> (nat \<Rightarrow> nat \<Rightarrow> 's \<Rightarrow> 's) \<Rightarrow> nat \<Rightarrow> cstr \<Rightarrow>
   hdparts \<times> 's \<Rightarrow> hdop_msg \<times> hdparts \<times> 's" where
  "hdop_mount reg mount unmount n_supportfs arg = (\<lambda>(hp, s).
     let d = str2num arg
     in if 3 < d then (HdBadIndex, hp, s)
        else let s = (case part_fs hp (unat d) of None \<Rightarrow> s | Some fs \<Rightarrow> unmount fs (unat d) s)
             in try_mount reg mount [0..<n_supportfs] (unat d) (hp, s))"

definition hdop_select :: "cstr \<Rightarrow> hdparts \<Rightarrow> hdop_msg \<times> hdparts" where
  "hdop_select arg hp =
     (let d = str2num arg
      in if 3 < d then (HdBadIndex, hp)
         else if part_fs hp (unat d) = None then (HdNotMounted, hp)
         else (HdSelected, hp\<lparr>cursel_partition := Some (unat d)\<rparr>))"

definition is_opt :: "string \<Rightarrow> cstr \<Rightarrow> bool" where
  "is_opt str arg \<longleftrightarrow> memcmp (take (length str) arg) (map chr str) = 0"

text \<open>\<open>rd\<close> and \<open>wr\<close> are the driver of the whole disk: the block, the address, and a count of one.\<close>

definition cmd_hdop_opfunc ::
  "(nat \<Rightarrow> bool) \<Rightarrow> (nat \<Rightarrow> nat \<Rightarrow> 's \<Rightarrow> int \<times> 's) \<Rightarrow> (nat \<Rightarrow> nat \<Rightarrow> 's \<Rightarrow> 's) \<Rightarrow> nat \<Rightarrow>
   (u32 \<Rightarrow> u32 \<Rightarrow> u32 \<Rightarrow> 's \<Rightarrow> 's res) \<Rightarrow> (u32 \<Rightarrow> u32 \<Rightarrow> u32 \<Rightarrow> 's \<Rightarrow> 's res) \<Rightarrow>
   cstr list \<Rightarrow> hdparts \<Rightarrow> 's \<Rightarrow> (hdop_msg \<times> hdparts \<times> 's) res" where
  "cmd_hdop_opfunc reg mount unmount n_supportfs rd wr argv hp s =
     (let argc = length argv
      in if argc = 1 then Inr (HdHelp, hp, s)
         else if argc = 0 then Inl Fault
         else if is_opt ''-d'' (argv ! 1) then Inr (HdTable, hp, s)
         else if is_opt ''-m'' (argv ! 1) then
           (if argc = 2 then Inr (HdMountTable, hp, s)
            else Inr (hdop_mount reg mount unmount n_supportfs (argv ! 2) (hp, s)))
         else if is_opt ''-u'' (argv ! 1) then Inr (HdTodo, hp, s)
         else if is_opt ''-s'' (argv ! 1) then
           (if argc \<noteq> 3 then Inr (HdBadNumber, hp, s)
            else let (msg, hp) = hdop_select (argv ! 2) hp in Inr (msg, hp, s))
         else if is_opt ''-r'' (argv ! 1) then
           (if argc \<noteq> 4 then Inr (HdBadNumber, hp, s)
            else bindE (rd (str2num (argv ! 2)) (str2num (argv ! 3)) 1 s) (\<lambda>s. Inr (HdReadDone, hp, s)))
         else if is_opt ''-w'' (argv ! 1) then
           (if argc \<noteq> 4 then Inr (HdBadNumber, hp, s)
            else bindE (wr (str2num (argv ! 2)) (str2num (argv ! 3)) 1 s) (\<lambda>s. Inr (HdWriteDone, hp, s)))
         else Inr (HdUnknown, hp, s))"

text \<open>
  A failed mount leaves the file system that was unmounted before as the mounted one, whatever
  the unmounting released.
\<close>

lemma try_mount_fails:
  "fst (try_mount reg mount is d (hp, s)) = HdMountFailed \<Longrightarrow> fst (snd (try_mount reg mount is d (hp, s))) = hp"
  by (induction "is" arbitrary: s) (auto split: prod.splits if_splits)

lemma mount_fails_stale:
  "fst (hdop_mount reg mount unmount n arg (hp, s)) = HdMountFailed \<Longrightarrow>
   fst (snd (hdop_mount reg mount unmount n arg (hp, s))) = hp"
  by (auto simp: hdop_mount_def Let_def try_mount_fails split: if_splits)

end
