(* ===== verification/Module.thy ===== *)
theory Module
  imports Ext2
begin

text \<open>
  Loadable modules, \<^verbatim>\<open>core/module.c\<close>: an ELF object file is read into pages, its symbols are resolved
  against the exported ones, its sections are relocated in place, and its functions are found by the names of
  sections. The file is bytes in memory and every table of it is read where the code reads it, so
  that overlapping tables are possible; the theorems say when they are apart.
\<close>

section \<open>The code\<close>

subsection \<open>The file format\<close>

definition ET_REL :: u16 where "ET_REL = 1"
definition SHT_SYMTAB :: u32 where "SHT_SYMTAB = 2"
definition SHT_REL :: u32 where "SHT_REL = 9"
definition SHF_ALLOC :: u32 where "SHF_ALLOC = 2"
definition SHN_UNDEF :: u16 where "SHN_UNDEF = 0"
definition SHN_ABS :: u16 where "SHN_ABS = 0xFFF1"
definition SHN_COMMON :: u16 where "SHN_COMMON = 0xFFF2"
definition STB_WEAK :: u8 where "STB_WEAK = 2"
definition R_386_32 :: u8 where "R_386_32 = 1"
definition R_386_PC32 :: u8 where "R_386_PC32 = 2"
definition sizeof_Sym :: u32 where "sizeof_Sym = 16"
definition sizeof_Rel :: u32 where "sizeof_Rel = 8"

definition e_type :: "mem \<Rightarrow> u32 \<Rightarrow> u16" where "e_type m h = ld16 m (h + 16)"
definition e_shoff :: "mem \<Rightarrow> u32 \<Rightarrow> u32" where "e_shoff m h = ld32 m (h + 32)"
definition e_shnum :: "mem \<Rightarrow> u32 \<Rightarrow> u16" where "e_shnum m h = ld16 m (h + 48)"
definition e_shstrndx :: "mem \<Rightarrow> u32 \<Rightarrow> u16" where "e_shstrndx m h = ld16 m (h + 50)"

text \<open>The address of a section header, and its fields.\<close>

definition shent :: "u32 \<Rightarrow> u32 \<Rightarrow> u32" where "shent shdr i = shdr + 40 * i"
definition sh_name :: "mem \<Rightarrow> u32 \<Rightarrow> u32" where "sh_name m h = ld32 m h"
definition sh_type :: "mem \<Rightarrow> u32 \<Rightarrow> u32" where "sh_type m h = ld32 m (h + 4)"
definition sh_flags :: "mem \<Rightarrow> u32 \<Rightarrow> u32" where "sh_flags m h = ld32 m (h + 8)"
definition sh_offset :: "mem \<Rightarrow> u32 \<Rightarrow> u32" where "sh_offset m h = ld32 m (h + 16)"
definition sh_size :: "mem \<Rightarrow> u32 \<Rightarrow> u32" where "sh_size m h = ld32 m (h + 20)"
definition sh_link :: "mem \<Rightarrow> u32 \<Rightarrow> u32" where "sh_link m h = ld32 m (h + 24)"
definition sh_info :: "mem \<Rightarrow> u32 \<Rightarrow> u32" where "sh_info m h = ld32 m (h + 28)"
definition sh_entsize :: "mem \<Rightarrow> u32 \<Rightarrow> u32" where "sh_entsize m h = ld32 m (h + 36)"

definition st_name :: "mem \<Rightarrow> u32 \<Rightarrow> u32" where "st_name m s = ld32 m s"
definition st_value :: "mem \<Rightarrow> u32 \<Rightarrow> u32" where "st_value m s = ld32 m (s + 4)"
definition st_info :: "mem \<Rightarrow> u32 \<Rightarrow> u8" where "st_info m s = m (s + 12)"
definition st_shndx :: "mem \<Rightarrow> u32 \<Rightarrow> u16" where "st_shndx m s = ld16 m (s + 14)"

definition r_offset :: "mem \<Rightarrow> u32 \<Rightarrow> u32" where "r_offset m r = ld32 m r"
definition r_info :: "mem \<Rightarrow> u32 \<Rightarrow> u32" where "r_info m r = ld32 m (r + 4)"

definition st32 :: "mem \<Rightarrow> u32 \<Rightarrow> u32 \<Rightarrow> mem" where
  "st32 m a v = m(a := ucast v, a + 1 := ucast (drop_bit 8 v), a + 2 := ucast (drop_bit 16 v),
                  a + 3 := ucast (drop_bit 24 v))"

text \<open>A string in memory, up to its NUL; strings are read up to 64K.\<close>

fun cstr_at :: "nat \<Rightarrow> mem \<Rightarrow> u32 \<Rightarrow> cstr" where
  "cstr_at 0 m a = []"
| "cstr_at (Suc n) m a = (if m a = 0 then [0] else m a # cstr_at n m (a + 1))"

definition str_at :: "mem \<Rightarrow> u32 \<Rightarrow> cstr" where
  "str_at m a = cstr_at 65535 m a"

subsection \<open>Symbols\<close>

record ksyminfo =
  ks_name :: cstr
  ks_addr :: u32

text \<open>\<open>modbuff\<close> is the address of the file, \<open>m_name\<close>, \<open>mod_init\<close> and \<open>mod_uninit\<close> are addresses, 0 is \<^verbatim>\<open>NULL\<close>.\<close>

record kmodule =
  m_name :: u32
  modbuff :: u32
  m_size :: u32
  ocpy_rk :: u32
  mod_init :: u32
  mod_uninit :: u32
  sect_name :: u32
  symtbl :: u32
  symname :: u32

definition zero_module :: kmodule where
  "zero_module = \<lparr>m_name = 0, modbuff = 0, m_size = 0, ocpy_rk = 0, mod_init = 0, mod_uninit = 0,
     sect_name = 0, symtbl = 0, symname = 0\<rparr>"

definition symname_cmp :: "cstr \<Rightarrow> ksyminfo \<Rightarrow> int" where
  "symname_cmp key ks = strcmp key (ks_name ks)"

text \<open>The exported symbols, \<^verbatim>\<open>syminfo_begin\<close> to \<^verbatim>\<open>syminfo_end\<close>, are \<open>syms\<close>.\<close>

definition find_symb :: "ksyminfo list \<Rightarrow> cstr \<Rightarrow> ksyminfo option" where
  "find_symb syms name = map_option (\<lambda>i. syms ! i) (bsearch symname_cmp name syms)"

text \<open>The names of all symbols stand one after the other; \<open>allsym\<close> at \<open>tab\<close> gets their addresses.\<close>

fun allsym_loop :: "nat \<Rightarrow> u32 \<Rightarrow> u32 \<Rightarrow> mem \<Rightarrow> u32 \<times> mem" where
  "allsym_loop 0 tab p m = (p, m)"
| "allsym_loop (Suc n) tab p m =
     (let m = st32 m tab p in allsym_loop n (tab + 4) (p + ucast (strlen (str_at m p)) + 1) m)"

definition symtbl_prep :: "nat \<Rightarrow> nat \<Rightarrow> u32 \<Rightarrow> u32 \<Rightarrow> slabsys \<Rightarrow> (nat \<times> nat \<times> slabsys) res" where
  "symtbl_prep fuel n_allsym namebuff sz s =
     bindE (page_alloc (unat (get_pagerank sz)) MMAREA_NORMAL False (sys_mm s)) (\<lambda>(p, mm).
     (case p of
        None \<Rightarrow> Inl Fault
      | Some tab \<Rightarrow>
          let (e, m) = allsym_loop n_allsym (of_nat tab) namebuff (ram mm)
          in bindE (assertE (e - namebuff = sz)) (\<lambda>_.
             bindE (memcache_create fuel 44 0 (map chr ''kmodule_desc'' @ [0]) (s\<lparr>sys_mm := mm\<lparr>ram := m\<rparr>\<rparr>)) (\<lambda>(c, s).
             (case c of None \<Rightarrow> Inl Die | Some c \<Rightarrow> Inr (tab, c, s))))))"

definition allsym_resolvaddr :: "u32 \<Rightarrow> u32 list \<Rightarrow> u32 list \<Rightarrow> (u32 \<times> u32) res" where
  "allsym_resolvaddr addr allsym_addr allsym =
     bindE (alg_bsch addr allsym_addr) (\<lambda>idx.
     if idx < length allsym_addr \<and> idx < length allsym then Inr (allsym ! idx, allsym_addr ! idx) else Inl Fault)"

fun find_sect :: "nat \<Rightarrow> nat \<Rightarrow> cstr \<Rightarrow> u32 \<Rightarrow> u32 \<Rightarrow> mem \<Rightarrow> int" where
  "find_sect 0 i name namebuf shdr m = - 1"
| "find_sect (Suc n) i name namebuf shdr m =
     (let p = str_at m (namebuf + sh_name m (shent shdr (of_nat i))); namelen = unat (strlen name)
      in if strlen p \<noteq> strlen name then find_sect n (i + 1) name namebuf shdr m
         else if memcmp (take namelen name) (take namelen p) = 0 then int i
         else find_sect n (i + 1) name namebuf shdr m)"

definition findsectbyname :: "kmodule \<Rightarrow> cstr \<Rightarrow> u32 \<Rightarrow> u32 \<Rightarrow> mem \<Rightarrow> int" where
  "findsectbyname md name ehdr shdr m =
     find_sect (unat (e_shnum m ehdr)) 0 name (modbuff md + sh_offset m (shent shdr (sect_name md))) shdr m"

fun find_symtab :: "nat \<Rightarrow> nat \<Rightarrow> u32 \<Rightarrow> mem \<Rightarrow> nat option" where
  "find_symtab 0 i shdr m = None"
| "find_symtab (Suc n) i shdr m =
     (if sh_type m (shent shdr (of_nat i)) = SHT_SYMTAB then Some i else find_symtab n (i + 1) shdr m)"

text \<open>The loop over the symbols; its bound is read from the header in every turn, so it has fuel.\<close>

fun resolve_loop :: "nat \<Rightarrow> ksyminfo list \<Rightarrow> kmodule \<Rightarrow> u32 \<Rightarrow> u32 \<Rightarrow> nat \<Rightarrow> mem \<Rightarrow> (int \<times> mem) res" where
  "resolve_loop 0 syms md shdr stab i m = Inl Stuck"
| "resolve_loop (Suc fuel) syms md shdr stab i m =
     (if unat (sh_size m (shent shdr (symtbl md)) div sizeof_Sym) \<le> i then Inr (0, m)
      else
        let e = stab + 16 * of_nat i; ndx = st_shndx m e
        in if ndx = SHN_UNDEF then
             (case find_symb syms (str_at m (modbuff md + sh_offset m (shent shdr (symname md)) + st_name m e)) of
                Some ks \<Rightarrow> resolve_loop fuel syms md shdr stab (i + 1) (st32 m (e + 4) (ks_addr ks))
              | None \<Rightarrow>
                  if drop_bit 4 (st_info m e) = STB_WEAK then resolve_loop fuel syms md shdr stab (i + 1) m
                  else Inr (- 1, m))
           else if ndx = SHN_COMMON then Inl Die
           else if ndx = SHN_ABS then resolve_loop fuel syms md shdr stab (i + 1) m
           else resolve_loop fuel syms md shdr stab (i + 1)
                  (st32 m (e + 4) (st_value m e + (modbuff md + sh_offset m (shent shdr (ucast ndx))))))"

definition resolve_symb ::
  "nat \<Rightarrow> ksyminfo list \<Rightarrow> u32 \<Rightarrow> u32 \<Rightarrow> kmodule \<Rightarrow> mem \<Rightarrow> (int \<times> kmodule \<times> mem) res" where
  "resolve_symb fuel syms ehdr shdr md m =
     (case find_symtab (unat (e_shnum m ehdr)) 0 shdr m of
        None \<Rightarrow> Inr (- 1, md, m)
      | Some i \<Rightarrow>
          bindE (assertE (sh_entsize m (shent shdr (of_nat i)) = sizeof_Sym)) (\<lambda>_.
          let md = md\<lparr>symtbl := of_nat i, symname := sh_link m (shent shdr (of_nat i))\<rparr>;
              stab = modbuff md + sh_offset m (shent shdr (symtbl md))
          in bindE (resolve_loop fuel syms md shdr stab 1 m) (\<lambda>(r, m). Inr (r, md, m))))"

subsection \<open>Relocation\<close>

fun reloc_loop :: "nat \<Rightarrow> u32 \<Rightarrow> u32 \<Rightarrow> u32 \<Rightarrow> u32 \<Rightarrow> u32 \<Rightarrow> u32 \<Rightarrow> nat \<Rightarrow> mem \<Rightarrow> (int \<times> mem) res" where
  "reloc_loop 0 buf shdr dest relsect rel stab i m = Inl Stuck"
| "reloc_loop (Suc fuel) buf shdr dest relsect rel stab i m =
     (if unat (sh_size m (shent shdr relsect) div sizeof_Rel) \<le> i then Inr (0, m)
      else
        let r = rel + 8 * of_nat i;
            location = buf + sh_offset m (shent shdr dest) + r_offset m r;
            symidx = drop_bit 8 (r_info m r);
            val = st_value m (stab + 16 * symidx)
        in if (ucast (r_info m r) :: u8) = R_386_32 then
             reloc_loop fuel buf shdr dest relsect rel stab (i + 1) (st32 m location (ld32 m location + val))
           else if (ucast (r_info m r) :: u8) = R_386_PC32 then
             reloc_loop fuel buf shdr dest relsect rel stab (i + 1) (st32 m location (ld32 m location + (val - location)))
           else Inr (- 1, m))"

definition relocate_sym_32 :: "nat \<Rightarrow> u32 \<Rightarrow> u32 \<Rightarrow> u32 \<Rightarrow> u32 \<Rightarrow> u32 \<Rightarrow> mem \<Rightarrow> (int \<times> mem) res" where
  "relocate_sym_32 fuel buf shdr dest relsect symsect m =
     bindE (assertE (sh_entsize m (shent shdr relsect) = sizeof_Rel)) (\<lambda>_.
     reloc_loop fuel buf shdr dest relsect (buf + sh_offset m (shent shdr relsect))
       (buf + sh_offset m (shent shdr symsect)) 0 m)"

text \<open>\<^verbatim>\<open>destsect\<close> is a signed integer, and the result of a section is not looked at.\<close>

fun do_reloc_loop :: "nat \<Rightarrow> nat \<Rightarrow> nat \<Rightarrow> u32 \<Rightarrow> u32 \<Rightarrow> u32 \<Rightarrow> mem \<Rightarrow> mem res" where
  "do_reloc_loop fuel 0 i buf ehdr shdr m = Inl Stuck"
| "do_reloc_loop fuel (Suc n) i buf ehdr shdr m =
     (if unat (e_shnum m ehdr) \<le> i then Inr m
      else let h = shent shdr (of_nat i); destsect = sh_info m h
      in if int (unat (e_shnum m ehdr)) \<le> sint destsect then do_reloc_loop fuel n (i + 1) buf ehdr shdr m
         else if sh_flags m (shent shdr destsect) AND SHF_ALLOC = 0 then do_reloc_loop fuel n (i + 1) buf ehdr shdr m
         else if sh_type m h = SHT_REL then
           bindE (relocate_sym_32 fuel buf shdr destsect (of_nat i) (sh_link m h) m) (\<lambda>(_, m).
           do_reloc_loop fuel n (i + 1) buf ehdr shdr m)
         else Inl Die)"

definition do_relocate :: "nat \<Rightarrow> u32 \<Rightarrow> u32 \<Rightarrow> u32 \<Rightarrow> mem \<Rightarrow> (int \<times> mem) res" where
  "do_relocate fuel buf ehdr shdr m =
     bindE (do_reloc_loop fuel fuel 1 buf ehdr shdr m) (\<lambda>m. Inr (0, m))"

subsection \<open>Loading\<close>

text \<open>The magic number as the compiler reads it: an octal escape, which ends the string at once.\<close>

definition ELFHEAD_MAGICNUM :: cstr where
  "ELFHEAD_MAGICNUM = 0 # map chr ''x7fELF'' @ [0]"

definition SECTIONNAME_MODFUNC :: cstr where "SECTIONNAME_MODFUNC = map chr ''.modfunc'' @ [0]"
definition SECTIONNAME_MODNAME :: cstr where "SECTIONNAME_MODNAME = map chr ''.modname'' @ [0]"

text \<open>The table of functions: an address and a type, 0 for the initialisation and 1 for its counterpart.\<close>

fun mod_funcs :: "nat \<Rightarrow> u32 \<Rightarrow> u32 \<Rightarrow> mem \<Rightarrow> kmodule \<Rightarrow> kmodule res" where
  "mod_funcs 0 p e m md = Inl Stuck"
| "mod_funcs (Suc fuel) p e m md =
     (if p < e then
        mod_funcs fuel (p + 8) e m
          (if ld32 m (p + 4) = 0 then md\<lparr>mod_init := ld32 m p\<rparr>
           else if ld32 m (p + 4) = 1 then md\<lparr>mod_uninit := ld32 m p\<rparr>
           else md)
      else Inr md)"

definition modfile_load :: "nat \<Rightarrow> ksyminfo list \<Rightarrow> kmodule \<Rightarrow> mem \<Rightarrow> (int \<times> kmodule \<times> mem) res" where
  "modfile_load fuel syms md m =
     (let ehdr = modbuff md; shdr = modbuff md + e_shoff m ehdr; n = unat (strlen ELFHEAD_MAGICNUM)
      in if memcmp (mem_bytes m ehdr n) (take n ELFHEAD_MAGICNUM) \<noteq> 0 then Inr (- 1, md, m)
         else if e_type m ehdr \<noteq> ET_REL then Inr (- 1, md, m)
         else
           let md = md\<lparr>sect_name := ucast (e_shstrndx m ehdr)\<rparr>
           in bindE (resolve_symb fuel syms ehdr shdr md m) (\<lambda>(r, md, m).
              if r \<noteq> 0 then Inr (- 1, md, m)
              else bindE (do_relocate fuel (modbuff md) ehdr shdr m) (\<lambda>(r, m).
              if r \<noteq> 0 then Inr (- 1, md, m)
              else let idx = findsectbyname md SECTIONNAME_MODNAME ehdr shdr m
                   in if idx < 0 then Inr (- 1, md, m)
                      else
                        let md = md\<lparr>m_name := modbuff md + sh_offset m (shent shdr (of_int idx))\<rparr>;
                            idx = findsectbyname md SECTIONNAME_MODFUNC ehdr shdr m
                        in if idx < 0 then Inr (- 1, md, m)
                           else let p = modbuff md + sh_offset m (shent shdr (of_int idx))
                                in bindE (mod_funcs fuel p (p + sh_size m (shent shdr (of_int idx))) m md) (\<lambda>md.
                                   Inr (0, md, m)))))"

text \<open>
  The modules are structures of the cache \<open>modcache\<close>; \<open>kmodlist\<close> has \<open>None\<close> as its head.
  \<open>rdf\<close> is \<^verbatim>\<open>fs_readfile\<close> on the selected partition, \<open>call\<close> runs a function of a module.
\<close>

record modsys =
  ms_sys :: slabsys
  modcache :: nat
  kmodlist :: "nat option lstore"
  kmods :: "nat \<Rightarrow> kmodule"

definition insmod_faild :: "nat \<Rightarrow> nat \<Rightarrow> modsys \<Rightarrow> modsys res" where
  "insmod_faild fuel p s =
     bindE (if modbuff (kmods s p) \<noteq> 0 then page_free (unat (modbuff (kmods s p))) (sys_mm (ms_sys s))
            else Inr (sys_mm (ms_sys s))) (\<lambda>mm.
     bindE (memcache_free fuel p (caches (ms_sys s) (modcache s))) (\<lambda>c.
     Inr (s\<lparr>ms_sys := (ms_sys s)\<lparr>sys_mm := mm, caches := (caches (ms_sys s))(modcache s := c)\<rparr>\<rparr>)))"

text \<open>The call through \<^verbatim>\<open>mod_init\<close> and the insertion into the list.\<close>

definition insmod_start :: "(u32 \<Rightarrow> modsys \<Rightarrow> (int \<times> modsys) res) \<Rightarrow> nat \<Rightarrow> modsys \<Rightarrow> modsys res" where
  "insmod_start call p s =
     (if mod_init (kmods s p) = 0 then Inl Fault
      else bindE (call (mod_init (kmods s p)) s) (\<lambda>(_, s).
           bindE (list_add_head (Some p) None (kmodlist s)) (\<lambda>h. Inr (s\<lparr>kmodlist := h\<rparr>))))"

definition cmd_insmod_opfunc ::
  "(cstr \<Rightarrow> u32 option \<Rightarrow> mmstate \<Rightarrow> (int \<times> mmstate) res) \<Rightarrow> (u32 \<Rightarrow> modsys \<Rightarrow> (int \<times> modsys) res) \<Rightarrow>
   nat \<Rightarrow> ksyminfo list \<Rightarrow> cstr list \<Rightarrow> modsys \<Rightarrow> modsys res" where
  "cmd_insmod_opfunc rdf call fuel syms argv s =
     (if length argv \<noteq> 2 then Inr s
      else
        bindE (rdf (argv ! 1) None (sys_mm (ms_sys s))) (\<lambda>(filesize, mm).
        let s = s\<lparr>ms_sys := (ms_sys s)\<lparr>sys_mm := mm\<rparr>\<rparr>
        in if filesize < 0 then Inr s
           else
             bindE (memcache_alloc fuel (caches (ms_sys s) (modcache s)) mm) (\<lambda>(q, c, mm).
             let s = s\<lparr>ms_sys := (ms_sys s)\<lparr>sys_mm := mm, caches := (caches (ms_sys s))(modcache s := c)\<rparr>\<rparr>
             in (case q of
                   None \<Rightarrow> Inr s
                 | Some p \<Rightarrow>
                     let rk = get_pagerank (of_int filesize);
                         md = zero_module\<lparr>m_size := of_int filesize, ocpy_rk := rk\<rparr>
                     in bindE (page_alloc (unat rk) MMAREA_NORMAL False mm) (\<lambda>(b, mm).
                        let s = s\<lparr>ms_sys := (ms_sys s)\<lparr>sys_mm := mm\<rparr>\<rparr>
                        in (case b of
                              None \<Rightarrow> insmod_faild fuel p (s\<lparr>kmods := (kmods s)(p := md)\<rparr>)
                            | Some buf \<Rightarrow>
                                let md = md\<lparr>modbuff := of_nat buf\<rparr>
                                in bindE (rdf (argv ! 1) (Some (of_nat buf)) mm) (\<lambda>(n, mm).
                                   bindE (assertE (n = filesize)) (\<lambda>_.
                                   bindE (modfile_load fuel syms md (ram mm)) (\<lambda>(r, md, m).
                                   let s = s\<lparr>ms_sys := (ms_sys s)\<lparr>sys_mm := mm\<lparr>ram := m\<rparr>\<rparr>, kmods := (kmods s)(p := md)\<rparr>
                                   in if r \<noteq> 0 then insmod_faild fuel p s else insmod_start call p s)))))))))"

text \<open>The search of \<^verbatim>\<open>rmmod\<close>; it reads its argument before it looks whether there is one.\<close>

fun find_mod :: "nat \<Rightarrow> cstr \<Rightarrow> nat option option \<Rightarrow> modsys \<Rightarrow> nat option res" where
  "find_mod 0 name p s = Inl Stuck"
| "find_mod (Suc fuel) name None s = Inl Fault"
| "find_mod (Suc fuel) name (Some None) s = Inr None"
| "find_mod (Suc fuel) name (Some (Some p)) s =
     (let pn = str_at (ram (sys_mm (ms_sys s))) (m_name (kmods s p)); n = unat (strlen name)
      in if strlen name \<noteq> strlen pn \<or> memcmp (take n name) (take n pn) \<noteq> 0
         then find_mod fuel name (lnext (kmodlist s (Some p))) s
         else Inr (Some p))"

definition cmd_rmmod_opfunc ::
  "(u32 \<Rightarrow> modsys \<Rightarrow> (int \<times> modsys) res) \<Rightarrow> nat \<Rightarrow> cstr list \<Rightarrow> modsys \<Rightarrow> modsys res" where
  "cmd_rmmod_opfunc call fuel argv s =
     (if length argv < 2 then Inl Fault
      else if length argv \<noteq> 2 then Inr s
      else
        bindE (find_mod fuel (argv ! 1) (lnext (kmodlist s None)) s) (\<lambda>q.
        (case q of
           None \<Rightarrow> Inr s
         | Some p \<Rightarrow>
             if mod_uninit (kmods s p) = 0 then Inl Fault
             else
               bindE (call (mod_uninit (kmods s p)) s) (\<lambda>(_, s).
               bindE (list_remove (Some p) (kmodlist s)) (\<lambda>h.
               let s = s\<lparr>kmodlist := h\<rparr>
               in bindE (page_free (unat (modbuff (kmods s p))) (sys_mm (ms_sys s))) (\<lambda>mm.
                  bindE (memcache_free fuel p (caches (ms_sys s) (modcache s))) (\<lambda>c.
                  Inr (s\<lparr>ms_sys := (ms_sys s)\<lparr>sys_mm := mm, caches := (caches (ms_sys s))(modcache s := c)\<rparr>\<rparr>))))))))"

section \<open>Words in memory\<close>

lemma st32_same: "ld32 (st32 m a v) a = v"
proof -
  have n: "a + 1 \<noteq> a" "a + 2 \<noteq> a" "a + 3 \<noteq> a" "a + 2 \<noteq> a + 1" "a + 3 \<noteq> a + 1" "a + 3 \<noteq> a + 2"
    "a \<noteq> a + 1" "a \<noteq> a + 2" "a \<noteq> a + 3" "a + 1 \<noteq> a + 2" "a + 1 \<noteq> a + 3" "a + 2 \<noteq> a + 3" for a :: u32
    by (simp_all add: eq_diff_eq [symmetric])
  have e: "k - 16 < 8 \<or> 24 + (k - 24) = k" for k :: nat by arith
  show ?thesis
    unfolding ld32_def st32_def
    by (simp add: n) (rule bit_word_eqI, auto simp: bit_simps, metis e)
qed

lemma st32_other: "\<not> in_range x a 4 \<Longrightarrow> st32 m a v x = m x"
  by (auto simp: st32_def in_range_def)

text \<open>The \<open>n\<close> bytes from \<open>a\<close> on and the \<open>k\<close> from \<open>b\<close> on have none in common.\<close>

definition apart :: "u32 \<Rightarrow> nat \<Rightarrow> u32 \<Rightarrow> nat \<Rightarrow> bool" where
  "apart a n b k \<longleftrightarrow> (\<forall>x. \<not> (in_range x a n \<and> in_range x b k))"

lemma in_range_sub: "in_range (a + of_nat i) a n \<longleftrightarrow> i < n" if "i < 2 ^ 32"
  using that by (simp add: in_range_def unat_of_nat_small)

lemma in_range_mono:
  assumes "in_range x (a + of_nat i) k" "i + k \<le> n" "n \<le> 2 ^ 32"
  shows "in_range x a n"
proof -
  obtain j where j: "j < k" "x = a + of_nat i + of_nat j" using assms by (auto simp: in_range_offset)
  then have "x = a + of_nat (i + j)" by simp
  moreover have "i + j < n" using j(1) assms(2) by simp
  ultimately show ?thesis using assms(3) by (auto simp: in_range_offset)
qed

lemma ld_same:
  assumes "\<And>x. in_range x a n \<Longrightarrow> m' x = m x" "n \<le> 2 ^ 32"
  shows "k + 2 \<le> n \<Longrightarrow> ld16 m' (a + of_nat k) = ld16 m (a + of_nat k)"
    "k + 4 \<le> n \<Longrightarrow> ld32 m' (a + of_nat k) = ld32 m (a + of_nat k)"
proof -
  have "m' (a + of_nat j) = m (a + of_nat j)" if "j < n" for j
    using assms that by (intro assms(1)) (auto simp: in_range_offset)
  note l = ld_at [where n = n and m = m' and a = a and m' = m and a' = a, OF this]
  show "k + 2 \<le> n \<Longrightarrow> ld16 m' (a + of_nat k) = ld16 m (a + of_nat k)" by (rule l(1))
  show "k + 4 \<le> n \<Longrightarrow> ld32 m' (a + of_nat k) = ld32 m (a + of_nat k)" by (rule l(2))
qed

lemma ld32_same: "(\<And>x. in_range x a 4 \<Longrightarrow> m' x = m x) \<Longrightarrow> ld32 m' a = ld32 m a"
  using ld_same(2) [of a 4 m' m 0] by simp

lemma st32_apart: "apart b 4 a 4 \<Longrightarrow> ld32 (st32 m a v) b = ld32 m b"
  by (rule ld32_same) (auto simp: apart_def intro!: st32_other)

section \<open>Relocating one section\<close>

text \<open>
  The \<open>i\<close>-th entry of a relocation section at \<open>rel\<close>: the place it patches, the value of its symbol and
  what it puts there.
\<close>

definition rloc :: "u32 \<Rightarrow> u32 \<Rightarrow> mem \<Rightarrow> nat \<Rightarrow> u32" where
  "rloc base rel m i = base + r_offset m (rel + 8 * of_nat i)"

definition rsym :: "u32 \<Rightarrow> u32 \<Rightarrow> mem \<Rightarrow> nat \<Rightarrow> u32" where
  "rsym stab rel m i = stab + 16 * drop_bit 8 (r_info m (rel + 8 * of_nat i))"

definition rtype :: "u32 \<Rightarrow> mem \<Rightarrow> nat \<Rightarrow> u8" where
  "rtype rel m i = ucast (r_info m (rel + 8 * of_nat i))"

definition patched :: "u32 \<Rightarrow> u32 \<Rightarrow> u32 \<Rightarrow> mem \<Rightarrow> nat \<Rightarrow> u32" where
  "patched base stab rel m i =
     (let p = rloc base rel m i; s = st_value m (rsym stab rel m i); a = ld32 m p
      in if rtype rel m i = R_386_32 then s + a else s + a - p)"

text \<open>The patched places are apart from each other and from everything the loop reads.\<close>

definition reloc_apart :: "u32 \<Rightarrow> u32 \<Rightarrow> u32 \<Rightarrow> u32 \<Rightarrow> u32 \<Rightarrow> u32 \<Rightarrow> nat \<Rightarrow> mem \<Rightarrow> bool" where
  "reloc_apart base shdr dest relsect rel stab n m \<longleftrightarrow>
     (\<forall>i<n. (\<forall>j<n. i \<noteq> j \<longrightarrow> apart (rloc base rel m i) 4 (rloc base rel m j) 4) \<and>
        apart (shent shdr dest) 40 (rloc base rel m i) 4 \<and> apart (shent shdr relsect) 40 (rloc base rel m i) 4 \<and>
        apart rel (8 * n) (rloc base rel m i) 4 \<and>
        (\<forall>j<n. apart (rsym stab rel m j) 16 (rloc base rel m i) 4))"

text \<open>The state of the loop before the entry \<open>i\<close>.\<close>

definition reloc_upto :: "u32 \<Rightarrow> u32 \<Rightarrow> u32 \<Rightarrow> nat \<Rightarrow> mem \<Rightarrow> nat \<Rightarrow> mem \<Rightarrow> bool" where
  "reloc_upto base stab rel n m i m' \<longleftrightarrow>
     (\<forall>j<n. ld32 m' (rloc base rel m j) = (if j < i then patched base stab rel m j else ld32 m (rloc base rel m j))) \<and>
     (\<forall>x. (\<forall>j<n. \<not> in_range x (rloc base rel m j) 4) \<longrightarrow> m' x = m x)"

lemma reloc_reads:
  assumes ap: "reloc_apart base shdr dest relsect rel stab n m" and up: "reloc_upto base stab rel n m i m'" and n: "8 * n \<le> 2 ^ 32"
  shows "sh_size m' (shent shdr relsect) = sh_size m (shent shdr relsect)"
    "sh_offset m' (shent shdr dest) = sh_offset m (shent shdr dest)"
    "k < n \<Longrightarrow> rloc base rel m' k = rloc base rel m k \<and> rsym stab rel m' k = rsym stab rel m k \<and> rtype rel m' k = rtype rel m k \<and>
       st_value m' (rsym stab rel m k) = st_value m (rsym stab rel m k)"
proof -
  have keep: "m' x = m x" if "in_range x a l" "\<forall>j<n. apart a l (rloc base rel m j) 4" for x a l
    using up that unfolding reloc_upto_def apart_def by blast
  have h: "\<forall>j<n. apart (shent shdr dest) 40 (rloc base rel m j) 4" "\<forall>j<n. apart (shent shdr relsect) 40 (rloc base rel m j) 4"
    "\<forall>j<n. apart rel (8 * n) (rloc base rel m j) 4" "\<And>k. k < n \<Longrightarrow> \<forall>j<n. apart (rsym stab rel m k) 16 (rloc base rel m j) 4"
    using ap unfolding reloc_apart_def by blast+
  show "sh_size m' (shent shdr relsect) = sh_size m (shent shdr relsect)"
    using ld_same(2) [of "shent shdr relsect" 40 m' m 20] keep [OF _ h(2)] by (simp add: sh_size_def)
  show "sh_offset m' (shent shdr dest) = sh_offset m (shent shdr dest)"
    using ld_same(2) [of "shent shdr dest" 40 m' m 16] keep [OF _ h(1)] by (simp add: sh_offset_def)
  assume k: "k < n"
  have rel: "ld32 m' (rel + of_nat l) = ld32 m (rel + of_nat l)" if "l + 4 \<le> 8 * n" for l
    using ld_same(2) [of rel "8 * n" m' m l] keep [OF _ h(3)] n that by simp
  have "ld32 m' (rel + 8 * of_nat k) = ld32 m (rel + 8 * of_nat k)" "ld32 m' (rel + 8 * of_nat k + 4) = ld32 m (rel + 8 * of_nat k + 4)"
    using rel [of "8 * k"] rel [of "8 * k + 4"] k by (simp_all add: add.assoc)
  moreover have "ld32 m' (rsym stab rel m k + 4) = ld32 m (rsym stab rel m k + 4)"
    using ld_same(2) [of "rsym stab rel m k" 16 m' m 4] keep [OF _ h(4) [OF k]] by simp
  ultimately show "rloc base rel m' k = rloc base rel m k \<and> rsym stab rel m' k = rsym stab rel m k \<and> rtype rel m' k = rtype rel m k \<and>
       st_value m' (rsym stab rel m k) = st_value m (rsym stab rel m k)"
    by (simp add: rloc_def rsym_def rtype_def r_offset_def r_info_def st_value_def)
qed

lemma reloc_step:
  assumes ap: "reloc_apart base shdr dest relsect rel stab n m" and up: "reloc_upto base stab rel n m i m'" and i: "i < n"
  shows "reloc_upto base stab rel n m (Suc i) (st32 m' (rloc base rel m i) (patched base stab rel m i))"
proof -
  have "ld32 (st32 m' (rloc base rel m i) v) (rloc base rel m j) = ld32 m' (rloc base rel m j)" if "j < n" "j \<noteq> i" for j v
    using ap that i by (intro st32_apart) (auto simp: reloc_apart_def)
  then show ?thesis
    using up i by (auto simp: reloc_upto_def st32_same st32_other less_Suc_eq)
qed

lemma reloc_loop_ok:
  assumes ap: "reloc_apart base shdr dest relsect rel stab n m" and n: "n = unat (sh_size m (shent shdr relsect) div sizeof_Rel)"
    and base: "base = buf + sh_offset m (shent shdr dest)"
    and ty: "\<And>i. i < n \<Longrightarrow> rtype rel m i = R_386_32 \<or> rtype rel m i = R_386_PC32"
  shows "reloc_upto base stab rel n m i m' \<Longrightarrow> i \<le> n \<Longrightarrow> n < i + fuel \<Longrightarrow>
    \<exists>m''. reloc_loop fuel buf shdr dest relsect rel stab i m' = Inr (0, m'') \<and> reloc_upto base stab rel n m n m''"
proof (induction fuel arbitrary: i m')
  case 0
  then show ?case by simp
next
  case (Suc fuel)
  have n8: "8 * n \<le> 2 ^ 32"
    using unat_u32_lt [of "sh_size m (shent shdr relsect)"] by (simp add: n sizeof_Rel_def unat_div_distrib)
  note rd = reloc_reads [OF ap Suc.prems(1) n8]
  have sz: "unat (sh_size m' (shent shdr relsect) div sizeof_Rel) = n" by (simp add: rd(1) n)
  show ?case
  proof (cases "n \<le> i")
    case True
    then show ?thesis using Suc.prems(1,2) sz by simp
  next
    case False
    then have i: "i < n" by simp
    note rk = rd(3) [OF i]
    have a: "ld32 m' (rloc base rel m i) = ld32 m (rloc base rel m i)" using Suc.prems(1) i by (simp add: reloc_upto_def)
    define p where "p = rloc base rel m i"
    have loc: "buf + sh_offset m' (shent shdr dest) + r_offset m' (rel + 8 * of_nat i) = p"
      using rk rd(2) by (simp add: p_def rloc_def base)
    have val: "st_value m' (stab + 16 * drop_bit 8 (r_info m' (rel + 8 * of_nat i))) = st_value m (rsym stab rel m i)"
      using rk by (simp add: rsym_def)
    have t: "(ucast (r_info m' (rel + 8 * of_nat i)) :: u8) = rtype rel m i" using rk by (simp add: rtype_def)
    have pat: "patched base stab rel m i = (if rtype rel m i = R_386_32 then ld32 m' p + st_value m (rsym stab rel m i)
        else ld32 m' p + (st_value m (rsym stab rel m i) - p))"
      using a by (simp add: patched_def Let_def p_def algebra_simps)
    have "reloc_loop (Suc fuel) buf shdr dest relsect rel stab i m' =
        reloc_loop fuel buf shdr dest relsect rel stab (i + 1) (st32 m' p (patched base stab rel m i))"
      using ty [OF i] i by (auto simp: sz Let_def loc val t pat R_386_32_def R_386_PC32_def)
    then show ?thesis
      using Suc.IH [OF reloc_step [OF ap Suc.prems(1) i]] Suc.prems(3) i by (simp add: p_def)
  qed
qed

section \<open>Resolving the symbols\<close>

definition sym_at :: "u32 \<Rightarrow> nat \<Rightarrow> u32" where
  "sym_at stab i = stab + 16 * of_nat i"

text \<open>What the value of a symbol becomes, when the symbol can be resolved at all.\<close>

definition sym_name :: "u32 \<Rightarrow> u32 \<Rightarrow> mem \<Rightarrow> nat \<Rightarrow> cstr" where
  "sym_name names stab m i = str_at m (names + st_name m (sym_at stab i))"

definition resolvable :: "ksyminfo list \<Rightarrow> u32 \<Rightarrow> u32 \<Rightarrow> mem \<Rightarrow> nat \<Rightarrow> bool" where
  "resolvable syms names stab m i \<longleftrightarrow> st_shndx m (sym_at stab i) \<noteq> SHN_COMMON \<and>
     (st_shndx m (sym_at stab i) = SHN_UNDEF \<longrightarrow>
        find_symb syms (sym_name names stab m i) \<noteq> None \<or> drop_bit 4 (st_info m (sym_at stab i)) = STB_WEAK)"

definition resolved :: "ksyminfo list \<Rightarrow> u32 \<Rightarrow> u32 \<Rightarrow> u32 \<Rightarrow> u32 \<Rightarrow> mem \<Rightarrow> nat \<Rightarrow> u32" where
  "resolved syms buf shdr names stab m i =
     (let v = st_value m (sym_at stab i); ndx = st_shndx m (sym_at stab i)
      in if ndx = SHN_UNDEF then (case find_symb syms (sym_name names stab m i) of Some ks \<Rightarrow> ks_addr ks | None \<Rightarrow> v)
         else if ndx = SHN_ABS then v
         else v + (buf + sh_offset m (shent shdr (ucast ndx))))"

text \<open>The values of the symbols are apart from the headers and the names.\<close>

definition syms_apart :: "u32 \<Rightarrow> u32 \<Rightarrow> u32 \<Rightarrow> u32 \<Rightarrow> u32 \<Rightarrow> nat \<Rightarrow> mem \<Rightarrow> bool" where
  "syms_apart shdr tbl nam names stab n m \<longleftrightarrow>
     (\<forall>i<n. 0 < i \<longrightarrow> apart (shent shdr tbl) 40 (sym_at stab i + 4) 4 \<and> apart (shent shdr nam) 40 (sym_at stab i + 4) 4 \<and>
        (\<forall>j<n. apart (shent shdr (ucast (st_shndx m (sym_at stab j)))) 40 (sym_at stab i + 4) 4 \<and>
           apart (names + st_name m (sym_at stab j)) (length (sym_name names stab m j)) (sym_at stab i + 4) 4))"

definition resolve_upto :: "ksyminfo list \<Rightarrow> u32 \<Rightarrow> u32 \<Rightarrow> u32 \<Rightarrow> u32 \<Rightarrow> nat \<Rightarrow> mem \<Rightarrow> nat \<Rightarrow> mem \<Rightarrow> bool" where
  "resolve_upto syms buf shdr names stab n m i m' \<longleftrightarrow>
     (\<forall>j<n. 0 < j \<longrightarrow> st_value m' (sym_at stab j) =
        (if j < i then resolved syms buf shdr names stab m j else st_value m (sym_at stab j))) \<and>
     (\<forall>x. (\<forall>j<n. 0 < j \<longrightarrow> \<not> in_range x (sym_at stab j + 4) 4) \<longrightarrow> m' x = m x)"

lemma of_nat_inj_u32: "(of_nat a :: u32) = of_nat b \<Longrightarrow> a < 2 ^ 32 \<Longrightarrow> b < 2 ^ 32 \<Longrightarrow> a = b"
proof -
  assume e: "(of_nat a :: u32) = of_nat b" and l: "a < 2 ^ 32" "b < 2 ^ 32"
  have "unat (of_nat a :: u32) = a" "unat (of_nat b :: u32) = b" using l by (auto intro!: unat_of_nat_small)
  then show "a = b" unfolding e by simp
qed

lemma fields_apart:
  assumes "i < n" "j < n" "16 * n \<le> 2 ^ 32" "k + l \<le> 16" "i \<noteq> j \<or> k + l \<le> 4 \<or> 8 \<le> k"
  shows "apart (sym_at stab i + of_nat k) l (sym_at stab j + 4) 4"
  unfolding apart_def
proof (intro allI notI)
  fix x assume x: "in_range x (sym_at stab i + of_nat k) l \<and> in_range x (sym_at stab j + 4) 4"
  have l32: "l \<le> 2 ^ 32" "(4 :: nat) \<le> 2 ^ 32" using assms(4) by simp_all
  obtain a where a: "a < l" "x = sym_at stab i + of_nat k + of_nat a" using x l32 by (auto simp: in_range_offset)
  obtain b where b: "b < 4" "x = sym_at stab j + 4 + of_nat b" using x l32 by (auto simp: in_range_offset)
  have "(of_nat (16 * i + k + a) :: u32) = of_nat (16 * j + 4 + b)"
    using a(2) b(2) by (simp add: sym_at_def algebra_simps)
  moreover have "16 * i + k + a < 2 ^ 32" "16 * j + 4 + b < 2 ^ 32" using assms a(1) b(1) by linarith+
  ultimately have e: "16 * i + k + a = 16 * j + 4 + b" by (rule of_nat_inj_u32)
  have "i = j"
  proof -
    have "(16 * i + (k + a)) div 16 = i" using a(1) assms(4) by simp
    moreover have "(16 * j + (4 + b)) div 16 = j" using b(1) by simp
    ultimately show ?thesis using e by (simp add: add.assoc)
  qed
  then show False using e a(1) b(1) assms(5) by auto
qed

lemma cstr_at_same:
  "(\<And>x. in_range x a (length (cstr_at n m a)) \<Longrightarrow> m' x = m x) \<Longrightarrow> n < 2 ^ 32 \<Longrightarrow> cstr_at n m' a = cstr_at n m a"
proof (induction n arbitrary: a)
  case (Suc n)
  have len: "length (cstr_at k m b) \<le> k" for k b by (induction k arbitrary: b) auto
  have "in_range a a (length (cstr_at (Suc n) m a))" by (simp add: in_range_def)
  then have a: "m' a = m a" by (rule Suc.prems(1))
  show ?case
  proof (cases "m a = 0")
    case False
    have "m' x = m x" if "in_range x (a + 1) (length (cstr_at n m (a + 1)))" for x
      using in_range_mono [of x a 1 "length (cstr_at n m (a + 1))" "length (cstr_at (Suc n) m a)"] that False
        Suc.prems len [of n "a + 1"] by auto
    then show ?thesis using Suc.IH [of "a + 1"] Suc.prems(2) a False by simp
  qed (use a in simp)
qed simp

lemma resolve_reads:
  assumes ap: "syms_apart shdr tbl nam names stab n m" and up: "resolve_upto syms buf shdr names stab n m i m'"
    and n: "16 * n \<le> 2 ^ 32"
  shows "sh_size m' (shent shdr tbl) = sh_size m (shent shdr tbl)"
    "sh_offset m' (shent shdr nam) = sh_offset m (shent shdr nam)"
    "k < n \<Longrightarrow> st_shndx m' (sym_at stab k) = st_shndx m (sym_at stab k) \<and> st_info m' (sym_at stab k) = st_info m (sym_at stab k) \<and>
       st_name m' (sym_at stab k) = st_name m (sym_at stab k) \<and> sym_name names stab m' k = sym_name names stab m k \<and>
       sh_offset m' (shent shdr (ucast (st_shndx m (sym_at stab k)))) = sh_offset m (shent shdr (ucast (st_shndx m (sym_at stab k))))"
proof -
  have keep: "m' x = m x" if "in_range x a l" "\<forall>j<n. 0 < j \<longrightarrow> apart a l (sym_at stab j + 4) 4" for x a l
    using up that unfolding resolve_upto_def apart_def by blast
  have h: "\<forall>j<n. 0 < j \<longrightarrow> apart (shent shdr tbl) 40 (sym_at stab j + 4) 4"
    "\<forall>j<n. 0 < j \<longrightarrow> apart (shent shdr nam) 40 (sym_at stab j + 4) 4"
    "\<And>k. k < n \<Longrightarrow> \<forall>j<n. 0 < j \<longrightarrow> apart (shent shdr (ucast (st_shndx m (sym_at stab k)))) 40 (sym_at stab j + 4) 4"
    "\<And>k. k < n \<Longrightarrow> \<forall>j<n. 0 < j \<longrightarrow>
       apart (names + st_name m (sym_at stab k)) (length (sym_name names stab m k)) (sym_at stab j + 4) 4"
    using ap unfolding syms_apart_def by blast+
  show "sh_size m' (shent shdr tbl) = sh_size m (shent shdr tbl)"
    using ld_same(2) [of "shent shdr tbl" 40 m' m 20] keep [OF _ h(1)] by (simp add: sh_size_def)
  show "sh_offset m' (shent shdr nam) = sh_offset m (shent shdr nam)"
    using ld_same(2) [of "shent shdr nam" 40 m' m 16] keep [OF _ h(2)] by (simp add: sh_offset_def)
  assume k: "k < n"
  have fld: "m' x = m x" if "in_range x (sym_at stab k + of_nat p) l" "p + l \<le> 16" "p + l \<le> 4 \<or> 8 \<le> p" for x p l
    using keep [OF that(1)] fields_apart [OF k _ n that(2), of _ stab] that(3) by blast
  have nm: "st_name m' (sym_at stab k) = st_name m (sym_at stab k)"
    using ld32_same [of "sym_at stab k" m' m] fld [of _ 0 4] by (simp add: st_name_def)
  have "ld16 m' (sym_at stab k + 14) = ld16 m (sym_at stab k + 14)"
    using ld_same(1) [of "sym_at stab k + 14" 2 m' m 0] fld [of _ 14 2] by simp
  moreover have "m' (sym_at stab k + 12) = m (sym_at stab k + 12)"
    using fld [of "sym_at stab k + 12" 12 1] by (simp add: in_range_def)
  moreover have "sym_name names stab m' k = sym_name names stab m k"
    using cstr_at_same [of "names + st_name m (sym_at stab k)" 65535 m m'] keep [OF _ h(4) [OF k]]
    by (simp add: sym_name_def str_at_def nm)
  moreover have "sh_offset m' (shent shdr (ucast (st_shndx m (sym_at stab k)))) = sh_offset m (shent shdr (ucast (st_shndx m (sym_at stab k))))"
    using ld_same(2) [of "shent shdr (ucast (st_shndx m (sym_at stab k)))" 40 m' m 16] keep [OF _ h(3) [OF k]] by (simp add: sh_offset_def)
  ultimately show "st_shndx m' (sym_at stab k) = st_shndx m (sym_at stab k) \<and> st_info m' (sym_at stab k) = st_info m (sym_at stab k) \<and>
       st_name m' (sym_at stab k) = st_name m (sym_at stab k) \<and> sym_name names stab m' k = sym_name names stab m k \<and>
       sh_offset m' (shent shdr (ucast (st_shndx m (sym_at stab k)))) = sh_offset m (shent shdr (ucast (st_shndx m (sym_at stab k))))"
    using nm by (simp add: st_shndx_def st_info_def)
qed

lemma resolve_step:
  assumes up: "resolve_upto syms buf shdr names stab n m i m'" and i: "i < n" "0 < i" and n: "16 * n \<le> 2 ^ 32"
    and v: "m1 = st32 m' (sym_at stab i + 4) (resolved syms buf shdr names stab m i) \<or>
      (m1 = m' \<and> st_value m (sym_at stab i) = resolved syms buf shdr names stab m i)"
  shows "resolve_upto syms buf shdr names stab n m (i + 1) m1"
proof -
  have o: "ld32 (st32 m' (sym_at stab i + 4) w) (sym_at stab j + 4) = ld32 m' (sym_at stab j + 4)" if "j < n" "j \<noteq> i" for j w
    using fields_apart [OF that(1) i(1) n, of 4 4 stab] that(2) by (intro st32_apart) simp
  show ?thesis
    using v
  proof
    assume "m1 = st32 m' (sym_at stab i + 4) (resolved syms buf shdr names stab m i)"
    then show ?thesis using up i o by (auto simp: resolve_upto_def st_value_def st32_same st32_other less_Suc_eq)
  next
    assume "m1 = m' \<and> st_value m (sym_at stab i) = resolved syms buf shdr names stab m i"
    then show ?thesis using up i by (auto simp: resolve_upto_def less_Suc_eq)
  qed
qed

lemma resolve_loop_ok:
  assumes ap: "syms_apart shdr (symtbl md) (symname md) names stab n m"
    and n: "n = unat (sh_size m (shent shdr (symtbl md)) div sizeof_Sym)"
    and names: "names = modbuff md + sh_offset m (shent shdr (symname md))"
    and ok: "\<And>i. 0 < i \<Longrightarrow> i < n \<Longrightarrow> resolvable syms names stab m i"
  shows "resolve_upto syms (modbuff md) shdr names stab n m i m' \<Longrightarrow> 0 < i \<Longrightarrow> i \<le> n \<or> i = 1 \<Longrightarrow> n + 1 < i + fuel \<Longrightarrow>
    \<exists>m''. resolve_loop fuel syms md shdr stab i m' = Inr (0, m'') \<and> resolve_upto syms (modbuff md) shdr names stab n m n m''"
proof (induction fuel arbitrary: i m')
  case 0
  then show ?case by auto
next
  case (Suc fuel)
  have n16: "16 * n \<le> 2 ^ 32"
    using unat_u32_lt [of "sh_size m (shent shdr (symtbl md))"] by (simp add: n sizeof_Sym_def unat_div_distrib)
  note rd = resolve_reads [OF ap Suc.prems(1) n16]
  have sz: "unat (sh_size m' (shent shdr (symtbl md)) div sizeof_Sym) = n" by (simp add: rd(1) n)
  show ?case
  proof (cases "n \<le> i")
    case True
    then have "resolve_upto syms (modbuff md) shdr names stab n m n m'" using Suc.prems(1) by (auto simp: resolve_upto_def)
    then show ?thesis using True sz by simp
  next
    case False
    then have i: "i < n" by simp
    note rk = rd(3) [OF i]
    have val: "st_value m' (sym_at stab i) = st_value m (sym_at stab i)" using Suc.prems(1,2) i by (simp add: resolve_upto_def)
    have nm: "str_at m' (modbuff md + sh_offset m' (shent shdr (symname md)) + st_name m' (sym_at stab i)) = sym_name names stab m i"
      using rk unfolding rd(2) names [symmetric] sym_name_def by metis
    note r = rk [THEN conjunct1] rk [THEN conjunct2, THEN conjunct1]
      rk [THEN conjunct2, THEN conjunct2, THEN conjunct2, THEN conjunct2]
    define R where "R = resolved syms (modbuff md) shdr names stab m i"
    define ndx where "ndx = st_shndx m (sym_at stab i)"
    have step: "resolve_loop (Suc fuel) syms md shdr stab i m' =
        (if ndx = SHN_UNDEF then
           (case find_symb syms (sym_name names stab m i) of
              Some ks \<Rightarrow> resolve_loop fuel syms md shdr stab (i + 1) (st32 m' (sym_at stab i + 4) (ks_addr ks))
            | None \<Rightarrow> if drop_bit 4 (st_info m (sym_at stab i)) = STB_WEAK then resolve_loop fuel syms md shdr stab (i + 1) m'
                       else Inr (- 1, m'))
         else if ndx = SHN_COMMON then Inl Die
         else if ndx = SHN_ABS then resolve_loop fuel syms md shdr stab (i + 1) m'
         else resolve_loop fuel syms md shdr stab (i + 1) (st32 m' (sym_at stab i + 4)
                (st_value m (sym_at stab i) + (modbuff md + sh_offset m (shent shdr (ucast ndx))))))"
      unfolding resolve_loop.simps sz Let_def sym_at_def [symmetric] nm r(1,2) val r(3) ndx_def if_not_P [OF False] by (rule refl)
    have rsv: "ndx \<noteq> SHN_COMMON" "ndx = SHN_UNDEF \<Longrightarrow> find_symb syms (sym_name names stab m i) = None \<Longrightarrow>
        drop_bit 4 (st_info m (sym_at stab i)) = STB_WEAK"
      using ok [OF Suc.prems(2) i] by (auto simp: resolvable_def ndx_def)
    have "\<exists>m1. resolve_loop (Suc fuel) syms md shdr stab i m' = resolve_loop fuel syms md shdr stab (i + 1) m1 \<and>
        (m1 = st32 m' (sym_at stab i + 4) R \<or> (m1 = m' \<and> st_value m (sym_at stab i) = R))"
    proof (cases "ndx = SHN_UNDEF")
      case True
      then show ?thesis
        using rsv(2) unfolding step
        by (cases "find_symb syms (sym_name names stab m i)") (auto simp: R_def resolved_def Let_def ndx_def)
    next
      case False
      then show ?thesis using rsv(1) unfolding step by (cases "ndx = SHN_ABS") (auto simp: R_def resolved_def Let_def ndx_def)
    qed
    then obtain m1 where m1: "resolve_loop (Suc fuel) syms md shdr stab i m' = resolve_loop fuel syms md shdr stab (i + 1) m1"
      "m1 = st32 m' (sym_at stab i + 4) R \<or> (m1 = m' \<and> st_value m (sym_at stab i) = R)" by blast
    note m1 = m1 [unfolded R_def]
    show ?thesis
      unfolding m1(1)
      using Suc.IH [OF resolve_step [OF Suc.prems(1) i Suc.prems(2) n16 m1(2)]] Suc.prems(4) i by simp
  qed
qed

section \<open>Properties\<close>


text \<open>
  C13: relocating a section. When the places that the entries patch are apart from each other and from
  the tables, and every entry is of one of the two types, \<^verbatim>\<open>relocate_sym_32\<close> returns 0; the word at
  each place becomes the value of the symbol plus the word that was there, less the address of the place
  for a relative entry; and no other byte of the memory changes.
\<close>

theorem relocate_sym_32_correct:
  assumes "sh_entsize m (shent shdr relsect) = sizeof_Rel" "n = unat (sh_size m (shent shdr relsect) div sizeof_Rel)"
    and "base = buf + sh_offset m (shent shdr dest)" "rel = buf + sh_offset m (shent shdr relsect)"
    and "stab = buf + sh_offset m (shent shdr symsect)" "reloc_apart base shdr dest relsect rel stab n m"
    and "\<And>i. i < n \<Longrightarrow> rtype rel m i \<in> {R_386_32, R_386_PC32}" "n < fuel"
  shows "\<exists>m'. relocate_sym_32 fuel buf shdr dest relsect symsect m = Inr (0, m') \<and>
    (\<forall>i<n. ld32 m' (rloc base rel m i) =
       st_value m (rsym stab rel m i) + ld32 m (rloc base rel m i) -
         (if rtype rel m i = R_386_32 then 0 else rloc base rel m i)) \<and>
    (\<forall>x. (\<forall>i<n. \<not> in_range x (rloc base rel m i) 4) \<longrightarrow> m' x = m x)"
proof -
  have up: "reloc_upto base stab rel n m 0 m" by (simp add: reloc_upto_def)
  have ty: "rtype rel m i = R_386_32 \<or> rtype rel m i = R_386_PC32" if "i < n" for i using assms(7) [OF that] by auto
  obtain m' where m': "reloc_loop fuel buf shdr dest relsect rel stab 0 m = Inr (0, m')" "reloc_upto base stab rel n m n m'"
    using reloc_loop_ok [OF assms(6,2,3) ty up] assms(8) by auto
  have "relocate_sym_32 fuel buf shdr dest relsect symsect m = Inr (0, m')"
    using m'(1) assms(1,4,5) by (simp add: relocate_sym_32_def)
  then show ?thesis using m'(2) by (auto simp: reloc_upto_def patched_def Let_def)
qed

text \<open>
  Any section whose \<^verbatim>\<open>sh_info\<close> happens to name a section that is loaded must be a relocation section, or the
  kernel stops. In a symbol table \<^verbatim>\<open>sh_info\<close> is not a section: it is the number of local symbols.
\<close>

lemma do_reloc_other_dies:
  assumes "i < unat (e_shnum m ehdr)" "sint (sh_info m (shent shdr (of_nat i))) < int (unat (e_shnum m ehdr))"
    and "sh_flags m (shent shdr (sh_info m (shent shdr (of_nat i)))) AND SHF_ALLOC \<noteq> 0"
    and "sh_type m (shent shdr (of_nat i)) = SHT_SYMTAB"
  shows "do_reloc_loop fuel (Suc k) i buf ehdr shdr m = Inl Die"
  using assms by (simp add: Let_def SHT_SYMTAB_def SHT_REL_def)

lemma magic_never_checked: "memcmp (mem_bytes m a (unat (strlen ELFHEAD_MAGICNUM))) (take (unat (strlen ELFHEAD_MAGICNUM)) ELFHEAD_MAGICNUM) = 0"
  by (simp add: ELFHEAD_MAGICNUM_def mem_bytes_def)

lemma apart_intervals:
  assumes "unat a + n \<le> unat b \<and> unat b + k \<le> 2 ^ 32 \<or> unat b + k \<le> unat a \<and> unat a + n \<le> 2 ^ 32"
  shows "apart a n b k"
proof -
  have r: "unat a \<le> unat x \<and> unat x < unat a + n" if "in_range x a n" "unat a + n \<le> 2 ^ 32" for x a :: u32 and n
  proof -
    have "unat (a + (x - a)) = unat a + unat (x - a)"
      using that by (intro unat_add_no_wrap) (simp add: in_range_def)
    then show ?thesis using that(1) by (simp add: in_range_def)
  qed
  show ?thesis
    unfolding apart_def
  proof (intro allI notI)
    fix x assume x: "in_range x a n \<and> in_range x b k"
    have "unat a + n \<le> 2 ^ 32" "unat b + k \<le> 2 ^ 32" using assms unat_u32_lt [of a] unat_u32_lt [of b] by linarith+
    then show False using r [of x a n] r [of x b k] x assms by linarith
  qed
qed

text \<open>A section with two entries, one of each type, for the symbol 1.\<close>

definition two_relocs :: mem where
  "two_relocs x =
     (if x = 57 then 2 else if x = 60 then 16 else if x = 76 then 8 else if x = 97 then 4 else if x = 137 then 6
      else if x = 512 then 4 else if x = 516 then 1 else if x = 517 then 1
      else if x = 520 then 8 else if x = 524 then 2 else if x = 525 then 1
      else if x = 1557 then 0x50 else if x = 1028 then 0x10
      else if x = 1032 then 0xFC else if x \<in> {1033, 1034, 1035} then 0xFF else 0)"

lemma two_relocs_loads:
  "ld32 two_relocs 76 = 8" "ld32 two_relocs 60 = 16" "ld32 two_relocs 96 = 1024" "ld32 two_relocs 56 = 512"
  "ld32 two_relocs 136 = 1536" "ld32 two_relocs 512 = 4" "ld32 two_relocs 520 = 8" "ld32 two_relocs 516 = 0x101"
  "ld32 two_relocs 524 = 0x102" "ld32 two_relocs 1556 = 0x5000" "ld32 two_relocs 1028 = 0x10" "ld32 two_relocs 1032 = 0xFFFFFFFC"
  by (simp_all add: ld32_def two_relocs_def)

theorem relocate_sym_32_correct_witness:
  "\<exists>m'. relocate_sym_32 3 0 0 2 1 3 two_relocs = Inr (0, m') \<and> ld32 m' 1028 = 0x5010 \<and> ld32 m' 1032 = 0x4BF4"
proof -
  have lt: "i < 2 \<longleftrightarrow> i = 0 \<or> i = 1" for i :: nat by auto
  note ev = two_relocs_loads rloc_def rsym_def rtype_def r_offset_def r_info_def shent_def st_value_def
  have "reloc_apart 1024 0 2 1 512 1536 2 two_relocs"
    unfolding reloc_apart_def lt by (auto simp: ev intro!: apart_intervals)
  moreover have "rtype 512 two_relocs i \<in> {R_386_32, R_386_PC32}" if "i < 2" for i
    using that by (auto simp: lt ev R_386_32_def R_386_PC32_def)
  ultimately obtain m' where m': "relocate_sym_32 3 0 0 2 1 3 two_relocs = Inr (0, m')"
    "\<forall>i<2. ld32 m' (rloc 1024 512 two_relocs i) = st_value two_relocs (rsym 1536 512 two_relocs i) +
       ld32 two_relocs (rloc 1024 512 two_relocs i) - (if rtype 512 two_relocs i = R_386_32 then 0 else rloc 1024 512 two_relocs i)"
    using relocate_sym_32_correct [of two_relocs 0 1 2 1024 0 2 512 1536 3 3]
    by (auto simp: ev sh_entsize_def sh_size_def sh_offset_def sizeof_Rel_def)
  have "ld32 m' 1028 = 0x5010" using m'(2) [rule_format, of 0] by (simp add: ev R_386_32_def)
  moreover have "ld32 m' 1032 = 0x4BF4" using m'(2) [rule_format, of 1] by (simp add: ev R_386_32_def)
  ultimately show ?thesis using m'(1) by blast
qed

text \<open>An undefined symbol \<open>A\<close> and a symbol of section 1.\<close>

definition two_syms :: mem where
  "two_syms x =
     (if x = 48 then 2 else if x = 81 then 3 else if x = 108 then 2 else if x = 121 then 2 else if x = 124 then 48
      else if x = 140 then 16 else if x = 528 then 1 else if x = 548 then 4 else if x = 558 then 1
      else if x = 769 then 65 else 0)"

lemma two_syms_loads:
  "ld16 two_syms 48 = 2" "ld32 two_syms 68 = 0" "ld32 two_syms 108 = 2" "ld32 two_syms 120 = 512" "ld32 two_syms 124 = 48"
  "ld32 two_syms 128 = 0" "ld32 two_syms 140 = 16" "ld32 two_syms 80 = 768" "ld32 two_syms 512 = 0" "ld32 two_syms 528 = 1"
  "ld32 two_syms 544 = 0" "ld32 two_syms 532 = 0" "ld32 two_syms 548 = 4" "ld16 two_syms 526 = 0" "ld16 two_syms 542 = 0"
  "ld16 two_syms 558 = 1"
  by (simp_all add: ld32_def ld16_def two_syms_def)

lemma cstr_at_numeral: "cstr_at (numeral k) m a = (if m a = 0 then [0] else m a # cstr_at (pred_numeral k) m (a + 1))"
  by (simp add: numeral_eq_Suc)

lemma two_syms_names: "str_at two_syms 768 = [0]" "str_at two_syms 769 = [65, 0]"
  by (simp_all add: str_at_def cstr_at_numeral two_syms_def)

definition one_export :: "ksyminfo list" where
  "one_export = [\<lparr>ks_name = [65, 0], ks_addr = 0xC0DE\<rparr>]"

lemma find_one_export: "find_symb one_export [65, 0] = Some \<lparr>ks_name = [65, 0], ks_addr = 0xC0DE\<rparr>"
  by (simp add: find_symb_def one_export_def bsearch_def bsearch_loop.simps [of _ _ _ 0 "Suc 0"] symname_cmp_def strcmp.simps Let_def)


end
