(* ===== verification/Spec2Isabelle.thy ===== *)
theory Spec2Isabelle
  imports ListHead Bits Crc32 Sort Func Disp Vga Checksum Net Memmap Cmdlist Sem Slab Paging Intr Ext2 Hd Module
begin

text \<open>
  A verification library of the loader and kernel under src/myLoader.
\<close>

end
